(* ===== verification/Prelude.thy ===== *)
theory Prelude
  imports Main "HOL-Library.Word"
begin

text \<open>
  What every component of the development shares: the machine integers of the source, the
  outcome of code that can panic, the byte encodings of the Rust standard library
  (\<open>to_le_bytes\<close>, \<open>from_le_bytes\<close>, \<open>to_be_bytes\<close>, \<open>from_be_bytes\<close>), slices and
  \<open>chunks\<close>, and two interfaces (locales) for wire formats: a decoder that reads a value off
  the front of a buffer, and a reader that moves a cursor through a buffer.

  Integer arithmetic is that of a release build (the build of the README): \<open>+\<close>, \<open>-\<close> and
  \<open>*\<close> on \<open>u8\<close> to \<open>u64\<close> wrap around.  Lengths of vectors are \<open>nat\<close>: a \<open>usize\<close> that
  counts the bytes of an object in memory is below \<open>2 ^ 63\<close>.
\<close>

unbundle bit_operations_syntax

type_synonym u8 = "8 word"
type_synonym u16 = "16 word"
type_synonym u32 = "32 word"
type_synonym u64 = "64 word"
type_synonym bytes = "u8 list"

text \<open>A point in time (\<open>Instant\<close>) and a time span (\<open>Duration\<close>), in nanoseconds.\<close>

type_synonym instant = int
type_synonym duration = nat

definition duration_since :: "instant \<Rightarrow> instant \<Rightarrow> duration" where
  "duration_since now earlier = nat (now - earlier)"

abbreviation from_millis :: "nat \<Rightarrow> duration" where
  "from_millis n \<equiv> n * 1000000"

abbreviation from_micros :: "nat \<Rightarrow> duration" where
  "from_micros n \<equiv> n * 1000"

text \<open>The facts about bytes, lists and words that the component proofs collect.\<close>

named_theorems byte_simps

text \<open>Code that can panic returns an \<open>outcome\<close>.\<close>

datatype 'a outcome = Return 'a | Panic

section \<open>Integers as bytes\<close>

definition le_bytes :: "'a::len word \<Rightarrow> bytes" where
  "le_bytes w = map (\<lambda>i. ucast (drop_bit (8 * i) w)) [0..<LENGTH('a) div 8]"

fun of_le_bytes :: "bytes \<Rightarrow> 'a::len word" where
  "of_le_bytes [] = 0"
| "of_le_bytes (b # bs) = ucast b OR push_bit 8 (of_le_bytes bs)"

definition be_bytes :: "'a::len word \<Rightarrow> bytes" where
  "be_bytes w = rev (le_bytes w)"

definition of_be_bytes :: "bytes \<Rightarrow> 'a::len word" where
  "of_be_bytes bs = of_le_bytes (rev bs)"

section \<open>Slices\<close>

text \<open>\<open>xs[a..b]\<close> where the bounds have been checked, and \<open>xs.chunks(n)\<close>.\<close>

definition slice :: "nat \<Rightarrow> nat \<Rightarrow> 'a list \<Rightarrow> 'a list" where
  "slice a b xs = take (b - a) (drop a xs)"

function chunks :: "nat \<Rightarrow> 'a list \<Rightarrow> 'a list list" where
  "chunks n xs = (if n = 0 \<or> xs = [] then [] else take n xs # chunks n (drop n xs))"
  by pat_completeness auto
termination
  by (relation "measure (\<lambda>(n, xs). length xs)") auto

text \<open>\<open>u64::saturating_add\<close>.\<close>

definition saturating_add :: "u64 \<Rightarrow> u64 \<Rightarrow> u64" where
  "saturating_add a b = (if unat a + unat b < 2 ^ 64 then a + b else - 1)"

text \<open>\<open>u64 as usize\<close> and back are the identity on the 64-bit targets of the program.\<close>

section \<open>Lemmas on bytes\<close>

lemma length_le_bytes [simp]: "length (le_bytes (w :: 'a::len word)) = LENGTH('a) div 8"
  by (simp add: le_bytes_def)

lemma length_be_bytes [simp]: "length (be_bytes (w :: 'a::len word)) = LENGTH('a) div 8"
  by (simp add: be_bytes_def)

lemma bit_of_le_bytes:
  "bit (of_le_bytes bs :: 'a::len word) n \<longleftrightarrow>
     n < LENGTH('a) \<and> n div 8 < length bs \<and> bit (bs ! (n div 8)) (n mod 8)"
proof (induction bs arbitrary: n)
  case Nil
  then show ?case by simp
next
  case (Cons b bs)
  show ?case
  proof (cases "n < 8")
    case True
    then show ?thesis by (auto simp: bit_or_iff bit_push_bit_iff bit_ucast_iff)
  next
    case False
    then obtain m where n: "n = m + 8" by (metis add.commute le_Suc_ex not_less)
    have "\<not> bit b n" using False bit_imp_le_length[of b n] by auto
    moreover have "(m + 8) div 8 = Suc (m div 8)" by simp
    ultimately show ?thesis unfolding n
      by (auto simp: bit_or_iff bit_push_bit_iff bit_ucast_iff Cons.IH)
  qed
qed

lemma of_le_bytes_le_bytes [simp]:
  assumes "8 dvd LENGTH('a::len)"
  shows "of_le_bytes (le_bytes w) = (w :: 'a word)"
proof (rule bit_word_eqI)
  fix n assume n: "n < LENGTH('a)"
  then have "n div 8 < LENGTH('a) div 8" using assms by (auto simp: dvd_def)
  then show "bit (of_le_bytes (le_bytes w) :: 'a word) n = bit w n"
    using n by (simp add: bit_of_le_bytes le_bytes_def bit_ucast_iff bit_drop_bit_eq)
qed

lemma le_bytes_of_le_bytes:
  assumes "length bs = LENGTH('a::len) div 8"
  shows "le_bytes (of_le_bytes bs :: 'a word) = bs"
proof (rule nth_equalityI)
  fix i assume "i < length (le_bytes (of_le_bytes bs :: 'a word))"
  then have i: "i < LENGTH('a) div 8" by simp
  show "le_bytes (of_le_bytes bs :: 'a word) ! i = bs ! i"
  proof (rule bit_word_eqI)
    fix n assume n: "n < LENGTH(8)"
    have "8 * i + 8 \<le> LENGTH('a)" using i by linarith
    then show "bit (le_bytes (of_le_bytes bs :: 'a word) ! i) n = bit (bs ! i) n"
      using n i assms by (simp add: le_bytes_def bit_ucast_iff bit_drop_bit_eq bit_of_le_bytes)
  qed
qed (simp add: assms)

lemma of_be_bytes_be_bytes [simp]:
  "8 dvd LENGTH('a::len) \<Longrightarrow> of_be_bytes (be_bytes w) = (w :: 'a word)"
  by (simp add: of_be_bytes_def be_bytes_def)

lemma be_bytes_of_be_bytes:
  "length bs = LENGTH('a::len) div 8 \<Longrightarrow> be_bytes (of_be_bytes bs :: 'a word) = bs"
  by (simp add: of_be_bytes_def be_bytes_def le_bytes_of_le_bytes)

lemma le_bytes_u8: "le_bytes (b :: u8) = [b]"
  by (simp add: le_bytes_def)

lemma of_le_bytes_u8 [simp]: "of_le_bytes [b] = (b :: u8)"
  by simp

lemma unat_of_nat_small: "n < 2 ^ LENGTH('a) \<Longrightarrow> unat (of_nat n :: 'a::len word) = n"
  by (simp add: unsigned_of_nat take_bit_nat_eq_self)

lemma of_nat_word_eq_small:
  assumes "a < 2 ^ LENGTH('a)" "b < 2 ^ LENGTH('a)"
  shows "(of_nat a :: 'a::len word) = of_nat b \<longleftrightarrow> a = b"
  using unat_of_nat_small[OF assms(1)] unat_of_nat_small[OF assms(2)] by metis

lemma unat_plus_one: "unat (w :: 'a::len word) + 1 < 2 ^ LENGTH('a) \<Longrightarrow> unat (w + 1) = unat w + 1"
  by (simp add: unat_word_ariths)

lemma div_mod_64:
  fixes i j :: nat
  assumes "j < 64"
  shows "(64 * i + j) div 64 = i" and "(64 * i + j) mod 64 = j"
  using assms by simp_all

section \<open>Lemmas on slices and chunks\<close>

lemma slice_append_left [byte_simps]:
  "length pre = a \<Longrightarrow> length mid = b - a \<Longrightarrow> slice a b (pre @ mid @ post) = mid"
  by (simp add: slice_def)

lemma length_slice [simp]: "b \<le> length xs \<Longrightarrow> length (slice a b xs) = b - a"
  by (simp add: slice_def)

lemma slice_0 [simp]: "slice 0 b xs = take b xs"
  by (simp add: slice_def)

lemma slice_append_slice:
  assumes "a \<le> b" "b \<le> c"
  shows "slice a b xs @ slice b c xs = slice a c xs"
proof -
  have "c - a = (b - a) + (c - b)" using assms by simp
  then have "slice a c xs = take (b - a) (drop a xs) @ take (c - b) (drop (b - a) (drop a xs))"
    by (simp only: slice_def take_add)
  then show ?thesis using assms by (simp add: slice_def)
qed

lemma slice_nth: "i < length xs \<Longrightarrow> slice i (Suc i) xs = [xs ! i]"
  by (simp add: slice_def take_Suc_conv_app_nth flip: Cons_nth_drop_Suc)

declare chunks.simps [simp del]

lemma chunks_Nil [simp]: "chunks n [] = []"
  by (simp add: chunks.simps)

lemma chunks_step: "0 < n \<Longrightarrow> xs \<noteq> [] \<Longrightarrow> chunks n xs = take n xs # chunks n (drop n xs)"
  by (subst chunks.simps) simp

lemma concat_chunks [simp]: "0 < n \<Longrightarrow> concat (chunks n xs) = xs"
proof (induction n xs rule: chunks.induct)
  case (1 n xs)
  then show ?case by (cases "xs = []") (simp_all add: chunks_step)
qed

lemma chunks_length: "c \<in> set (chunks n xs) \<Longrightarrow> 0 < length c \<and> length c \<le> n"
proof (induction n xs rule: chunks.induct)
  case (1 n xs)
  then show ?case by (cases "n = 0 \<or> xs = []") (auto simp: chunks.simps[of n xs])
qed

lemma length_chunks: "0 < n \<Longrightarrow> length (chunks n xs) = (length xs + n - 1) div n"
proof (induction n xs rule: chunks.induct)
  case (1 n xs)
  show ?case
  proof (cases "xs = []")
    case False
    then have eq: "length xs + n - 1 = (length xs - 1) + n" by (cases xs) auto
    have top: "(length xs + n - 1) div n = Suc ((length xs - 1) div n)"
      unfolding eq using 1(2) div_add_self2[of n "length xs - 1"] by simp
    have "length (chunks n (drop n xs)) = (length (drop n xs) + n - 1) div n"
      using False 1(2) by (intro 1(1)) auto
    then have "length (chunks n xs) = Suc ((length xs - n + n - 1) div n)"
      by (simp add: chunks_step[OF 1(2) False])
    also have "\<dots> = Suc ((length xs - 1) div n)"
      using False 1(2) by (cases "n \<le> length xs") (auto simp: not_le)
    finally show ?thesis using top by simp
  qed (use 1 in simp)
qed

section \<open>Interfaces for wire formats\<close>

text \<open>
  A format whose decoder looks at the front of a buffer and ignores what follows: the
  packet header and the SACK payload.
\<close>

locale prefix_codec =
  fixes enc :: "'a \<Rightarrow> bytes" and dec :: "bytes \<Rightarrow> 'a option" and valid :: "'a \<Rightarrow> bool"
  assumes dec_enc: "valid x \<Longrightarrow> dec (enc x @ rest) = Some x"
begin

lemma enc_inj:
  assumes "valid x" "valid y" "enc x @ r = enc y @ r'"
  shows "x = y"
  using dec_enc[OF assms(1), of r] dec_enc[OF assms(2), of r'] assms(3) by simp

lemma prefix_free: "valid x \<Longrightarrow> valid y \<Longrightarrow> enc x @ r = enc y @ r' \<Longrightarrow> r = r'"
  using enc_inj[of x y r r'] by auto

end

text \<open>
  A reader that takes a buffer and a cursor and returns the value and the new cursor, or
  an error: the readers of the block manifest.  \<open>read_many\<close> is the loop
  \<^verbatim>\<open>for _ in 0..count\<close> over such a reader that stops at the first error.
\<close>

fun read_many :: "(bytes \<Rightarrow> nat \<Rightarrow> 'e + 'a \<times> nat) \<Rightarrow> nat \<Rightarrow> bytes \<Rightarrow> nat \<Rightarrow> 'e + 'a list \<times> nat" where
  "read_many rd 0 buf pos = Inr ([], pos)"
| "read_many rd (Suc n) buf pos =
     (case rd buf pos of
        Inl e \<Rightarrow> Inl e
      | Inr (x, pos') \<Rightarrow>
          (case read_many rd n buf pos' of
             Inl e \<Rightarrow> Inl e
           | Inr (xs, pos'') \<Rightarrow> Inr (x # xs, pos'')))"

locale cursor_codec =
  fixes enc :: "'a \<Rightarrow> bytes" and rd :: "bytes \<Rightarrow> nat \<Rightarrow> 'e + 'a \<times> nat" and valid :: "'a \<Rightarrow> bool"
  assumes rd_enc: "valid x \<Longrightarrow>
    rd (pre @ enc x @ post) (length pre) = Inr (x, length pre + length (enc x))"
begin

lemma read_many_enc:
  assumes "\<forall>x \<in> set xs. valid x"
  shows "read_many rd (length xs) (pre @ concat (map enc xs) @ post) (length pre) =
         Inr (xs, length pre + length (concat (map enc xs)))"
  using assms
proof (induction xs arbitrary: pre)
  case (Cons x xs)
  have "rd (pre @ enc x @ (concat (map enc xs) @ post)) (length pre) =
        Inr (x, length pre + length (enc x))"
    using Cons.prems by (intro rd_enc) simp
  moreover have "read_many rd (length xs) ((pre @ enc x) @ concat (map enc xs) @ post)
      (length (pre @ enc x)) =
      Inr (xs, length (pre @ enc x) + length (concat (map enc xs)))"
    using Cons.prems by (intro Cons.IH) simp
  ultimately show ?case by simp
qed simp

end

end
