(* ===== verification/Packet.thy ===== *)
theory Packet
  imports Prelude
begin

text \<open>
  The wire header of the RUDP protocol (\<^verbatim>\<open>crates/protocol/src/packet.rs\<close>): the packed
  29-byte struct, its constructors, the flag testers, and the copy of the struct into and
  out of a datagram.  \<open>write_to\<close> and \<open>read_from\<close> copy the memory of the packed struct;
  the model is that of a little-endian host, where the copy is the little-endian encoding
  of the fields one after the other.
\<close>

definition SYN :: u8 where "SYN = 1"
definition FIN :: u8 where "FIN = 2"
definition DATA :: u8 where "DATA = 4"
definition ACK :: u8 where "ACK = 8"
definition NAK :: u8 where "NAK = 16"
definition PING :: u8 where "PING = 32"
definition PONG :: u8 where "PONG = 64"
definition FEC :: u8 where "FEC = 128"

lemmas flag_defs = SYN_def FIN_def DATA_def ACK_def NAK_def PING_def PONG_def FEC_def

record rudp_header =
  session_id :: u32
  sequence_number :: u64
  timestamp_us :: u64
  flags :: u8
  payload_len :: u16
  fec_group_id :: u32
  fec_index :: u8
  fec_group_size :: u8

definition HEADER_SIZE :: nat where
  "HEADER_SIZE = 29"

definition new_data :: "u32 \<Rightarrow> u64 \<Rightarrow> u64 \<Rightarrow> u16 \<Rightarrow> rudp_header" where
  "new_data sid seq ts_us plen =
     \<lparr>session_id = sid, sequence_number = seq, timestamp_us = ts_us, flags = DATA,
      payload_len = plen, fec_group_id = 0, fec_index = 0, fec_group_size = 0\<rparr>"

definition new_heartbeat_sack :: "u32 \<Rightarrow> u64 \<Rightarrow> u64 \<Rightarrow> u16 \<Rightarrow> rudp_header" where
  "new_heartbeat_sack sid seq ts_us plen =
     \<lparr>session_id = sid, sequence_number = seq, timestamp_us = ts_us, flags = NAK,
      payload_len = plen, fec_group_id = 0, fec_index = 0, fec_group_size = 0\<rparr>"

definition new_ping :: "u32 \<Rightarrow> u64 \<Rightarrow> u64 \<Rightarrow> rudp_header" where
  "new_ping sid seq ts_us =
     \<lparr>session_id = sid, sequence_number = seq, timestamp_us = ts_us, flags = PING,
      payload_len = 0, fec_group_id = 0, fec_index = 0, fec_group_size = 0\<rparr>"

definition new_pong :: "u32 \<Rightarrow> u64 \<Rightarrow> u64 \<Rightarrow> rudp_header" where
  "new_pong sid seq sender_ts_us =
     \<lparr>session_id = sid, sequence_number = seq, timestamp_us = sender_ts_us, flags = PONG,
      payload_len = 0, fec_group_id = 0, fec_index = 0, fec_group_size = 0\<rparr>"

definition new_syn :: "u32 \<Rightarrow> u64 \<Rightarrow> rudp_header" where
  "new_syn sid ts_us =
     \<lparr>session_id = sid, sequence_number = 0, timestamp_us = ts_us, flags = SYN,
      payload_len = 0, fec_group_id = 0, fec_index = 0, fec_group_size = 0\<rparr>"

definition new_fin :: "u32 \<Rightarrow> u64 \<Rightarrow> u64 \<Rightarrow> rudp_header" where
  "new_fin sid seq ts_us =
     \<lparr>session_id = sid, sequence_number = seq, timestamp_us = ts_us, flags = FIN,
      payload_len = 0, fec_group_id = 0, fec_index = 0, fec_group_size = 0\<rparr>"

lemmas header_constructors =
  new_data_def new_heartbeat_sack_def new_ping_def new_pong_def new_syn_def new_fin_def

definition is_syn :: "rudp_header \<Rightarrow> bool" where "is_syn h \<longleftrightarrow> flags h AND SYN \<noteq> 0"
definition is_fin :: "rudp_header \<Rightarrow> bool" where "is_fin h \<longleftrightarrow> flags h AND FIN \<noteq> 0"
definition is_data :: "rudp_header \<Rightarrow> bool" where "is_data h \<longleftrightarrow> flags h AND DATA \<noteq> 0"
definition is_ack :: "rudp_header \<Rightarrow> bool" where "is_ack h \<longleftrightarrow> flags h AND ACK \<noteq> 0"
definition is_nak :: "rudp_header \<Rightarrow> bool" where "is_nak h \<longleftrightarrow> flags h AND NAK \<noteq> 0"
definition is_ping :: "rudp_header \<Rightarrow> bool" where "is_ping h \<longleftrightarrow> flags h AND PING \<noteq> 0"
definition is_pong :: "rudp_header \<Rightarrow> bool" where "is_pong h \<longleftrightarrow> flags h AND PONG \<noteq> 0"
definition is_fec :: "rudp_header \<Rightarrow> bool" where "is_fec h \<longleftrightarrow> flags h AND FEC \<noteq> 0"

lemmas flag_tests =
  is_syn_def is_fin_def is_data_def is_ack_def is_nak_def is_ping_def is_pong_def is_fec_def

text \<open>The bytes of the packed struct.\<close>

definition header_bytes :: "rudp_header \<Rightarrow> bytes" where
  "header_bytes h =
     le_bytes (session_id h) @ le_bytes (sequence_number h) @ le_bytes (timestamp_us h) @
     [flags h] @ le_bytes (payload_len h) @ le_bytes (fec_group_id h) @ [fec_index h] @
     [fec_group_size h]"

definition write_to :: "rudp_header \<Rightarrow> bytes \<Rightarrow> bytes outcome" where
  "write_to h buf =
     (if length buf < HEADER_SIZE then Panic else Return (header_bytes h @ drop HEADER_SIZE buf))"

definition read_from :: "bytes \<Rightarrow> rudp_header option" where
  "read_from buf =
     (if length buf < HEADER_SIZE then None
      else Some \<lparr>session_id = of_le_bytes (slice 0 4 buf),
                 sequence_number = of_le_bytes (slice 4 12 buf),
                 timestamp_us = of_le_bytes (slice 12 20 buf),
                 flags = buf ! 20,
                 payload_len = of_le_bytes (slice 21 23 buf),
                 fec_group_id = of_le_bytes (slice 23 27 buf),
                 fec_index = buf ! 27,
                 fec_group_size = buf ! 28\<rparr>)"

section \<open>Layout and round trips\<close>

lemma length_header_bytes [simp]: "length (header_bytes h) = HEADER_SIZE"
  by (simp add: header_bytes_def HEADER_SIZE_def)

lemma read_from_header_bytes: "read_from (header_bytes h @ rest) = Some h"
  by (simp add: read_from_def header_bytes_def HEADER_SIZE_def slice_def nth_append)

text \<open>
  The accessors of the multi-byte fields: \<open>read_unaligned\<close> at the address of the field, that is, at
  its offset in the memory of the packed struct.
\<close>

definition get_session_id :: "rudp_header \<Rightarrow> u32" where
  "get_session_id h = of_le_bytes (slice 0 4 (header_bytes h))"

definition get_sequence_number :: "rudp_header \<Rightarrow> u64" where
  "get_sequence_number h = of_le_bytes (slice 4 12 (header_bytes h))"

definition get_timestamp_us :: "rudp_header \<Rightarrow> u64" where
  "get_timestamp_us h = of_le_bytes (slice 12 20 (header_bytes h))"

definition get_payload_len :: "rudp_header \<Rightarrow> u16" where
  "get_payload_len h = of_le_bytes (slice 21 23 (header_bytes h))"

definition get_fec_group_id :: "rudp_header \<Rightarrow> u32" where
  "get_fec_group_id h = of_le_bytes (slice 23 27 (header_bytes h))"

text \<open>They are the fields, so the other theories use the fields of the record.\<close>

lemma accessors_are_fields:
  "get_session_id h = session_id h" "get_sequence_number h = sequence_number h"
  "get_timestamp_us h = timestamp_us h" "get_payload_len h = payload_len h"
  "get_fec_group_id h = fec_group_id h"
  by (simp_all add: get_session_id_def get_sequence_number_def get_timestamp_us_def
      get_payload_len_def get_fec_group_id_def header_bytes_def slice_def)

text \<open>
  \<open>now_us\<close>: microseconds from the time since the epoch, \<open>None\<close> when the clock stands before it.  The
  readings are arguments of the definitions that take them.
\<close>

definition clock_us :: "duration option \<Rightarrow> u64" where
  "clock_us since_epoch = of_nat ((case since_epoch of Some d \<Rightarrow> d | None \<Rightarrow> 0) div 1000)"

interpretation hdr: prefix_codec header_bytes read_from "\<lambda>_. True"
  by unfold_locales (rule read_from_header_bytes)

lemma write_to_full [simp]: "write_to h (replicate HEADER_SIZE 0 @ rest) = Return (header_bytes h @ rest)"
  by (simp add: write_to_def)

text \<open>
  The datagram of a packet, as every sender of the program builds it: a zeroed buffer of
  header and payload size, \<open>write_to\<close>, and the payload copied behind the header.
\<close>

definition datagram :: "rudp_header \<Rightarrow> bytes \<Rightarrow> bytes" where
  "datagram h payload =
     (case write_to h (replicate (HEADER_SIZE + length payload) 0) of
        Return buf \<Rightarrow> take HEADER_SIZE buf @ payload
      | Panic \<Rightarrow> [])"

lemma datagram_eq [byte_simps]: "datagram h payload = header_bytes h @ payload"
  by (simp add: datagram_def write_to_def)

lemma header_bytes_read_from:
  assumes "read_from buf = Some h"
  shows "header_bytes h = take HEADER_SIZE buf"
proof -
  have len: "HEADER_SIZE \<le> length buf" using assms by (simp add: read_from_def split: if_splits)
  have one: "[buf ! i] = slice i (Suc i) buf" if "i < 29" for i
    using that len by (simp add: slice_nth HEADER_SIZE_def)
  have h: "h = \<lparr>session_id = of_le_bytes (slice 0 4 buf), sequence_number = of_le_bytes (slice 4 12 buf),
      timestamp_us = of_le_bytes (slice 12 20 buf), flags = buf ! 20,
      payload_len = of_le_bytes (slice 21 23 buf), fec_group_id = of_le_bytes (slice 23 27 buf),
      fec_index = buf ! 27, fec_group_size = buf ! 28\<rparr>"
    using assms len by (simp add: read_from_def)
  have "header_bytes h = slice 0 4 buf @ slice 4 12 buf @ slice 12 20 buf @ slice 20 21 buf @
      slice 21 23 buf @ slice 23 27 buf @ slice 27 28 buf @ slice 28 29 buf"
    using len by (simp add: h header_bytes_def le_bytes_of_le_bytes HEADER_SIZE_def one)
  also have "\<dots> = slice 0 HEADER_SIZE buf"
    by (simp add: slice_append_slice HEADER_SIZE_def del: slice_0)
  finally show ?thesis by simp
qed

lemma new_flags [simp]:
  "is_data (new_data a b c d)" "is_nak (new_heartbeat_sack a b c d)" "is_ping (new_ping a b c)"
  "is_pong (new_pong a b c)" "is_syn (new_syn a c)" "is_fin (new_fin a b c)"
  "\<not> is_data (new_heartbeat_sack a b c d)" "\<not> is_data (new_ping a b c)"
  "\<not> is_data (new_pong a b c)" "\<not> is_data (new_syn a c)" "\<not> is_data (new_fin a b c)"
  "\<not> is_ping (new_heartbeat_sack a b c d)" "\<not> is_ping (new_pong a b c)" "\<not> is_ping (new_syn a c)"
  "\<not> is_ping (new_fin a b c)" "\<not> is_pong (new_heartbeat_sack a b c d)" "\<not> is_pong (new_syn a c)"
  "\<not> is_pong (new_fin a b c)" "\<not> is_fin (new_heartbeat_sack a b c d)" "\<not> is_fin (new_syn a c)"
  by (simp_all add: header_constructors flag_tests flag_defs)

lemma new_fields [simp]:
  "session_id (new_data a b c d) = a" "sequence_number (new_data a b c d) = b"
  "payload_len (new_data a b c d) = d" "timestamp_us (new_data a b c d) = c"
  "session_id (new_fin a b c) = a" "session_id (new_ping a b c) = a"
  "sequence_number (new_ping a b c) = b" "timestamp_us (new_ping a b c) = c"
  "session_id (new_pong a b c) = a" "timestamp_us (new_pong a b c) = c"
  "sequence_number (new_pong a b c) = b" "session_id (new_heartbeat_sack a b c d) = a"
  "payload_len (new_heartbeat_sack a b c d) = d"
  by (simp_all add: header_constructors)

text \<open>
  C9: the header format is a bijection between headers and 29-byte strings.  \<open>write_to\<close>
  into a buffer of at least 29 bytes succeeds, keeps the rest of the buffer and is read back
  as the same header; a buffer parses exactly when it has 29 bytes, and writing the parsed
  header over the buffer changes nothing.
\<close>

theorem header_wire_bijection:
  "(if HEADER_SIZE \<le> length buf
    then \<exists>buf'. write_to h buf = Return buf' \<and> drop HEADER_SIZE buf' = drop HEADER_SIZE buf \<and>
                read_from buf' = Some h
    else write_to h buf = Panic) \<and>
   ((\<exists>h'. read_from buf = Some h' \<and> write_to h' buf = Return buf) = (HEADER_SIZE \<le> length buf))"
proof -
  have "\<exists>h'. read_from buf = Some h' \<and> write_to h' buf = Return buf" if len: "HEADER_SIZE \<le> length buf"
  proof -
    obtain h' where h': "read_from buf = Some h'" using len by (simp add: read_from_def)
    then show ?thesis using len header_bytes_read_from[OF h'] by (simp add: write_to_def)
  qed
  moreover have "HEADER_SIZE \<le> length buf" if "read_from buf = Some h'" for h'
    using that by (simp add: read_from_def split: if_splits)
  ultimately show ?thesis by (auto simp: write_to_def read_from_header_bytes)
qed

end
