(* ===== verification/F64.thy ===== *)
theory F64
  imports Complex_Main "HOL-Library.Log_Nat"
begin

text \<open>
  IEEE-754 binary64 arithmetic, as Rust's \<open>f64\<close> has it, on the finite values: an
  \<open>f64\<close> is the rational number it denotes, and every operation is the exact operation
  on rationals followed by rounding to the nearest representable number, ties to the even
  significand (53 significant bits, exponents not below \<open>-1074\<close>).  The development needs
  no infinities and no NaN: the only divisions are guarded against a zero divisor and the
  largest product (a rate times an elapsed time) stays below \<open>2 ^ 130\<close>.

  The lemmas give what the components use of the rounding: it is monotone, keeps the sign
  and is exact on integers up to \<open>2 ^ 53\<close>.
\<close>

type_synonym f64 = rat

named_theorems f64_ops

definition flog2 :: "rat \<Rightarrow> int" where
  "flog2 q =
     (let (a, b) = quotient_of q;
          k = int (floorlog 2 (nat a)) - int (floorlog 2 (nat b))
      in if 2 powi k \<le> q then k else k - 1)"

definition round_half_even :: "rat \<Rightarrow> int" where
  "round_half_even x =
     (let f = \<lfloor>x\<rfloor>; d = x - of_int f
      in if d < 1 / 2 then f else if 1 / 2 < d then f + 1 else if even f then f else f + 1)"

definition ulp_exp :: "rat \<Rightarrow> int" where
  "ulp_exp q = max (- 1074) (flog2 q - 52)"

definition rnd_pos :: "rat \<Rightarrow> rat" where
  "rnd_pos q = of_int (round_half_even (q / 2 powi ulp_exp q)) * 2 powi ulp_exp q"

definition rnd :: "rat \<Rightarrow> f64" where
  "rnd q = (if q = 0 then 0 else if 0 < q then rnd_pos q else - rnd_pos (- q))"

definition f64_of_nat :: "nat \<Rightarrow> f64" where
  "f64_of_nat n = rnd (of_nat n)"

definition f64_add :: "f64 \<Rightarrow> f64 \<Rightarrow> f64" where
  [f64_ops]: "f64_add x y = rnd (x + y)"

definition f64_sub :: "f64 \<Rightarrow> f64 \<Rightarrow> f64" where
  [f64_ops]: "f64_sub x y = rnd (x - y)"

definition f64_mul :: "f64 \<Rightarrow> f64 \<Rightarrow> f64" where
  [f64_ops]: "f64_mul x y = rnd (x * y)"

definition f64_div :: "f64 \<Rightarrow> f64 \<Rightarrow> f64" where
  [f64_ops]: "f64_div x y = rnd (x / y)"

subsection \<open>The binary exponent\<close>

lemma floorlog_powi:
  assumes "0 < a"
  shows "(2 :: rat) powi (int (floorlog 2 (nat a)) - 1) \<le> of_int a"
    and "of_int a < (2 :: rat) powi int (floorlog 2 (nat a))"
proof -
  define n where "n = floorlog 2 (nat a)"
  have n: "2 ^ (n - 1) \<le> nat a" "nat a < 2 ^ n" "0 < n"
    using floorlog_bounds[of "nat a" 2] assms by (auto simp: n_def floorlog_def)
  have "(of_nat (2 ^ (n - 1)) :: rat) \<le> of_nat (nat a)" "(of_nat (nat a) :: rat) < of_nat (2 ^ n)"
    using n(1,2) by (simp_all only: of_nat_le_iff of_nat_less_iff)
  then show "(2 :: rat) powi (int (floorlog 2 (nat a)) - 1) \<le> of_int a"
    and "of_int a < (2 :: rat) powi int (floorlog 2 (nat a))"
    unfolding n_def[symmetric] using assms n(3)
    by (simp_all add: power_int_def nat_diff_distrib of_nat_diff)
qed

lemma flog2_bounds:
  assumes "0 < q"
  shows "2 powi flog2 q \<le> q" and "q < 2 powi (flog2 q + 1)"
proof -
  obtain a b where ab: "quotient_of q = (a, b)" by (cases "quotient_of q")
  have b: "0 < b" using ab by (simp add: quotient_of_denom_pos)
  have q: "q = of_int a / of_int b" using ab by (rule quotient_of_div)
  have a: "0 < a" using assms b unfolding q by (simp add: zero_less_divide_iff)
  define fa where "fa = floorlog 2 (nat a)"
  define fb where "fb = floorlog 2 (nat b)"
  define k where "k = int fa - int fb"
  note A = floorlog_powi[OF a, folded fa_def] and B = floorlog_powi[OF b, folded fb_def]
  have up: "q < 2 powi (k + 1)"
  proof -
    have "q < 2 powi int fa / 2 powi (int fb - 1)"
      unfolding q using A B a b by (intro frac_less) (simp_all add: less_imp_le)
    also have "\<dots> = 2 powi (k + 1)" by (simp add: k_def power_int_diff power_int_add)
    finally show ?thesis .
  qed
  have low: "2 powi (k - 1) \<le> q"
  proof -
    have "2 powi (k - 1) = (2 :: rat) powi (int fa - 1) / 2 powi int fb"
      by (simp add: k_def power_int_diff)
    also have "\<dots> \<le> q" unfolding q using A B a b by (intro frac_le) (simp_all add: less_imp_le)
    finally show ?thesis .
  qed
  have fq: "flog2 q = (if 2 powi k \<le> q then k else k - 1)"
    by (simp add: flog2_def ab k_def fa_def fb_def)
  show "2 powi flog2 q \<le> q" using low by (simp add: fq)
  show "q < 2 powi (flog2 q + 1)" using up by (simp add: fq)
qed

lemma powi_two_less_imp: "(2 :: rat) powi a < 2 powi b \<Longrightarrow> a < b"
  using power_int_increasing[of b a "2 :: rat"] by (cases "a < b") auto

lemma flog2_mono:
  assumes "0 < q" "q \<le> q'"
  shows "flog2 q \<le> flog2 q'"
proof -
  have "(2 :: rat) powi flog2 q < 2 powi (flog2 q' + 1)"
    using flog2_bounds(1)[of q] flog2_bounds(2)[of q'] assms by linarith
  then have "flog2 q < flog2 q' + 1" by (rule powi_two_less_imp)
  then show ?thesis by simp
qed

lemma powi_two_of_int: "0 \<le> k \<Longrightarrow> (2 :: rat) powi k = of_int (2 ^ nat k)"
  by (simp add: power_int_def)

subsection \<open>Rounding to an integer\<close>

lemma round_half_even_of_int [simp]: "round_half_even (of_int n) = n"
  by (simp add: round_half_even_def)

lemma round_half_even_mono:
  assumes "x \<le> y"
  shows "round_half_even x \<le> round_half_even y"
proof (cases "\<lfloor>x\<rfloor> = \<lfloor>y\<rfloor>")
  case True
  then show ?thesis using assms by (auto simp: round_half_even_def Let_def)
next
  case False
  then have "\<lfloor>x\<rfloor> + 1 \<le> \<lfloor>y\<rfloor>" using floor_mono[OF assms] by linarith
  moreover have "round_half_even x \<le> \<lfloor>x\<rfloor> + 1" "\<lfloor>y\<rfloor> \<le> round_half_even y"
    by (auto simp: round_half_even_def Let_def)
  ultimately show ?thesis by linarith
qed

lemma round_half_even_le: "x \<le> of_int n \<Longrightarrow> round_half_even x \<le> n"
  using round_half_even_mono[of x "of_int n"] by simp

lemma round_half_even_ge: "of_int n \<le> x \<Longrightarrow> n \<le> round_half_even x"
  using round_half_even_mono[of "of_int n" x] by simp

subsection \<open>Rounding to a double\<close>

lemma rnd_pos_nonneg: "0 < q \<Longrightarrow> 0 \<le> rnd_pos q"
  using round_half_even_ge[of 0 "q / 2 powi ulp_exp q"] by (simp add: rnd_pos_def)

lemma rnd_pos_mono:
  assumes "0 < q" "q \<le> q'"
  shows "rnd_pos q \<le> rnd_pos q'"
proof (cases "ulp_exp q = ulp_exp q'")
  case True
  have "q / 2 powi ulp_exp q' \<le> q' / 2 powi ulp_exp q'"
    using assms by (intro divide_right_mono) auto
  then have "round_half_even (q / 2 powi ulp_exp q') \<le> round_half_even (q' / 2 powi ulp_exp q')"
    by (rule round_half_even_mono)
  then show ?thesis unfolding rnd_pos_def True by simp
next
  case False
  define e e' f' where "e = ulp_exp q" and "e' = ulp_exp q'" and "f' = flog2 q'"
  have e: "e < e'" and e': "e' = f' - 52" and f: "flog2 q + 1 \<le> f'" and f'e: "0 \<le> f' - e"
    using False flog2_mono[OF assms] by (auto simp: ulp_exp_def e_def e'_def f'_def)
  have "q \<le> 2 powi f'"
  proof -
    have "q < 2 powi (flog2 q + 1)" using assms(1) by (rule flog2_bounds)
    also have "(2 :: rat) powi (flog2 q + 1) \<le> 2 powi f'" using f by (intro power_int_increasing) auto
    finally show ?thesis by simp
  qed
  then have "q / 2 powi e \<le> 2 powi (f' - e)" by (simp add: power_int_diff divide_right_mono)
  also have "(2 :: rat) powi (f' - e) = of_int (2 ^ nat (f' - e))" using f'e by (rule powi_two_of_int)
  finally have "round_half_even (q / 2 powi e) \<le> 2 ^ nat (f' - e)" by (rule round_half_even_le)
  then have "(of_int (round_half_even (q / 2 powi e)) :: rat) \<le> of_int (2 ^ nat (f' - e))"
    by (simp only: of_int_le_iff)
  then have "of_int (round_half_even (q / 2 powi e)) * 2 powi e \<le> 2 powi (f' - e) * (2 :: rat) powi e"
    using f'e by (intro mult_right_mono) (simp_all add: powi_two_of_int)
  then have lo: "rnd_pos q \<le> 2 powi f'"
    by (simp add: rnd_pos_def e_def[symmetric] flip: power_int_add)
  have "2 powi f' \<le> q'" using assms unfolding f'_def by (intro flog2_bounds) simp
  then have "2 powi f' / 2 powi e' \<le> q' / 2 powi e'" by (intro divide_right_mono) auto
  then have "of_int (2 ^ 52) \<le> q' / 2 powi e'"
    using e' by (simp flip: power_int_diff)
  then have "2 ^ 52 \<le> round_half_even (q' / 2 powi e')" by (rule round_half_even_ge)
  then have "(of_int (2 ^ 52) :: rat) \<le> of_int (round_half_even (q' / 2 powi e'))"
    by (simp only: of_int_le_iff)
  then have "(2 :: rat) powi 52 * 2 powi e' \<le> rnd_pos q'"
    unfolding rnd_pos_def e'_def[symmetric] by (intro mult_right_mono) simp_all
  moreover have "(2 :: rat) powi 52 * 2 powi e' = 2 powi (52 + e')"
    by (rule power_int_add[symmetric]) simp
  ultimately have "2 powi f' \<le> rnd_pos q'" using e' by simp
  with lo show ?thesis by simp
qed

lemma rnd_zero [simp]: "rnd 0 = 0"
  by (simp add: rnd_def)

lemma rnd_nonneg: "0 \<le> q \<Longrightarrow> 0 \<le> rnd q"
  by (auto simp: rnd_def rnd_pos_nonneg)

lemma rnd_mono:
  assumes "q \<le> q'"
  shows "rnd q \<le> rnd q'"
proof -
  consider "0 < q" | "q \<le> 0" "0 \<le> q'" | "q' < 0" by linarith
  then show ?thesis
  proof cases
    case 1
    then show ?thesis using assms rnd_pos_mono[of q q'] by (simp add: rnd_def)
  next
    case 2
    then have "rnd q \<le> 0" using rnd_pos_nonneg[of "- q"] by (auto simp: rnd_def)
    with rnd_nonneg[OF 2(2)] show ?thesis by simp
  next
    case 3
    then show ?thesis using assms rnd_pos_mono[of "- q'" "- q"] by (simp add: rnd_def)
  qed
qed

subsection \<open>Representable numbers\<close>

definition representable :: "rat \<Rightarrow> bool" where
  "representable x \<longleftrightarrow>
     (\<exists>m e. x = of_int m * 2 powi e \<and> 0 \<le> m \<and> m \<le> 2 ^ 53 \<and> - 1074 \<le> e)"

lemma rnd_pos_representable:
  assumes "0 < q"
  shows "representable (rnd_pos q)"
proof -
  define e m where "e = ulp_exp q" and "m = round_half_even (q / 2 powi e)"
  have "q \<le> 2 powi (e + 53)"
  proof -
    have "q < 2 powi (flog2 q + 1)" using assms by (rule flog2_bounds)
    also have "(2 :: rat) powi (flog2 q + 1) \<le> 2 powi (e + 53)"
      by (intro power_int_increasing) (auto simp: e_def ulp_exp_def)
    finally show ?thesis by simp
  qed
  then have "q / 2 powi e \<le> of_int (2 ^ 53)" by (simp add: power_int_add divide_le_eq mult.commute)
  then have "m \<le> 2 ^ 53" unfolding m_def by (rule round_half_even_le)
  moreover have "0 \<le> m" unfolding m_def using assms by (intro round_half_even_ge) simp
  moreover have "- 1074 \<le> e" by (simp add: e_def ulp_exp_def)
  ultimately show ?thesis unfolding representable_def rnd_pos_def e_def m_def by blast
qed

lemma representable_zero [simp]: "representable 0"
  unfolding representable_def by (intro exI[of _ 0] exI[of _ 0]) simp

lemma representable_rnd: "0 \<le> q \<Longrightarrow> representable (rnd q)"
  by (auto simp: rnd_def rnd_pos_representable)

lemma rnd_exact:
  assumes "representable x"
  shows "rnd x = x"
proof (cases "x = 0")
  case False
  from assms obtain m e where x: "x = of_int m * 2 powi e" and m: "0 \<le> m" "m \<le> 2 ^ 53"
    and e: "- 1074 \<le> e"
    unfolding representable_def by blast
  have pos: "0 < x" using False m unfolding x by (simp add: zero_less_mult_iff)
  define E where "E = ulp_exp x"
  have "x / 2 powi E \<in> \<int>"
  proof (cases "E \<le> e")
    case True
    have "x / 2 powi E = of_int m * 2 powi (e - E)" by (simp add: x power_int_diff)
    also have "\<dots> = of_int (m * 2 ^ nat (e - E))" using True by (simp add: powi_two_of_int)
    finally show ?thesis by (metis Ints_of_int)
  next
    case False
    then have E: "E = flog2 x - 52" and ge: "e + 53 \<le> flog2 x" using e by (auto simp: E_def ulp_exp_def)
    have "(of_int m :: rat) \<le> of_int (2 ^ 53)" using m(2) by (simp only: of_int_le_iff)
    then have up: "x \<le> 2 powi (53 + e)" unfolding x power_int_add by (simp add: power_int_add)
    have "(2 :: rat) powi (e + 53) \<le> 2 powi flog2 x" using ge by (intro power_int_increasing) auto
    then have "x = 2 powi flog2 x"
      using flog2_bounds(1)[OF pos] up by (simp add: add.commute)
    then have "x / 2 powi E = 2 powi (flog2 x - E)" by (metis power_int_diff zero_neq_numeral)
    also have "\<dots> = of_int (2 ^ 52)" by (simp add: E)
    finally show ?thesis by (metis Ints_of_int)
  qed
  then obtain k where k: "x / 2 powi E = of_int k" by (auto elim: Ints_cases)
  then have "of_int k * 2 powi E = x" by (simp add: divide_eq_eq)
  then have "rnd_pos x = x" by (simp add: rnd_pos_def E_def[symmetric] k)
  then show ?thesis using pos by (simp add: rnd_def)
qed simp

lemma representableI: "x = of_int m * 2 powi e \<Longrightarrow> 0 \<le> m \<Longrightarrow> m \<le> 2 ^ 53 \<Longrightarrow> - 1074 \<le> e \<Longrightarrow> representable x"
  unfolding representable_def by blast

lemma representable_of_nat: "n \<le> 2 ^ 53 \<Longrightarrow> representable (of_nat n)"
  unfolding representable_def by (intro exI[of _ "int n"] exI[of _ 0]) auto

lemma rnd_of_nat [simp]: "n \<le> 2 ^ 53 \<Longrightarrow> rnd (of_nat n) = of_nat n"
  by (simp add: representable_of_nat rnd_exact)

text \<open>
  Taking an integer off a representable number that is at least as large and below
  \<open>2 ^ 53\<close> is exact: the difference is a multiple of the same power of two and smaller.
\<close>

lemma representable_diff:
  assumes x: "representable x" "x \<le> 2 ^ 53" and "of_nat n \<le> x"
  shows "representable (x - of_nat n)"
proof -
  from x(1) obtain m e where me: "x = of_int m * 2 powi e" "0 \<le> m" "m \<le> 2 ^ 53" "- 1074 \<le> e"
    unfolding representable_def by blast
  show ?thesis
  proof (cases "e \<le> 0")
    case True
    define k where "k = int n * 2 ^ nat (- e)"
    have k: "of_nat n = of_int k * (2 :: rat) powi e"
      using True by (simp add: k_def power_int_def field_simps)
    have "x - of_nat n = of_int (m - k) * 2 powi e" unfolding k me(1) by (simp add: algebra_simps)
    moreover have "k \<le> m"
    proof -
      have "(of_int k :: rat) * 2 powi e \<le> of_int m * 2 powi e" using assms(3) unfolding k me(1) .
      then show ?thesis by simp
    qed
    moreover have "0 \<le> k" by (simp add: k_def)
    ultimately show ?thesis unfolding representable_def using me
      by (intro exI[of _ "m - k"] exI[of _ e]) auto
  next
    case False
    then have "x - of_nat n = of_int (m * 2 ^ nat e - int n)" by (simp add: me(1) powi_two_of_int)
    moreover from this have "0 \<le> m * 2 ^ nat e - int n \<and> m * 2 ^ nat e - int n \<le> 2 ^ 53"
    proof -
      have "(0 :: rat) \<le> of_int (m * 2 ^ nat e - int n)"
        "(of_int (m * 2 ^ nat e - int n) :: rat) \<le> of_int (2 ^ 53)"
        unfolding calculation[symmetric] using assms by simp_all
      then show ?thesis by (simp only: of_int_0_le_iff of_int_le_iff)
    qed
    ultimately show ?thesis unfolding representable_def
      by (intro exI[of _ "m * 2 ^ nat e - int n"] exI[of _ 0]) simp
  qed
qed

lemma rnd_numeral [simp]: "numeral k \<le> (2 ^ 53 :: nat) \<Longrightarrow> rnd (numeral k) = numeral k"
  using rnd_of_nat[of "numeral k"] by simp

lemma rnd_one [simp]: "rnd 1 = 1"
  using rnd_of_nat[of 1] by simp

lemma rnd_le_of_nat: "q \<le> of_nat n \<Longrightarrow> n \<le> 2 ^ 53 \<Longrightarrow> rnd q \<le> of_nat n"
  using rnd_mono[of q "of_nat n"] by simp

lemma rnd_le_one: "q \<le> 1 \<Longrightarrow> rnd q \<le> 1"
  using rnd_mono[of q 1] by simp

lemma f64_of_nat_nonneg [simp]: "0 \<le> f64_of_nat n"
  by (simp add: f64_of_nat_def rnd_nonneg)

lemma f64_of_nat_exact [simp]: "n \<le> 2 ^ 53 \<Longrightarrow> f64_of_nat n = of_nat n"
  by (simp add: f64_of_nat_def)

lemma f64_of_nat_mono: "m \<le> n \<Longrightarrow> f64_of_nat m \<le> f64_of_nat n"
  by (simp add: f64_of_nat_def rnd_mono)

lemma f64_of_nat_pos: "0 < n \<Longrightarrow> 0 < f64_of_nat n"
  using f64_of_nat_mono[of 1 n] by simp

lemma f64_of_nat_eq_0_iff [simp]: "f64_of_nat n = 0 \<longleftrightarrow> n = 0"
  using f64_of_nat_pos[of n] by (cases "n = 0") auto


subsection \<open>Evaluating a rounding\<close>

text \<open>
  A literal or a closed expression is rounded by a certificate: its binary exponent \<open>f\<close>
  and its 53-bit significand \<open>m\<close>.
\<close>

lemma flog2_eqI:
  assumes "2 powi f \<le> q" "q < 2 powi (f + 1)"
  shows "flog2 q = f"
proof -
  have "(0 :: rat) < 2 powi f" by simp
  with assms(1) have q: "0 < q" by linarith
  have "(2 :: rat) powi flog2 q < 2 powi (f + 1)" "(2 :: rat) powi f < 2 powi (flog2 q + 1)"
    using flog2_bounds[OF q] assms by linarith+
  then show ?thesis by (auto dest!: powi_two_less_imp)
qed

lemma round_half_even_eqI:
  assumes "of_int m - 1 / 2 < x" "x < of_int m + 1 / 2"
  shows "round_half_even x = m"
proof -
  have "\<lfloor>x\<rfloor> = m \<or> \<lfloor>x\<rfloor> = m - 1"
    using assms by (simp add: floor_eq_iff) linarith
  then show ?thesis using assms by (auto simp: round_half_even_def Let_def)
qed

lemma rnd_eqI:
  assumes "2 powi f \<le> q" "q < 2 powi (f + 1)" "- 1022 \<le> f"
    "of_int m - 1 / 2 < q * 2 powi (52 - f)" "q * 2 powi (52 - f) < of_int m + 1 / 2"
  shows "rnd q = of_int m * 2 powi (f - 52)"
proof -
  have "(0 :: rat) < 2 powi f" by simp
  with assms(1) have q: "0 < q" by linarith
  have e: "ulp_exp q = f - 52" using flog2_eqI[OF assms(1,2)] assms(3) by (simp add: ulp_exp_def)
  have "q / 2 powi (f - 52) = q * 2 powi (52 - f)"
    by (simp add: power_int_diff)
  then have "round_half_even (q / 2 powi (f - 52)) = m"
    using round_half_even_eqI[OF assms(4,5)] by simp
  with q e show ?thesis by (simp add: rnd_def rnd_pos_def)
qed

text \<open>The quotient of two counters, the first not larger, lies in the unit interval.\<close>

lemma f64_ratio_bounds:
  assumes "m \<le> n"
  shows "0 \<le> f64_div (f64_of_nat m) (f64_of_nat n)" and "f64_div (f64_of_nat m) (f64_of_nat n) \<le> 1"
  using f64_of_nat_mono[OF assms] f64_of_nat_pos[of n]
  by (auto simp: f64_div_def divide_le_eq_1 intro!: rnd_nonneg rnd_le_one)

text \<open>
  An exponential moving average \<open>w1 * x + w2 * y\<close> with weights that round to 1 stays in
  the unit interval, for all the intermediate roundings.
\<close>

lemma f64_ema_bounds:
  assumes w: "0 \<le> w1" "0 \<le> w2" "representable w1" "representable w2" "rnd (w1 + w2) = 1"
    and x: "0 \<le> x" "x \<le> 1" and y: "0 \<le> y" "y \<le> 1"
  shows "0 \<le> f64_add (f64_mul w1 x) (f64_mul w2 y)"
    and "f64_add (f64_mul w1 x) (f64_mul w2 y) \<le> 1"
proof -
  have 1: "rnd (w1 * x) \<le> w1" "rnd (w2 * y) \<le> w2"
    using rnd_mono[of "w1 * x" w1] rnd_mono[of "w2 * y" w2] w x y
    by (simp_all add: rnd_exact mult_left_le)
  show "0 \<le> f64_add (f64_mul w1 x) (f64_mul w2 y)"
    using w x y by (simp add: f64_ops rnd_nonneg)
  show "f64_add (f64_mul w1 x) (f64_mul w2 y) \<le> 1"
    using rnd_mono[of "rnd (w1 * x) + rnd (w2 * y)" "w1 + w2"] 1 w(5) by (simp add: f64_ops)
qed

end
