(* ===== verification/Sack.thy ===== *)
theory Sack
  imports Packet F64
begin

text \<open>
  The selective-acknowledgement bitmap and its manager (\<^verbatim>\<open>crates/protocol/src/sack.rs\<close>).
\<close>

definition SACK_WORDS :: nat where
  "SACK_WORDS = 16"

definition SACK_WINDOW :: u64 where
  "SACK_WINDOW = 1024"

record sack_payload =
  base_seq :: u64
  word_count :: u8
  words :: "u64 list"

definition sack_default :: sack_payload where
  "sack_default = \<lparr>base_seq = 0, word_count = 0, words = replicate SACK_WORDS 0\<rparr>"

definition wire_size :: "sack_payload \<Rightarrow> nat" where
  "wire_size p = 8 + 1 + unat (word_count p) * 8"

definition mark_received :: "sack_payload \<Rightarrow> u64 \<Rightarrow> sack_payload" where
  "mark_received p seq =
     (if seq < base_seq p then p
      else let offset = seq - base_seq p in
        if SACK_WINDOW \<le> offset then p
        else let word_idx = unat (offset div 64); bit_idx = unat (offset mod 64);
                 p' = p\<lparr>words := (words p)[word_idx := words p ! word_idx OR push_bit bit_idx 1]\<rparr>
             in if unat (word_count p) < word_idx + 1
                then p'\<lparr>word_count := of_nat (word_idx + 1)\<rparr> else p')"

definition is_received :: "sack_payload \<Rightarrow> u64 \<Rightarrow> bool" where
  "is_received p seq =
     (if seq < base_seq p then True
      else let offset = seq - base_seq p in
        if SACK_WINDOW \<le> offset then False
        else let word_idx = unat (offset div 64); bit_idx = unat (offset mod 64)
             in drop_bit bit_idx (words p ! word_idx) AND 1 = 1)"

text \<open>
  The loop over the words from the last to the first: each word is shifted right and takes
  the bits its successor lost.
\<close>

fun shift_right_carry :: "nat \<Rightarrow> u64 \<Rightarrow> u64 list \<Rightarrow> u64 list" where
  "shift_right_carry bit_shift carry [] = []"
| "shift_right_carry bit_shift carry (w # ws) =
     (drop_bit bit_shift w OR carry) # shift_right_carry bit_shift (push_bit (64 - bit_shift) w) ws"

fun trim_word_count :: "u64 list \<Rightarrow> nat \<Rightarrow> nat" where
  "trim_word_count ws 0 = 0"
| "trim_word_count ws (Suc n) = (if ws ! n = 0 then trim_word_count ws n else Suc n)"

definition advance_base :: "sack_payload \<Rightarrow> u64 \<Rightarrow> sack_payload" where
  "advance_base p new_base =
     (if new_base \<le> base_seq p then p
      else let shift = unat (new_base - base_seq p) in
        if unat SACK_WINDOW \<le> shift
        then p\<lparr>words := replicate SACK_WORDS 0, word_count := 0, base_seq := new_base\<rparr>
        else let word_shift = shift div 64; bit_shift = shift mod 64;
                 copied = drop word_shift (words p) @ drop (SACK_WORDS - word_shift) (words p);
                 ws1 = (if 0 < word_shift
                        then take (SACK_WORDS - word_shift) copied @ replicate word_shift 0
                        else words p);
                 ws2 = (if 0 < bit_shift then rev (shift_right_carry bit_shift 0 (rev ws1)) else ws1)
             in p\<lparr>words := ws2, word_count := of_nat (trim_word_count ws2 SACK_WORDS),
                  base_seq := new_base\<rparr>)"

definition missing_seqs :: "sack_payload \<Rightarrow> u64 list" where
  "missing_seqs p =
     List.map_filter
       (\<lambda>offset. let received = drop_bit (offset mod 64) (words p ! (offset div 64)) AND 1 = 1
                 in if received then None else Some (base_seq p + of_nat offset))
       [0..<unat SACK_WINDOW]"

definition serialise :: "sack_payload \<Rightarrow> bytes \<Rightarrow> bytes outcome" where
  "serialise p buf =
     (if unat (word_count p) \<le> length (words p)
      then Return (buf @ le_bytes (base_seq p) @ [word_count p] @
                   concat (map le_bytes (take (unat (word_count p)) (words p))))
      else Panic)"

text \<open>
  The word loop of \<open>deserialise\<close> writes \<open>words[i]\<close> for \<open>i < word_count\<close> into an array
  of 16: a larger count is an out-of-bounds write, a panic.
\<close>

fun read_words :: "bytes \<Rightarrow> nat \<Rightarrow> nat \<Rightarrow> u64 list \<Rightarrow> u64 list outcome" where
  "read_words dat 0 i ws = Return ws"
| "read_words dat (Suc n) i ws =
     (let start = 9 + i * 8; w = of_le_bytes (slice start (start + 8) dat)
      in if i < length ws then read_words dat n (Suc i) (ws[i := w]) else Panic)"

definition deserialise :: "bytes \<Rightarrow> (sack_payload \<times> nat) option outcome" where
  "deserialise dat =
     (if length dat < 9 then Return None
      else let base = of_le_bytes (slice 0 8 dat); wc = dat ! 8; needed = 9 + unat wc * 8 in
        if length dat < needed then Return None
        else case read_words dat (unat wc) 0 (replicate SACK_WORDS 0) of
               Panic \<Rightarrow> Panic
             | Return ws \<Rightarrow> Return (Some (\<lparr>base_seq = base, word_count = wc, words = ws\<rparr>, needed)))"


section \<open>The manager\<close>

record sack_manager =
  payload :: sack_payload
  packets_since_last_sack :: u64
  expected_since_last_sack :: u64
  heartbeat_interval :: duration
  next_expected_seq :: u64
  loss_ema :: f64

definition manager_new :: "u64 \<Rightarrow> sack_manager" where
  "manager_new initial_seq =
     \<lparr>payload = sack_default\<lparr>base_seq := initial_seq\<rparr>, packets_since_last_sack = 0,
      expected_since_last_sack = 0, heartbeat_interval = from_millis 5,
      next_expected_seq = initial_seq, loss_ema = 0\<rparr>"

text \<open>
  The loop \<^verbatim>\<open>while is_received(new_base) { new_base += 1 }\<close>.  The increment wraps, so the
  loop can run forever: \<open>None\<close> is the run that never ends.
\<close>

partial_function (option) scan_base :: "(u64 \<Rightarrow> bool) \<Rightarrow> u64 \<Rightarrow> u64 option" where
  "scan_base received new_base =
     (if received new_base then scan_base received (new_base + 1) else Some new_base)"

definition on_packet_received :: "sack_manager \<Rightarrow> u64 \<Rightarrow> sack_manager option" where
  "on_packet_received m seq =
     (let m1 = (if next_expected_seq m \<le> seq
                then m\<lparr>expected_since_last_sack := expected_since_last_sack m + (seq - next_expected_seq m + 1),
                       next_expected_seq := seq + 1\<rparr>
                else m);
          m2 = m1\<lparr>packets_since_last_sack := packets_since_last_sack m1 + 1,
                  payload := mark_received (payload m1) seq\<rparr>
      in case scan_base (is_received (payload m2)) (base_seq (payload m2)) of
           None \<Rightarrow> None
         | Some new_base \<Rightarrow>
             Some (if base_seq (payload m2) < new_base
                   then m2\<lparr>payload := advance_base (payload m2) new_base\<rparr> else m2))"

definition interval_loss :: "nat \<Rightarrow> nat \<Rightarrow> f64" where
  "interval_loss received expected =
     (if expected \<le> received then 0
      else f64_div (f64_of_nat (expected - received)) (f64_of_nat expected))"

definition interval_for_loss :: "f64 \<Rightarrow> duration" where
  "interval_for_loss ema =
     (if rnd (1 / 5) < ema then from_millis 1
      else if rnd (1 / 10) < ema then from_millis 3 else from_millis 5)"

text \<open>\<open>tick\<close> returns a reference to the payload: the payload and the updated manager.\<close>

definition tick :: "sack_manager \<Rightarrow> sack_payload \<times> sack_manager" where
  "tick m =
     (let ema = (if 0 < expected_since_last_sack m
                 then f64_add (f64_mul (3 / 4) (loss_ema m))
                        (f64_mul (1 / 4) (interval_loss (unat (packets_since_last_sack m))
                                                        (unat (expected_since_last_sack m))))
                 else loss_ema m);
          m' = m\<lparr>loss_ema := ema, packets_since_last_sack := 0, expected_since_last_sack := 0,
                 heartbeat_interval := interval_for_loss ema\<rparr>
      in (payload m', m'))"

section \<open>The bitmap as a set of offsets\<close>

definition bit_at :: "u64 list \<Rightarrow> nat \<Rightarrow> bool" where
  "bit_at ws k \<longleftrightarrow> bit (ws ! (k div 64)) (k mod 64)"

definition sack_wf :: "sack_payload \<Rightarrow> bool" where
  "sack_wf p \<longleftrightarrow> length (words p) = SACK_WORDS \<and> unat (word_count p) \<le> SACK_WORDS \<and>
     (\<forall>i < SACK_WORDS. unat (word_count p) \<le> i \<longrightarrow> words p ! i = 0)"

lemma unat_SACK_WINDOW [simp]: "unat SACK_WINDOW = 1024"
  by (simp add: SACK_WINDOW_def)

lemma and_one_eq_one_iff: "drop_bit n (w :: u64) AND 1 = 1 \<longleftrightarrow> bit w n"
  by (simp add: bit_iff_and_drop_bit_eq_1)

lemma window_le_iff: "base \<le> seq \<Longrightarrow> SACK_WINDOW \<le> seq - base \<longleftrightarrow> 1024 \<le> unat seq - unat base"
  by (simp add: word_le_nat_alt unat_sub)

lemma offset_idx:
  assumes "base \<le> (seq :: u64)"
  shows "unat ((seq - base) div 64) = (unat seq - unat base) div 64"
    and "unat ((seq - base) mod 64) = (unat seq - unat base) mod 64"
  using assms by (simp_all add: unat_div unat_mod unat_sub)

lemma is_received_iff:
  "is_received p seq \<longleftrightarrow> unat seq < unat (base_seq p) \<or>
     (unat seq - unat (base_seq p) < 1024 \<and> bit_at (words p) (unat seq - unat (base_seq p)))"
proof (cases "seq < base_seq p")
  case True
  then show ?thesis by (simp add: is_received_def word_less_nat_alt)
next
  case False
  then have "base_seq p \<le> seq" "\<not> unat seq < unat (base_seq p)" by (simp_all add: word_less_nat_alt word_le_nat_alt)
  then show ?thesis using False
    by (auto simp: is_received_def Let_def window_le_iff offset_idx and_one_eq_one_iff bit_at_def)
qed

lemma bit_at_update:
  assumes "k < 64 * length ws" "n < 64 * length ws"
  shows "bit_at (ws[n div 64 := ws ! (n div 64) OR push_bit (n mod 64) 1]) k \<longleftrightarrow> bit_at ws k \<or> k = n"
proof -
  have "k div 64 < length ws" "n div 64 < length ws"
    using assms by (simp_all add: less_mult_imp_div_less mult.commute)
  moreover have "k = n \<longleftrightarrow> k div 64 = n div 64 \<and> k mod 64 = n mod 64"
    by (metis div_mult_mod_eq)
  ultimately show ?thesis
    by (auto simp: bit_at_def nth_list_update bit_or_iff bit_exp_iff)
qed

lemma mark_received_words:
  assumes "base_seq p \<le> seq" "unat seq - unat (base_seq p) < 1024"
  shows "mark_received p seq =
    (let n = unat seq - unat (base_seq p);
         p' = p\<lparr>words := (words p)[n div 64 := words p ! (n div 64) OR push_bit (n mod 64) 1]\<rparr>
     in if unat (word_count p) < n div 64 + 1 then p'\<lparr>word_count := of_nat (n div 64 + 1)\<rparr> else p')"
  using assms by (simp add: mark_received_def Let_def window_le_iff offset_idx not_le[symmetric] linorder_not_less)

lemma base_seq_mark_received [simp]: "base_seq (mark_received p seq) = base_seq p"
  by (simp add: mark_received_def Let_def)


lemma of_nat_word_idx: "n < 1024 \<Longrightarrow> unat (of_nat (Suc (n div 64)) :: u8) = Suc (n div 64)"
  by (rule unat_of_nat_small) (simp add: less_mult_imp_div_less)

lemma sack_wf_mark_received:
  assumes "sack_wf p"
  shows "sack_wf (mark_received p seq)"
proof (cases "base_seq p \<le> seq \<and> unat seq - unat (base_seq p) < 1024")
  case True
  define n where "n = unat seq - unat (base_seq p)"
  have "n div 64 < 16" using True by (simp add: n_def less_mult_imp_div_less)
  moreover have "words p ! i = 0" if "i < 16" "unat (word_count p) \<le> i" for i
    using assms that by (simp add: sack_wf_def SACK_WORDS_def)
  ultimately show ?thesis using True assms
    by (auto simp: mark_received_words Let_def n_def[symmetric] sack_wf_def SACK_WORDS_def
        of_nat_word_idx nth_list_update simp del: of_nat_add of_nat_Suc)
next
  case False
  then have "mark_received p seq = p"
    by (auto simp: mark_received_def Let_def window_le_iff)
  then show ?thesis using assms by simp
qed

lemma is_received_mark_received:
  assumes "sack_wf p"
  shows "is_received (mark_received p seq) q \<longleftrightarrow> is_received p q \<or>
     (q = seq \<and> unat seq < unat (base_seq p) + 1024)"
proof (cases "base_seq p \<le> seq \<and> unat seq - unat (base_seq p) < 1024")
  case True
  define n where "n = unat seq - unat (base_seq p)"
  have n: "n < 1024" and seq: "unat seq = unat (base_seq p) + n"
    using True by (simp_all add: n_def word_le_nat_alt)
  have len: "length (words p) = 16" using assms by (simp add: sack_wf_def SACK_WORDS_def)
  have ws: "words (mark_received p seq) =
      (words p)[n div 64 := words p ! (n div 64) OR push_bit (n mod 64) 1]"
    using True by (simp add: mark_received_words Let_def n_def)
  have "bit_at (words (mark_received p seq)) k \<longleftrightarrow> bit_at (words p) k \<or> k = n" if "k < 1024" for k
    unfolding ws using that n len by (intro bit_at_update) simp_all
  moreover have "q = seq \<longleftrightarrow> unat q = unat (base_seq p) + n" using seq by (metis word_unat_eq_iff)
  ultimately show ?thesis using n seq by (auto simp: is_received_iff)
next
  case False
  then have m: "mark_received p seq = p"
    by (auto simp: mark_received_def Let_def window_le_iff)
  show ?thesis using False unfolding m
    by (auto simp: is_received_iff word_le_nat_alt)
qed

section \<open>Sliding the window\<close>

lemma length_shift_right_carry [simp]: "length (shift_right_carry b c ws) = length ws"
  by (induction b c ws rule: shift_right_carry.induct) simp_all

lemma nth_shift_right_carry:
  "i < length ws \<Longrightarrow> shift_right_carry b c ws ! i =
     (drop_bit b (ws ! i) OR (if i = 0 then c else push_bit (64 - b) (ws ! (i - 1))))"
proof (induction b c ws arbitrary: i rule: shift_right_carry.induct)
  case (2 b c w ws)
  then show ?case by (cases i) (auto simp: nth_Cons')
qed simp

lemma nth_rev_shift:
  assumes "i < length ws"
  shows "rev (shift_right_carry b 0 (rev ws)) ! i =
     (drop_bit b (ws ! i) OR (if Suc i < length ws then push_bit (64 - b) (ws ! Suc i) else 0))"
  using assms by (auto simp: rev_nth nth_shift_right_carry Suc_diff_Suc)

lemma bit_at_rev_shift:
  assumes "0 < b" "b < 64" "k < 64 * length ws"
  shows "bit_at (rev (shift_right_carry b 0 (rev ws))) k \<longleftrightarrow>
     k + b < 64 * length ws \<and> bit_at ws (k + b)"
proof -
  define i j where "i = k div 64" and "j = k mod 64"
  have k: "k = 64 * i + j" "j < 64" by (simp_all add: i_def j_def)
  have i: "i < length ws" using assms(3) by (simp add: i_def less_mult_imp_div_less mult.commute)
  show ?thesis
  proof (cases "j + b < 64")
    case True
    then have "(k + b) div 64 = i" "(k + b) mod 64 = j + b"
      using div_mod_64[of "j + b" i] by (simp_all add: k add.assoc)
    moreover have "k + b < 64 * length ws" using True i unfolding k by linarith
    ultimately show ?thesis using True i assms k(2)
      by (auto simp: bit_at_def nth_rev_shift bit_or_iff bit_drop_bit_eq bit_push_bit_iff add.commute
          simp flip: i_def j_def)
  next
    case False
    then have "k + b = 64 * Suc i + (j + b - 64)" "j + b - 64 < 64" using assms(2) k by simp_all
    then have "(k + b) div 64 = Suc i" "(k + b) mod 64 = j + b - 64"
      by (simp_all only: div_mod_64)
    moreover have "k + b < 64 * length ws \<longleftrightarrow> Suc i < length ws" using False assms(2) k by auto
    moreover have "\<not> bit (ws ! i) (j + b)" using False bit_imp_le_length[of "ws ! i" "j + b"] by auto
    ultimately show ?thesis using False i assms k(2)
      by (auto simp: bit_at_def nth_rev_shift bit_or_iff bit_drop_bit_eq bit_push_bit_iff add.commute
          simp flip: i_def j_def)
  qed
qed


lemma trim_word_count_le: "trim_word_count ws n \<le> n"
  by (induction ws n rule: trim_word_count.induct) auto

lemma trim_word_count_zero: "trim_word_count ws n \<le> i \<Longrightarrow> i < n \<Longrightarrow> ws ! i = 0"
proof (induction ws n rule: trim_word_count.induct)
  case (2 ws n)
  then show ?case by (cases "ws ! n = 0") (auto simp: less_Suc_eq)
qed simp

text \<open>The words after the word copy and the zeroing of the vacated tail.\<close>

definition shift_words :: "nat \<Rightarrow> u64 list \<Rightarrow> u64 list" where
  "shift_words s ws = (if 0 < s then take (SACK_WORDS - s) (drop s ws @ drop (SACK_WORDS - s) ws) @ replicate s 0
                       else ws)"

lemma length_shift_words [simp]:
  "length ws = SACK_WORDS \<Longrightarrow> s < SACK_WORDS \<Longrightarrow> length (shift_words s ws) = SACK_WORDS"
  by (simp add: shift_words_def)

lemma bit_at_shift_words:
  assumes "length ws = SACK_WORDS" "s < SACK_WORDS" "k < 1024"
  shows "bit_at (shift_words s ws) k \<longleftrightarrow> k + 64 * s < 1024 \<and> bit_at ws (k + 64 * s)"
proof -
  have "k div 64 < 16" using assms(3) by (simp add: less_mult_imp_div_less)
  moreover have "(k + 64 * s) div 64 = k div 64 + s" "(k + 64 * s) mod 64 = k mod 64" by simp_all
  moreover have "k + 64 * s < 1024 \<longleftrightarrow> k div 64 + s < 16" by linarith
  ultimately show ?thesis using assms
    by (auto simp: bit_at_def shift_words_def SACK_WORDS_def nth_append add.commute)
qed

lemma advance_base_words:
  assumes "base_seq p < new_base" "unat new_base - unat (base_seq p) < 1024"
  shows "advance_base p new_base =
    (let shift = unat new_base - unat (base_seq p);
         ws1 = shift_words (shift div 64) (words p);
         ws2 = (if 0 < shift mod 64 then rev (shift_right_carry (shift mod 64) 0 (rev ws1)) else ws1)
     in p\<lparr>words := ws2, word_count := of_nat (trim_word_count ws2 SACK_WORDS), base_seq := new_base\<rparr>)"
proof -
  have "unat (new_base - base_seq p) = unat new_base - unat (base_seq p)"
    using assms(1) by (simp add: unat_sub word_le_nat_alt word_less_nat_alt)
  then show ?thesis using assms by (simp add: advance_base_def Let_def shift_words_def not_le)
qed

lemma advance_base_far:
  assumes "1024 \<le> unat new_base - unat (base_seq p)"
  shows "advance_base p new_base = p\<lparr>words := replicate SACK_WORDS 0, word_count := 0, base_seq := new_base\<rparr>"
proof -
  have "base_seq p < new_base" using assms by (simp add: word_less_nat_alt)
  then have "unat (new_base - base_seq p) = unat new_base - unat (base_seq p)"
    by (simp add: unat_sub word_le_nat_alt word_less_nat_alt)
  then show ?thesis using assms \<open>base_seq p < new_base\<close> by (simp add: advance_base_def Let_def)
qed

lemma bit_at_advance_base:
  assumes wf: "sack_wf p" and "base_seq p < new_base" and k: "k < 1024"
  defines "shift \<equiv> unat new_base - unat (base_seq p)"
  shows "bit_at (words (advance_base p new_base)) k \<longleftrightarrow> k + shift < 1024 \<and> bit_at (words p) (k + shift)"
proof (cases "shift < 1024")
  case True
  define ws where "ws = shift_words (shift div 64) (words p)"
  have len: "length (words p) = SACK_WORDS" using wf by (simp add: sack_wf_def)
  have s: "shift div 64 < SACK_WORDS" using True by (simp add: SACK_WORDS_def less_mult_imp_div_less)
  have lws: "length ws = 16" using len s by (simp add: ws_def SACK_WORDS_def)
  have bws: "bit_at ws i \<longleftrightarrow> i + 64 * (shift div 64) < 1024 \<and> bit_at (words p) (i + 64 * (shift div 64))"
    if "i < 1024" for i
    unfolding ws_def using len s that by (rule bit_at_shift_words)
  have split: "64 * (shift div 64) + shift mod 64 = shift" by simp
  have adv: "words (advance_base p new_base) =
      (if 0 < shift mod 64 then rev (shift_right_carry (shift mod 64) 0 (rev ws)) else ws)"
    using assms(2) True by (simp add: advance_base_words Let_def ws_def shift_def)
  show ?thesis
  proof (cases "0 < shift mod 64")
    case T: True
    have "bit_at (words (advance_base p new_base)) k \<longleftrightarrow>
        k + shift mod 64 < 1024 \<and> bit_at ws (k + shift mod 64)"
      using T k lws bit_at_rev_shift[of "shift mod 64" k ws] by (simp add: adv)
    also have "\<dots> \<longleftrightarrow> k + shift < 1024 \<and> bit_at (words p) (k + shift)"
      using bws[of "k + shift mod 64"] split by (auto simp: add.assoc add.commute add.left_commute)
    finally show ?thesis .
  next
    case F: False
    then show ?thesis using bws[OF k] split by (simp add: adv)
  qed
next
  case False
  then have "words (advance_base p new_base) = replicate SACK_WORDS 0"
    by (simp add: advance_base_far shift_def)
  then show ?thesis using k False by (simp add: bit_at_def SACK_WORDS_def less_mult_imp_div_less)
qed

lemma base_seq_advance_base: "base_seq (advance_base p new_base) = max (base_seq p) new_base"
  by (auto simp: advance_base_def Let_def max_def)

lemma sack_wf_advance_base:
  assumes "sack_wf p"
  shows "sack_wf (advance_base p new_base)"
proof -
  consider "new_base \<le> base_seq p" | "1024 \<le> unat new_base - unat (base_seq p)" |
    "base_seq p < new_base" "unat new_base - unat (base_seq p) < 1024" by fastforce
  then show ?thesis
  proof cases
    case 1
    then show ?thesis using assms by (simp add: advance_base_def)
  next
    case 2
    then show ?thesis by (simp add: advance_base_far sack_wf_def)
  next
    case 3
    have wc: "unat (of_nat (trim_word_count ws SACK_WORDS) :: u8) = trim_word_count ws SACK_WORDS" for ws
      using trim_word_count_le[of ws SACK_WORDS] by (intro unat_of_nat_small) (simp add: SACK_WORDS_def)
    have "(unat new_base - unat (base_seq p)) div 64 < SACK_WORDS"
      using 3 by (simp add: SACK_WORDS_def less_mult_imp_div_less)
    then show ?thesis using 3 assms
      by (auto simp: advance_base_words Let_def sack_wf_def wc trim_word_count_le
          intro: trim_word_count_zero)
  qed
qed

lemma is_received_advance_base:
  assumes "sack_wf p"
  shows "is_received (advance_base p new_base) q \<longleftrightarrow> is_received p q \<or> q < new_base"
proof (cases "new_base \<le> base_seq p")
  case True
  then have "advance_base p new_base = p" by (simp add: advance_base_def)
  then show ?thesis using True by (auto simp: is_received_iff word_less_nat_alt word_le_nat_alt)
next
  case False
  define b nb where "b = unat (base_seq p)" and "nb = unat new_base"
  have lt: "base_seq p < new_base" "b < nb" using False by (simp_all add: word_less_nat_alt b_def nb_def word_le_nat_alt)
  have base: "base_seq (advance_base p new_base) = new_base"
    using lt by (auto simp: base_seq_advance_base max_def)
  have "is_received (advance_base p new_base) q \<longleftrightarrow> unat q < nb \<or>
      (unat q - nb < 1024 \<and> unat q - nb + (nb - b) < 1024 \<and> bit_at (words p) (unat q - nb + (nb - b)))"
    using bit_at_advance_base[OF assms lt(1), of "unat q - nb"]
    by (auto simp: is_received_iff base b_def[symmetric] nb_def[symmetric])
  also have "\<dots> \<longleftrightarrow> unat q < nb \<or> (unat q - b < 1024 \<and> bit_at (words p) (unat q - b))"
    using lt(2) by (cases "unat q < nb") auto
  also have "\<dots> \<longleftrightarrow> is_received p q \<or> q < new_base"
    using lt(2) by (auto simp: is_received_iff b_def nb_def word_less_nat_alt)
  finally show ?thesis .
qed


section \<open>The window interface\<close>

text \<open>
  What the manager relies on: a window of \<open>W\<close> sequence numbers above a base, where marking
  adds one number and advancing the base acknowledges everything below it.
\<close>

locale ack_window =
  fixes inv :: "'p \<Rightarrow> bool" and base :: "'p \<Rightarrow> u64" and rcvd :: "'p \<Rightarrow> u64 \<Rightarrow> bool"
    and mark :: "'p \<Rightarrow> u64 \<Rightarrow> 'p" and adv :: "'p \<Rightarrow> u64 \<Rightarrow> 'p" and W :: nat
  assumes rcvd_below: "q < base p \<Longrightarrow> rcvd p q"
    and rcvd_above: "unat (base p) + W \<le> unat q \<Longrightarrow> \<not> rcvd p q"
    and rcvd_mark: "inv p \<Longrightarrow> rcvd (mark p s) q \<longleftrightarrow> rcvd p q \<or> (q = s \<and> unat s < unat (base p) + W)"
    and base_mark: "base (mark p s) = base p"
    and rcvd_adv: "inv p \<Longrightarrow> rcvd (adv p b) q \<longleftrightarrow> rcvd p q \<or> q < b"
    and base_adv: "base (adv p b) = max (base p) b"
    and inv_mark: "inv p \<Longrightarrow> inv (mark p s)"
    and inv_adv: "inv p \<Longrightarrow> inv (adv p b)"
begin

lemma scan_stops:
  assumes "unat b \<le> n" "n < 2 ^ 64" "\<not> rcvd p (of_nat n)"
  shows "\<exists>b'. scan_base (rcvd p) b = Some b' \<and> b \<le> b' \<and> unat b' \<le> n \<and> \<not> rcvd p b' \<and>
              (\<forall>q. b \<le> q \<longrightarrow> q < b' \<longrightarrow> rcvd p q)"
  using assms(1)
proof (induction "n - unat b" arbitrary: b)
  case 0
  then have "of_nat n = b" by simp
  then show ?case using assms(3) 0 by (auto simp: scan_base.simps)
next
  case (Suc d)
  show ?case
  proof (cases "rcvd p b")
    case False
    then show ?thesis using Suc.prems by (auto simp: scan_base.simps)
  next
    case True
    have "unat b < n" using Suc.hyps(2) by simp
    then have b1: "unat (b + 1) = unat b + 1" using assms(2) by (intro unat_plus_one) simp
    have "d = n - unat (b + 1)" "unat (b + 1) \<le> n" using b1 Suc.hyps(2) \<open>unat b < n\<close> by simp_all
    then obtain b' where b': "scan_base (rcvd p) (b + 1) = Some b'" "b + 1 \<le> b'" "unat b' \<le> n"
      "\<not> rcvd p b'" "\<forall>q. b + 1 \<le> q \<longrightarrow> q < b' \<longrightarrow> rcvd p q"
      using Suc.hyps(1) by blast
    have "rcvd p q" if "b \<le> q" "q < b'" for q
    proof (cases "q = b")
      case False
      with that(1) have "b < q" by simp
      then have "b + 1 \<le> q" using b1 by (simp add: word_le_nat_alt word_less_nat_alt)
      then show ?thesis using that b'(5) by blast
    qed (use True in simp)
    moreover have "b \<le> b'" using b'(2) b1 by (simp add: word_le_nat_alt)
    ultimately show ?thesis using True b' by (subst scan_base.simps) auto
  qed
qed

text \<open>One arrival: mark, scan to the first gap, slide.  The window ends at its first gap.\<close>

lemma arrival:
  assumes inv: "inv p" and fits: "unat (base p) + W < 2 ^ 64"
  shows "\<exists>b. scan_base (rcvd (mark p s)) (base p) = Some b \<and> base p \<le> b \<and>
             inv (adv (mark p s) b) \<and> base (adv (mark p s) b) = b \<and>
             \<not> rcvd (adv (mark p s) b) b \<and>
             (\<forall>q. rcvd (adv (mark p s) b) q \<longleftrightarrow> rcvd p q \<or> (q = s \<and> unat s < unat (base p) + W))"
proof -
  let ?m = "mark p s"
  have "\<not> rcvd ?m (of_nat (unat (base p) + W))"
    using fits by (intro rcvd_above) (simp add: base_mark unat_of_nat_small del: of_nat_add)
  then obtain b where b: "scan_base (rcvd ?m) (base p) = Some b" "base p \<le> b" "\<not> rcvd ?m b"
    "\<forall>q. base p \<le> q \<longrightarrow> q < b \<longrightarrow> rcvd ?m q"
    using scan_stops[of "base p" "unat (base p) + W" ?m] fits by auto
  have below: "rcvd ?m q" if "q < b" for q
    using that b(4) rcvd_below[of q ?m] by (cases "base p \<le> q") (auto simp: base_mark)
  have "rcvd (adv ?m b) q \<longleftrightarrow> rcvd ?m q" for q
    using below rcvd_adv[OF inv_mark[OF inv]] by auto
  moreover have "base (adv ?m b) = b" using b(2) by (auto simp: base_adv base_mark max_def)
  ultimately show ?thesis using b inv by (auto simp: inv_adv inv_mark rcvd_mark)
qed

end

lemma is_received_below: "q < base_seq p \<Longrightarrow> is_received p q"
  by (simp add: is_received_iff word_less_nat_alt)

lemma is_received_above: "unat (base_seq p) + 1024 \<le> unat q \<Longrightarrow> \<not> is_received p q"
  by (auto simp: is_received_iff)

interpretation win: ack_window sack_wf base_seq is_received mark_received advance_base 1024
  by unfold_locales
     (simp_all add: is_received_below is_received_above is_received_mark_received
       is_received_advance_base base_seq_advance_base sack_wf_mark_received sack_wf_advance_base)


section \<open>The manager over a sequence of arrivals\<close>

text \<open>The manager after the packets \<open>ss\<close> have arrived in this order, from a state \<open>m\<close>.\<close>

fun receive_all :: "sack_manager \<Rightarrow> u64 list \<Rightarrow> sack_manager option" where
  "receive_all m [] = Some m"
| "receive_all m (s # ss) =
     (case on_packet_received m s of None \<Rightarrow> None | Some m' \<Rightarrow> receive_all m' ss)"

definition manager_inv :: "sack_manager \<Rightarrow> bool" where
  "manager_inv m \<longleftrightarrow> sack_wf (payload m) \<and> \<not> is_received (payload m) (base_seq (payload m))"

lemma manager_inv_new: "manager_inv (manager_new s)"
  by (simp add: manager_inv_def manager_new_def sack_default_def sack_wf_def is_received_iff
      bit_at_def SACK_WORDS_def)

lemma is_received_manager_new: "is_received (payload (manager_new s)) q \<longleftrightarrow> q < s"
  by (auto simp: manager_new_def sack_default_def is_received_iff bit_at_def SACK_WORDS_def
      word_less_nat_alt less_mult_imp_div_less)

lemma advance_base_self [simp]: "advance_base p (base_seq p) = p"
  by (simp add: advance_base_def)

lemma on_packet_received_window:
  assumes "sack_wf (payload m)" "unat (base_seq (payload m)) + 1024 < 2 ^ 64"
  shows "\<exists>m'. on_packet_received m s = Some m' \<and> manager_inv m' \<and>
     base_seq (payload m) \<le> base_seq (payload m') \<and>
     (\<forall>q. is_received (payload m') q \<longleftrightarrow>
            is_received (payload m) q \<or> (q = s \<and> unat s < unat (base_seq (payload m)) + 1024))"
proof -
  let ?p = "mark_received (payload m) s"
  from win.arrival[OF assms, of s] obtain b where
    b: "scan_base (is_received ?p) (base_seq (payload m)) = Some b" "base_seq (payload m) \<le> b"
      "sack_wf (advance_base ?p b)" "base_seq (advance_base ?p b) = b" "\<not> is_received (advance_base ?p b) b"
      "\<forall>q. is_received (advance_base ?p b) q \<longleftrightarrow>
         is_received (payload m) q \<or> (q = s \<and> unat s < unat (base_seq (payload m)) + 1024)"
    by blast
  have keep: "advance_base ?p b = ?p" if "\<not> base_seq (payload m) < b"
    using that b(2) by (simp add: advance_base_def)
  have "\<exists>m'. on_packet_received m s = Some m' \<and> payload m' = advance_base ?p b"
    using b(1) keep by (simp add: on_packet_received_def Let_def)
  then show ?thesis using b(2-6) by (auto simp: manager_inv_def)
qed

lemma base_bound:
  assumes "manager_inv m" "\<forall>q. is_received (payload m) q \<longrightarrow> unat q < N" "N < 2 ^ 64"
  shows "unat (base_seq (payload m)) \<le> N"
proof (rule ccontr)
  assume *: "\<not> unat (base_seq (payload m)) \<le> N"
  then have "unat (of_nat N :: u64) = N" using assms(3) by (intro unat_of_nat_small) simp
  then have "(of_nat N :: u64) < base_seq (payload m)" using * by (simp add: word_less_nat_alt)
  then have "is_received (payload m) (of_nat N)" by (rule is_received_below)
  then show False using assms(2) \<open>unat (of_nat N :: u64) = N\<close> by fastforce
qed

lemma receive_all_window:
  assumes "manager_inv m" "\<forall>q. is_received (payload m) q \<longrightarrow> unat q < N"
    "\<forall>s \<in> set ss. unat s < N" "N + 1024 < 2 ^ 64"
  shows "\<exists>m'. receive_all m ss = Some m' \<and> manager_inv m' \<and>
     base_seq (payload m) \<le> base_seq (payload m') \<and>
     (\<forall>q. is_received (payload m') q \<longrightarrow> is_received (payload m) q \<or> q \<in> set ss) \<and>
     (\<forall>q. is_received (payload m) q \<longrightarrow> is_received (payload m') q) \<and>
     (\<forall>q \<in> set ss. unat q < unat (base_seq (payload m)) + 1024 \<longrightarrow> is_received (payload m') q)"
  using assms(1-3)
proof (induction ss arbitrary: m)
  case Nil
  then show ?case by simp
next
  case (Cons s ss)
  have "unat (base_seq (payload m)) \<le> N" using Cons.prems assms(4) by (intro base_bound) auto
  then obtain m1 where m1: "on_packet_received m s = Some m1" "manager_inv m1"
    "base_seq (payload m) \<le> base_seq (payload m1)"
    "\<forall>q. is_received (payload m1) q \<longleftrightarrow>
       is_received (payload m) q \<or> (q = s \<and> unat s < unat (base_seq (payload m)) + 1024)"
    using on_packet_received_window[of m s] Cons.prems(1) assms(4) by (auto simp: manager_inv_def)
  have "\<forall>q. is_received (payload m1) q \<longrightarrow> unat q < N" using m1(4) Cons.prems by auto
  then obtain m2 where m2: "receive_all m1 ss = Some m2" "manager_inv m2"
     "base_seq (payload m1) \<le> base_seq (payload m2)"
     "\<forall>q. is_received (payload m2) q \<longrightarrow> is_received (payload m1) q \<or> q \<in> set ss"
     "\<forall>q. is_received (payload m1) q \<longrightarrow> is_received (payload m2) q"
     "\<forall>q \<in> set ss. unat q < unat (base_seq (payload m1)) + 1024 \<longrightarrow> is_received (payload m2) q"
    using Cons.IH[OF m1(2)] Cons.prems by auto
  have "unat q < unat (base_seq (payload m1)) + 1024" if "unat q < unat (base_seq (payload m)) + 1024" for q :: u64
    using that m1(3) by (simp add: word_le_nat_alt)
  then show ?case using m1 m2 by auto
qed


text \<open>
  C4: the bitmap acknowledges what arrived and nothing else.  Starting from a fresh manager,
  for any arrivals in any order, with losses and duplicates, the calls of
  \<open>on_packet_received\<close> all return (the scan for the first gap ends), no sequence number is
  acknowledged that neither lies below the initial one nor arrived, every arrival within the
  first window is acknowledged, and the base is a gap.  The bound keeps the sequence numbers
  away from the wrap-around of \<open>u64\<close>.
\<close>

theorem sack_acknowledges_arrivals:
  assumes "unat init \<le> N" "\<forall>s \<in> set ss. unat s < N" "N + 1024 < 2 ^ 64"
  shows "\<exists>m. receive_all (manager_new init) ss = Some m \<and>
     (\<forall>q. is_received (payload m) q \<longrightarrow> q < init \<or> q \<in> set ss) \<and>
     (\<forall>q. unat q < unat init + 1024 \<longrightarrow> (is_received (payload m) q \<longleftrightarrow> q < init \<or> q \<in> set ss)) \<and>
     \<not> is_received (payload m) (base_seq (payload m))"
proof -
  have base: "base_seq (payload (manager_new init)) = init" by (simp add: manager_new_def)
  have "\<forall>q. is_received (payload (manager_new init)) q \<longrightarrow> unat q < N"
    using assms(1) by (auto simp: is_received_manager_new word_less_nat_alt)
  then show ?thesis
    using receive_all_window[OF manager_inv_new _ assms(2,3), of init]
    by (auto simp: is_received_manager_new base manager_inv_def)
qed

theorem sack_acknowledges_arrivals_witness:
  "\<exists>m. receive_all (manager_new 0) [0, 2, 2, 5] = Some m \<and>
     (\<forall>q. is_received (payload m) q \<longrightarrow> q < 0 \<or> q \<in> set [0, 2, 2, 5]) \<and>
     (\<forall>q. unat q < unat (0 :: u64) + 1024 \<longrightarrow>
          (is_received (payload m) q \<longleftrightarrow> q < 0 \<or> q \<in> set [0, 2, 2, 5])) \<and>
     \<not> is_received (payload m) (base_seq (payload m))"
  by (rule sack_acknowledges_arrivals[where N = 6]) simp_all

text \<open>
  Sliding the window.  \<open>advance_base\<close>, which moves whole words, shifts bits across word
  boundaries and recounts the words, keeps the bitmap well formed and means exactly: the base
  moves up to \<open>new_base\<close>, everything below it becomes acknowledged and every other sequence
  number keeps its status; marking adds the one number when it lies in the window.
\<close>

theorem sack_window_refines_set:
  assumes "sack_wf p"
  shows "sack_wf (advance_base p new_base) \<and> base_seq (advance_base p new_base) = max (base_seq p) new_base \<and>
     {q. is_received (advance_base p new_base) q} = {q. is_received p q} \<union> {q. q < new_base} \<and>
     sack_wf (mark_received p s) \<and> base_seq (mark_received p s) = base_seq p \<and>
     {q. is_received (mark_received p s) q} =
       {q. is_received p q} \<union> (if unat s < unat (base_seq p) + 1024 then {s} else {})"
  using assms
  by (auto simp: is_received_advance_base is_received_mark_received sack_wf_advance_base
      sack_wf_mark_received base_seq_advance_base)

theorem sack_window_refines_set_witness:
  "let p = \<lparr>base_seq = 10, word_count = 2, words = [1, 3] @ replicate 14 0\<rparr> in
     {q. is_received (advance_base p 75) q} = {q. is_received p q} \<union> {q. q < 75} \<and>
     {q. is_received (mark_received p 11) q} = {q. is_received p q} \<union> {11}"
proof -
  let ?p = "\<lparr>base_seq = 10, word_count = 2, words = [1, 3] @ replicate 14 0\<rparr>"
  have "sack_wf ?p" by (auto simp: sack_wf_def SACK_WORDS_def nth_append)
  from sack_window_refines_set[OF this, of 75 11] show ?thesis by (simp add: Let_def)
qed


section \<open>The wire format of a SACK\<close>

lemma length_concat_le_bytes [simp]: "length (concat (map le_bytes (ws :: u64 list))) = length ws * 8"
  by (induction ws) simp_all

lemma slice_word:
  assumes "i < length ws" "length pre = 9"
  shows "slice (9 + i * 8) (17 + i * 8) (pre @ concat (map le_bytes (ws :: u64 list)) @ post) =
    le_bytes (ws ! i)"
proof -
  have ws: "ws = take i ws @ ws ! i # drop (Suc i) ws" using assms(1) by (rule id_take_nth_drop)
  have "pre @ concat (map le_bytes ws) @ post =
      (pre @ concat (map le_bytes (take i ws))) @ le_bytes (ws ! i) @
      (concat (map le_bytes (drop (Suc i) ws)) @ post)"
    by (subst ws) (simp del: append_take_drop_id)
  then show ?thesis
    using assms by (simp only:) (rule slice_append_left, auto simp: min_def)
qed

lemma read_words_enc:
  assumes "length pre = 9" "i + n \<le> length (ws :: u64 list)" "i + n \<le> length acc"
  shows "read_words (pre @ concat (map le_bytes ws) @ post) n i acc =
    Return (take i acc @ take n (drop i ws) @ drop (i + n) acc)"
  using assms(2,3)
proof (induction n arbitrary: i acc)
  case (Suc n)
  have w: "of_le_bytes (slice (9 + i * 8) (17 + i * 8) (pre @ concat (map le_bytes ws) @ post)) = ws ! i"
    using Suc.prems assms(1) by (subst slice_word) simp_all
  have "take (Suc i) (acc[i := ws ! i]) = take i acc @ [ws ! i]"
    using Suc.prems by (simp add: take_Suc_conv_app_nth)
  moreover have "take (Suc n) (drop i ws) = ws ! i # take n (drop (Suc i) ws)"
    using Suc.prems by (simp flip: Cons_nth_drop_Suc)
  ultimately show ?case using Suc.prems by (simp add: Suc.IH w Let_def)
qed simp

lemma read_words_panic_iff:
  "i \<le> length ws \<Longrightarrow> read_words dat n i ws = Panic \<longleftrightarrow> length ws < i + n"
  by (induction n arbitrary: i ws) (auto simp: Let_def)

lemma deserialise_serialised:
  assumes wf: "sack_wf p"
  shows "deserialise (le_bytes (base_seq p) @ [word_count p] @
      concat (map le_bytes (take (unat (word_count p)) (words p))) @ rest) = Return (Some (p, wire_size p))"
proof -
  let ?n = "unat (word_count p)" and ?ws = "take (unat (word_count p)) (words p)"
  let ?pre = "le_bytes (base_seq p) @ [word_count p]"
  let ?dat = "?pre @ concat (map le_bytes ?ws) @ rest"
  have len: "length (words p) = SACK_WORDS" "?n \<le> SACK_WORDS" and
    zero: "\<forall>i < SACK_WORDS. ?n \<le> i \<longrightarrow> words p ! i = 0"
    using wf by (auto simp: sack_wf_def)
  have "drop ?n (words p) = replicate (SACK_WORDS - ?n) 0"
    using len zero by (intro nth_equalityI) auto
  then have eq: "?ws @ replicate (SACK_WORDS - ?n) 0 = words p" by (metis append_take_drop_id)
  have "read_words ?dat ?n 0 (replicate SACK_WORDS 0) = Return (words p)"
    using len read_words_enc[of ?pre 0 ?n ?ws "replicate SACK_WORDS 0" rest] eq by (simp add: min_def)
  moreover have "?dat ! 8 = word_count p" by (simp add: nth_append)
  moreover have "of_le_bytes (slice 0 8 ?dat) = base_seq p" by simp
  moreover have "length ?dat = 9 + ?n * 8 + length rest" using len by (simp add: min_def)
  ultimately have "deserialise ?dat = Return (Some (p, wire_size p))"
    unfolding deserialise_def by (simp add: Let_def wire_size_def del: length_append append_assoc)
  then show ?thesis by simp
qed

definition sack_bytes :: "sack_payload \<Rightarrow> bytes" where
  "sack_bytes p = (case serialise p [] of Return bs \<Rightarrow> bs | Panic \<Rightarrow> [])"

definition sack_of_bytes :: "bytes \<Rightarrow> sack_payload option" where
  "sack_of_bytes bs = (case deserialise bs of Return r \<Rightarrow> map_option fst r | Panic \<Rightarrow> None)"

lemma serialise_eq:
  assumes "sack_wf p"
  shows "serialise p buf = Return (buf @ sack_bytes p)"
    and "sack_bytes p = le_bytes (base_seq p) @ [word_count p] @
           concat (map le_bytes (take (unat (word_count p)) (words p)))"
    and "length (sack_bytes p) = wire_size p"
  using assms by (auto simp: serialise_def sack_bytes_def sack_wf_def wire_size_def min_def)

lemma deserialise_sack_bytes: "sack_wf p \<Longrightarrow> deserialise (sack_bytes p @ rest) = Return (Some (p, wire_size p))"
  using deserialise_serialised[of p rest] by (simp add: serialise_eq(2))

interpretation sackc: prefix_codec sack_bytes sack_of_bytes sack_wf
  by unfold_locales (simp add: sack_of_bytes_def deserialise_sack_bytes)

text \<open>
  A well-formed SACK payload survives the wire.  Serialising appends exactly
  \<open>wire_size\<close> bytes (at most 137) to the buffer, and deserialising them, whatever bytes
  follow, returns the same payload and the number of bytes consumed.
\<close>

theorem sack_wire_roundtrip:
  assumes "sack_wf p"
  shows "\<exists>bs. serialise p buf = Return (buf @ bs) \<and> length bs = wire_size p \<and> wire_size p \<le> 137 \<and>
     deserialise (bs @ rest) = Return (Some (p, wire_size p))"
proof -
  have "wire_size p \<le> 137" using assms by (simp add: wire_size_def sack_wf_def SACK_WORDS_def)
  then show ?thesis using serialise_eq(1,3)[OF assms] deserialise_sack_bytes[OF assms] by blast
qed

theorem sack_wire_roundtrip_witness:
  "\<exists>bs. serialise (mark_received sack_default 70) [7] = Return ([7] @ bs) \<and>
     length bs = wire_size (mark_received sack_default 70) \<and>
     wire_size (mark_received sack_default 70) \<le> 137 \<and>
     deserialise (bs @ [1, 2]) =
       Return (Some (mark_received sack_default 70, wire_size (mark_received sack_default 70)))"
proof (rule sack_wire_roundtrip)
  have "sack_wf sack_default" by (simp add: sack_wf_def sack_default_def SACK_WORDS_def)
  then show "sack_wf (mark_received sack_default 70)" by (rule sack_wf_mark_received)
qed

text \<open>
  C34: what \<open>deserialise\<close> does on arbitrary received bytes.  It rejects exactly the buffers
  that are shorter than their word count announces, and it panics (an out-of-bounds write into
  the 16-word array) exactly when the announced count exceeds 16 and the bytes are there.
\<close>

theorem deserialise_outcomes:
  "(deserialise dat = Return None \<longleftrightarrow> length dat < 9 \<or> length dat < 9 + unat (dat ! 8) * 8) \<and>
   (deserialise dat = Panic \<longleftrightarrow> 9 + unat (dat ! 8) * 8 \<le> length dat \<and> 16 < unat (dat ! 8))"
proof -
  have rw: "read_words dat n 0 (replicate SACK_WORDS 0) = Panic \<longleftrightarrow> 16 < n" for n
    by (simp add: read_words_panic_iff SACK_WORDS_def)
  show ?thesis
  proof (cases "length dat < 9 \<or> length dat < 9 + unat (dat ! 8) * 8")
    case True
    then have "deserialise dat = Return None" by (auto simp: deserialise_def Let_def)
    then show ?thesis using True by auto
  next
    case False
    then show ?thesis using rw[of "unat (dat ! 8)"]
      by (cases "read_words dat (unat (dat ! 8)) 0 (replicate SACK_WORDS 0)")
         (simp_all add: deserialise_def Let_def)
  qed
qed

section \<open>Gaps and the heartbeat\<close>

text \<open>
  \<open>missing_seqs\<close> lists, in increasing order and without repetition, exactly the sequence
  numbers of the window that are not marked received.
\<close>

theorem missing_seqs_are_the_gaps:
  assumes "unat (base_seq p) + 1024 \<le> 2 ^ 64"
  shows "map unat (missing_seqs p) =
     filter (\<lambda>n. \<not> is_received p (of_nat n)) [unat (base_seq p) ..< unat (base_seq p) + 1024]"
proof -
  let ?b = "unat (base_seq p)"
  have off: "unat (base_seq p + of_nat k) = ?b + k" if "k < 1024" for k
    using that assms by (simp add: unat_word_ariths unat_of_nat_small)
  have rec: "is_received p (of_nat (?b + k)) \<longleftrightarrow> bit_at (words p) k" if "k < 1024" for k
    using that off[OF that] by (simp add: is_received_iff)
  have "missing_seqs p = map (\<lambda>k. base_seq p + of_nat k) (filter (\<lambda>k. \<not> bit_at (words p) k) [0..<1024])"
    by (simp add: missing_seqs_def List.map_filter_def and_one_eq_one_iff bit_at_def Let_def
        if_distrib comp_def cong: if_cong filter_cong map_cong)
  then have "map unat (missing_seqs p) = map (\<lambda>k. ?b + k) (filter (\<lambda>k. \<not> bit_at (words p) k) [0..<1024])"
    using off by (auto simp: comp_def intro!: map_cong)
  also have "\<dots> = map (\<lambda>k. ?b + k) (filter (\<lambda>k. \<not> is_received p (of_nat (?b + k))) [0..<1024])"
    using rec by (intro arg_cong[where f = "map _"] filter_cong) auto
  also have "\<dots> = filter (\<lambda>n. \<not> is_received p (of_nat n)) (map (\<lambda>k. ?b + k) [0..<1024])"
    by (simp add: filter_map comp_def)
  also have "map (\<lambda>k. ?b + k) [0..<1024] = [?b ..< ?b + 1024]" by (simp add: map_add_upt add.commute)
  finally show ?thesis .
qed


theorem missing_seqs_are_the_gaps_witness:
  "map unat (missing_seqs (mark_received sack_default 3)) =
     filter (\<lambda>n. \<not> is_received (mark_received sack_default 3) (of_nat n))
       [unat (base_seq (mark_received sack_default 3)) ..<
        unat (base_seq (mark_received sack_default 3)) + 1024]"
  by (rule missing_seqs_are_the_gaps) (simp add: sack_default_def)

lemma interval_loss_bounds: "0 \<le> interval_loss r e" "interval_loss r e \<le> 1"
  using f64_ratio_bounds[of "e - r" e] by (simp_all add: interval_loss_def)

lemma tick_ema_bounds:
  assumes "0 \<le> x" "x \<le> 1"
  shows "0 \<le> f64_add (f64_mul (3 / 4) x) (f64_mul (1 / 4) (interval_loss r e))"
    and "f64_add (f64_mul (3 / 4) x) (f64_mul (1 / 4) (interval_loss r e)) \<le> 1"
proof -
  have "representable (3 / 4)" by (rule representableI[of _ 3 "- 2"]) simp_all
  moreover have "representable (1 / 4)" by (rule representableI[of _ 1 "- 2"]) simp_all
  ultimately show "0 \<le> f64_add (f64_mul (3 / 4) x) (f64_mul (1 / 4) (interval_loss r e))"
    and "f64_add (f64_mul (3 / 4) x) (f64_mul (1 / 4) (interval_loss r e)) \<le> 1"
    using assms interval_loss_bounds[of r e] by (auto intro!: f64_ema_bounds)
qed

text \<open>
  The adaptive heartbeat.  \<open>tick\<close> returns the bitmap unchanged, starts a new counting
  interval, keeps the loss estimate in the unit interval (with every floating-point rounding
  taken into account) and picks the interval from the updated estimate: 1 ms above 20 percent,
  3 ms above 10 percent, 5 ms otherwise; with no packet expected the estimate stays.
\<close>

theorem tick_adapts_heartbeat:
  assumes "0 \<le> loss_ema m" "loss_ema m \<le> 1"
  shows "fst (tick m) = payload m \<and> payload (snd (tick m)) = payload m \<and>
     packets_since_last_sack (snd (tick m)) = 0 \<and> expected_since_last_sack (snd (tick m)) = 0 \<and>
     0 \<le> loss_ema (snd (tick m)) \<and> loss_ema (snd (tick m)) \<le> 1 \<and>
     (expected_since_last_sack m = 0 \<longrightarrow> loss_ema (snd (tick m)) = loss_ema m) \<and>
     heartbeat_interval (snd (tick m)) =
       (if rnd (20 / 100) < loss_ema (snd (tick m)) then from_millis 1
        else if rnd (10 / 100) < loss_ema (snd (tick m)) then from_millis 3 else from_millis 5)"
  using assms tick_ema_bounds[OF assms] by (simp add: tick_def Let_def interval_for_loss_def)

theorem tick_adapts_heartbeat_witness:
  "heartbeat_interval (snd (tick (manager_new 0))) =
       (if rnd (20 / 100) < loss_ema (snd (tick (manager_new 0))) then from_millis 1
        else if rnd (10 / 100) < loss_ema (snd (tick (manager_new 0))) then from_millis 3
        else from_millis 5) \<and> loss_ema (snd (tick (manager_new 0))) = 0"
  using tick_adapts_heartbeat[of "manager_new 0"] by (simp add: manager_new_def)

end
