(* ===== verification/Session.thy ===== *)
theory Session
  imports Prelude F64
begin

text \<open>
  Per-session statistics (\<^verbatim>\<open>crates/protocol/src/session.rs\<close>): the counters a sender and a
  receiver share, the RFC 6298 round-trip estimators in wrapping \<open>u64\<close> arithmetic, the
  retransmission timeout and the loss and goodput ratios.
\<close>

datatype session_state = Connecting | Active | Draining | Closed | Failed string

record session_stats =
  srtt_us :: u64
  rttvar_us :: u64
  packets_sent :: u64
  packets_acked :: u64
  bytes_sent :: u64
  bytes_acked :: u64
  retransmits :: u64

definition stats_new :: session_stats where
  "stats_new = \<lparr>srtt_us = 0, rttvar_us = 5000, packets_sent = 0, packets_acked = 0,
     bytes_sent = 0, bytes_acked = 0, retransmits = 0\<rparr>"

definition stats_default :: session_stats where
  "stats_default = \<lparr>srtt_us = 0, rttvar_us = 5000, packets_sent = 0, packets_acked = 0,
     bytes_sent = 0, bytes_acked = 0, retransmits = 0\<rparr>"

text \<open>\<open>(a as i64 - b as i64).unsigned_abs()\<close>: a wrapping subtraction, then the magnitude.\<close>

definition abs_diff_i64 :: "u64 \<Rightarrow> u64 \<Rightarrow> u64" where
  "abs_diff_i64 a b = (let d = a - b in if sint d < 0 then - d else d)"

definition update_rtt :: "session_stats \<Rightarrow> u64 \<Rightarrow> session_stats" where
  "update_rtt s rtt_us =
     (let srtt = srtt_us s; rttvar = rttvar_us s;
          (new_srtt, new_rttvar) =
            (if srtt = 0 then (rtt_us, rtt_us div 2)
             else let deviation = abs_diff_i64 srtt rtt_us
                  in ((7 * srtt) div 8 + rtt_us div 8, (3 * rttvar) div 4 + deviation div 4))
      in s\<lparr>srtt_us := new_srtt, rttvar_us := new_rttvar\<rparr>)"

definition clamp :: "u64 \<Rightarrow> u64 \<Rightarrow> u64 \<Rightarrow> u64" where
  "clamp lo hi x = (if x < lo then lo else if hi < x then hi else x)"

definition rto :: "session_stats \<Rightarrow> duration" where
  "rto s = from_micros (unat (clamp 200000 10000000 (saturating_add (srtt_us s) (4 * rttvar_us s))))"

definition loss_rate :: "session_stats \<Rightarrow> f64" where
  "loss_rate s =
     (let sent = unat (packets_sent s); acked = unat (packets_acked s) in
      if sent = 0 then 0
      else let lost = sent - acked in f64_div (f64_of_nat lost) (f64_of_nat sent))"

definition goodput_ratio :: "session_stats \<Rightarrow> f64" where
  "goodput_ratio s =
     (let sent = unat (bytes_sent s); acked = unat (bytes_acked s) in
      if sent = 0 then 0
      else min (f64_div (f64_of_nat acked) (f64_of_nat sent)) 1)"

text \<open>\<open>handle_pong\<close> of \<^verbatim>\<open>sender.rs\<close>: feed the round trip of an echoed timestamp.\<close>

definition handle_pong :: "u64 \<Rightarrow> session_stats \<Rightarrow> u64 \<Rightarrow> session_stats" where
  "handle_pong now s pong_ts_us = (if pong_ts_us \<le> now then update_rtt s (now - pong_ts_us) else s)"

section \<open>The estimators\<close>

lemma unat_mult_small: "unat a * unat b < 2 ^ LENGTH('a) \<Longrightarrow> unat (a * b :: 'a::len word) = unat a * unat b"
  by (simp add: unat_word_ariths)

lemma unat_add_small: "unat a + unat b < 2 ^ LENGTH('a) \<Longrightarrow> unat (a + b :: 'a::len word) = unat a + unat b"
  by (simp add: unat_word_ariths)

lemma sint_small:
  assumes "unat w < 2 ^ 63"
  shows "sint (w :: u64) = int (unat w)"
proof -
  have "int (unat w) < 2 ^ 63" using assms by (metis of_nat_less_iff of_nat_numeral of_nat_power)
  then have "signed_take_bit 63 (uint w) = uint w" 
    by (intro signed_take_bit_int_eq_self order_trans[of "- (2 ^ 63)" 0 "uint w"]) simp_all
  then show ?thesis by (simp add: sint_uint)
qed

lemma unat_abs_diff_i64:
  assumes "unat a < 2 ^ 63" "unat b < 2 ^ 63"
  shows "unat (abs_diff_i64 a b) = (if unat b \<le> unat a then unat a - unat b else unat b - unat a)"
proof (cases "unat b \<le> unat a")
  case True
  then have d: "unat (a - b) = unat a - unat b" by (simp add: unat_sub word_le_nat_alt)
  then have "sint (a - b) = int (unat a - unat b)" using assms by (subst sint_small) simp_all
  then have "\<not> sint (a - b) < 0" by linarith
  then show ?thesis using True d by (simp add: abs_diff_i64_def Let_def)
next
  case False
  then have e: "unat (b - a) = unat b - unat a" by (simp add: unat_sub word_le_nat_alt)
  have "sint (a - b) = - int (unat b - unat a)"
  proof -
    have "sint (a - b) = sint (- (b - a))" by simp
    also have "\<dots> = signed_take_bit 63 (- int (unat b - unat a))"
      using e assms by (simp only: sint_word_minus) (simp add: sint_small)
    also have "\<dots> = - int (unat b - unat a)" using assms by (intro signed_take_bit_int_eq_self) auto
    finally show ?thesis .
  qed
  then have "sint (a - b) < 0" using False by linarith
  then show ?thesis using e False by (simp add: abs_diff_i64_def Let_def)
qed

lemma update_rtt_first:
  "srtt_us s = 0 \<Longrightarrow> srtt_us (update_rtt s r) = r \<and> rttvar_us (update_rtt s r) = r div 2"
  by (simp add: update_rtt_def)

lemma update_rtt_next:
  assumes "srtt_us s \<noteq> 0" "unat (srtt_us s) \<le> 2 ^ 60" "unat (rttvar_us s) \<le> 2 ^ 60" "unat r \<le> 2 ^ 60"
  shows "unat (srtt_us (update_rtt s r)) = 7 * unat (srtt_us s) div 8 + unat r div 8"
    and "unat (rttvar_us (update_rtt s r)) = 3 * unat (rttvar_us s) div 4 +
      (if unat r \<le> unat (srtt_us s) then unat (srtt_us s) - unat r else unat r - unat (srtt_us s)) div 4"
proof -
  have m7: "unat (7 * srtt_us s) = 7 * unat (srtt_us s)" and m3: "unat (3 * rttvar_us s) = 3 * unat (rttvar_us s)"
    using assms by (simp_all add: unat_mult_small)
  have d: "unat (abs_diff_i64 (srtt_us s) r) =
      (if unat r \<le> unat (srtt_us s) then unat (srtt_us s) - unat r else unat r - unat (srtt_us s))"
    using assms by (intro unat_abs_diff_i64) auto
  show "unat (srtt_us (update_rtt s r)) = 7 * unat (srtt_us s) div 8 + unat r div 8"
    using assms m7 by (simp add: update_rtt_def Let_def unat_add_small unat_div)
  show "unat (rttvar_us (update_rtt s r)) = 3 * unat (rttvar_us s) div 4 +
      (if unat r \<le> unat (srtt_us s) then unat (srtt_us s) - unat r else unat r - unat (srtt_us s)) div 4"
    using assms m3 d by (simp add: update_rtt_def Let_def unat_add_small unat_div)
qed

lemma int_rttvar:
  "int (3 * v div 4 + (if r \<le> s then s - r else r - s) div 4) =
     3 * int v div 4 + \<bar>int s - int r\<bar> div 4"
  by (simp add: zdiv_int of_nat_diff abs_if)

definition rtt_bounded :: "nat \<Rightarrow> session_stats \<Rightarrow> bool" where
  "rtt_bounded B s \<longleftrightarrow> unat (srtt_us s) \<le> B \<and> unat (rttvar_us s) \<le> B"

lemma rtt_bounded_update:
  assumes "rtt_bounded B s" "unat r \<le> B" "B \<le> 2 ^ 60"
  shows "rtt_bounded B (update_rtt s r)"
proof (cases "srtt_us s = 0")
  case True
  then show ?thesis using assms by (auto simp: rtt_bounded_def update_rtt_first unat_div)
next
  case False
  show ?thesis using assms update_rtt_next[OF False, of r]
    by (auto simp: rtt_bounded_def split: if_splits)
qed

text \<open>
  C37: the round-trip estimators never overflow.  Whatever samples arrive, as long as none
  exceeds a bound of at most \<open>2 ^ 60\<close> microseconds, both estimators stay below the bound, so
  that the wrapping products of \<open>update_rtt\<close> are exact: the next sample moves SRTT to
  7/8 SRTT + 1/8 R and RTTVAR to 3/4 RTTVAR + 1/4 |SRTT - R|, each part rounded down.
\<close>

theorem rtt_estimators_bounded_exact:
  assumes "\<forall>r \<in> set samples. unat r \<le> B" "5000 \<le> B" "B \<le> 2 ^ 60" "unat r \<le> B"
  defines "s \<equiv> fold (\<lambda>r s. update_rtt s r) samples stats_new"
  shows "unat (srtt_us s) \<le> B \<and> unat (rttvar_us s) \<le> B \<and>
     (if srtt_us s = 0 then srtt_us (update_rtt s r) = r \<and> rttvar_us (update_rtt s r) = r div 2
      else unat (srtt_us (update_rtt s r)) = 7 * unat (srtt_us s) div 8 + unat r div 8 \<and>
           int (unat (rttvar_us (update_rtt s r))) =
             3 * int (unat (rttvar_us s)) div 4 + \<bar>int (unat (srtt_us s)) - int (unat r)\<bar> div 4)"
proof -
  have "rtt_bounded B (fold (\<lambda>r s. update_rtt s r) samples s0)" if "rtt_bounded B s0" for s0
    using that assms(1,3)
    by (induction samples arbitrary: s0) (auto intro: rtt_bounded_update[OF _ _ assms(3)])
  then have b: "rtt_bounded B s" using assms(2) by (simp add: s_def rtt_bounded_def stats_new_def)
  show ?thesis
  proof (cases "srtt_us s = 0")
    case True
    then show ?thesis using b by (simp add: update_rtt_first rtt_bounded_def)
  next
    case False
    have "unat (srtt_us s) \<le> 2 ^ 60" "unat (rttvar_us s) \<le> 2 ^ 60" "unat r \<le> 2 ^ 60"
      using b assms by (auto simp: rtt_bounded_def)
    note nxt = update_rtt_next[OF False this]
    have "int (unat (rttvar_us (update_rtt s r))) =
        3 * int (unat (rttvar_us s)) div 4 + \<bar>int (unat (srtt_us s)) - int (unat r)\<bar> div 4"
      unfolding nxt(2) by (rule int_rttvar)
    then show ?thesis using b nxt(1) False by (simp add: rtt_bounded_def)
  qed
qed


theorem rtt_estimators_bounded_exact_witness:
  "let s = fold (\<lambda>r s. update_rtt s r) [20000, 24000] stats_new in
     unat (srtt_us s) \<le> 30000 \<and> unat (rttvar_us s) \<le> 30000"
proof -
  have "\<forall>r \<in> set [20000, 24000 :: u64]. unat r \<le> 30000" "5000 \<le> (30000 :: nat)"
    "(30000 :: nat) \<le> 2 ^ 60" "unat (20000 :: u64) \<le> 30000" by simp_all
  from rtt_estimators_bounded_exact[OF this] show ?thesis by (simp only: Let_def)
qed

text \<open>
  The retransmission timeout is always between 200 ms and 10 s, and it is
  SRTT + 4 RTTVAR whenever that sum lies in this range and RTTVAR is below \<open>2 ^ 60\<close>.
\<close>

theorem rto_clamped:
  "from_millis 200 \<le> rto s \<and> rto s \<le> from_millis 10000 \<and>
   (unat (rttvar_us s) < 2 ^ 60 \<and> 200000 \<le> unat (srtt_us s) + 4 * unat (rttvar_us s) \<and>
    unat (srtt_us s) + 4 * unat (rttvar_us s) \<le> 10000000 \<longrightarrow>
    rto s = from_micros (unat (srtt_us s) + 4 * unat (rttvar_us s)))"
proof -
  have "unat (saturating_add (srtt_us s) (4 * rttvar_us s)) = unat (srtt_us s) + 4 * unat (rttvar_us s)"
    if "unat (rttvar_us s) < 2 ^ 60" "unat (srtt_us s) + 4 * unat (rttvar_us s) \<le> 10000000"
    using that by (simp add: saturating_add_def unat_mult_small unat_add_small)
  then show ?thesis by (auto simp: rto_def clamp_def word_less_nat_alt)
qed

theorem rto_clamped_witness:
  "rto (update_rtt stats_new 100000) = from_micros 300000"
  using rto_clamped[of "update_rtt stats_new 100000"] by (simp add: update_rtt_def stats_new_def)

lemma loss_rate_bounds: "0 \<le> loss_rate s" "loss_rate s \<le> 1"
  using f64_ratio_bounds[of "unat (packets_sent s) - unat (packets_acked s)" "unat (packets_sent s)"]
  by (simp_all add: loss_rate_def Let_def)

lemma goodput_ratio_bounds: "0 \<le> goodput_ratio s" "goodput_ratio s \<le> 1"
  by (simp_all add: goodput_ratio_def Let_def f64_div_def rnd_nonneg)

end
