(* ===== verification/Congestion.thy ===== *)
theory Congestion
  imports Prelude F64
begin

text \<open>
  Rate control (\<^verbatim>\<open>crates/protocol/src/congestion.rs\<close>): the token bucket and the bandwidth
  prober.  A reading of the clock (\<open>Instant::now()\<close>) is an argument of the operation that
  takes it.
\<close>

section \<open>Token bucket\<close>

record token_bucket =
  capacity_bytes :: u64
  tokens :: f64
  rate_bytes_per_sec :: f64
  last_refill :: instant

definition bucket_new :: "instant \<Rightarrow> u64 \<Rightarrow> token_bucket" where
  "bucket_new now rate_bps =
     (let rate_bytes = f64_div (f64_of_nat (unat rate_bps)) 8 in
      \<lparr>capacity_bytes = 3000, tokens = f64_div rate_bytes 1000,
       rate_bytes_per_sec = rate_bytes, last_refill = now\<rparr>)"

definition set_rate :: "token_bucket \<Rightarrow> u64 \<Rightarrow> token_bucket" where
  "set_rate b rate_bps =
     b\<lparr>rate_bytes_per_sec := f64_div (f64_of_nat (unat rate_bps)) 8,
       tokens := min (tokens b) (f64_of_nat (unat (capacity_bytes b)))\<rparr>"

definition as_secs_f64 :: "duration \<Rightarrow> f64" where
  "as_secs_f64 d =
     f64_add (f64_of_nat (d div 1000000000)) (f64_div (f64_of_nat (d mod 1000000000)) 1000000000)"

definition refill :: "instant \<Rightarrow> token_bucket \<Rightarrow> token_bucket" where
  "refill now b =
     (let elapsed = as_secs_f64 (duration_since now (last_refill b)) in
      b\<lparr>last_refill := now,
        tokens := min (f64_add (tokens b) (f64_mul (rate_bytes_per_sec b) elapsed))
                      (f64_of_nat (unat (capacity_bytes b)))\<rparr>)"

definition try_consume :: "token_bucket \<Rightarrow> nat \<Rightarrow> bool \<times> token_bucket" where
  "try_consume b n =
     (if f64_of_nat n \<le> tokens b
      then (True, b\<lparr>tokens := f64_sub (tokens b) (f64_of_nat n)\<rparr>)
      else (False, b))"

section \<open>Bandwidth prober\<close>

definition PROBE_STEPS_BPS :: "u64 list" where
  "PROBE_STEPS_BPS = [10000000, 50000000, 100000000, 200000000, 500000000, 1000000000, 2000000000]"

definition FLOOR_RATE_BPS :: u64 where
  "FLOOR_RATE_BPS = 5000000"

definition PROBE_STEP_MS :: nat where
  "PROBE_STEP_MS = 500"

definition THROTTLE_LOSS_THRESHOLD :: f64 where
  "THROTTLE_LOSS_THRESHOLD = rnd (30 / 100)"

datatype prober_phase = Probing nat | Steady u64 | Throttling

record probe_result =
  res_bytes_sent :: u64
  res_bytes_acked :: u64

definition probe_ratio :: "probe_result \<Rightarrow> f64" where
  "probe_ratio r =
     (if res_bytes_sent r = 0 then 0
      else min (f64_div (f64_of_nat (unat (res_bytes_acked r))) (f64_of_nat (unat (res_bytes_sent r)))) 1)"

record profiler =
  phase :: prober_phase
  probe_results :: "probe_result list"
  step_bytes_sent :: u64
  step_bytes_acked :: u64
  step_start :: instant
  prof_loss_ema :: f64
  best_rate_bps :: u64
  best_goodput :: f64

definition profiler_new :: "instant \<Rightarrow> profiler" where
  "profiler_new now =
     \<lparr>phase = Probing 0,
      probe_results = replicate (length PROBE_STEPS_BPS) \<lparr>res_bytes_sent = 0, res_bytes_acked = 0\<rparr>,
      step_bytes_sent = 0, step_bytes_acked = 0, step_start = now, prof_loss_ema = 0,
      best_rate_bps = PROBE_STEPS_BPS ! 0, best_goodput = 0\<rparr>"

definition reset_step_counters :: "instant \<Rightarrow> profiler \<Rightarrow> profiler" where
  "reset_step_counters now p = p\<lparr>step_bytes_sent := 0, step_bytes_acked := 0, step_start := now\<rparr>"

definition enter_throttle :: "instant \<Rightarrow> profiler \<Rightarrow> u64 option \<times> profiler" where
  "enter_throttle now p =
     (if phase p = Throttling then (None, p)
      else (Some FLOOR_RATE_BPS, reset_step_counters now (p\<lparr>phase := Throttling\<rparr>)))"

definition on_bytes_sent :: "profiler \<Rightarrow> u64 \<Rightarrow> profiler" where
  "on_bytes_sent p n = p\<lparr>step_bytes_sent := step_bytes_sent p + n\<rparr>"

definition step_goodput :: "profiler \<Rightarrow> f64" where
  "step_goodput p =
     min (f64_div (f64_of_nat (unat (step_bytes_acked p))) (f64_of_nat (unat (step_bytes_sent p)))) 1"

definition on_bytes_acked :: "instant \<Rightarrow> profiler \<Rightarrow> u64 \<Rightarrow> u64 option \<times> profiler" where
  "on_bytes_acked now p n =
     (let p1 = p\<lparr>step_bytes_acked := step_bytes_acked p + n\<rparr>;
          p2 = (if 0 < step_bytes_sent p1
                then let step_loss = f64_sub 1 (step_goodput p1)
                     in p1\<lparr>prof_loss_ema := f64_add (f64_mul (rnd (80 / 100)) (prof_loss_ema p1))
                                                  (f64_mul (rnd (20 / 100)) step_loss)\<rparr>
                else p1)
      in if THROTTLE_LOSS_THRESHOLD < prof_loss_ema p2 then enter_throttle now p2 else (None, p2))"

text \<open>
  \<open>evaluate_probe\<close>.  The index of a probe step is below the number of steps, which the
  invariant below keeps: the array accesses cannot panic.
\<close>

definition eval_probing :: "instant \<Rightarrow> profiler \<Rightarrow> nat \<Rightarrow> u64 option \<times> profiler" where
  "eval_probing now p idx =
     (let result = \<lparr>res_bytes_sent = step_bytes_sent p, res_bytes_acked = step_bytes_acked p\<rparr>;
          ratio = probe_ratio result;
          p1 = (if best_goodput p < ratio
                then p\<lparr>best_goodput := ratio, best_rate_bps := PROBE_STEPS_BPS ! idx\<rparr> else p);
          p2 = p1\<lparr>probe_results := (probe_results p1)[idx := result]\<rparr>;
          next_idx = idx + 1
      in if length PROBE_STEPS_BPS \<le> next_idx \<or>
            0 < idx \<and> ratio < f64_mul (probe_ratio (probe_results p2 ! (idx - 1))) (rnd (95 / 100))
         then (Some (best_rate_bps p2), reset_step_counters now (p2\<lparr>phase := Steady (best_rate_bps p2)\<rparr>))
         else (Some (PROBE_STEPS_BPS ! next_idx), reset_step_counters now (p2\<lparr>phase := Probing next_idx\<rparr>)))"

definition eval_steady :: "instant \<Rightarrow> profiler \<Rightarrow> u64 \<Rightarrow> u64 option \<times> profiler" where
  "eval_steady now p rate_bps =
     (let current_goodput = (if 0 < step_bytes_sent p then step_goodput p else 1) in
      if current_goodput < f64_mul (best_goodput p) (rnd (80 / 100))
      then (Some (PROBE_STEPS_BPS ! 0),
            reset_step_counters now (p\<lparr>best_goodput := 0, best_rate_bps := PROBE_STEPS_BPS ! 0,
                                       phase := Probing 0\<rparr>))
      else (Some rate_bps, reset_step_counters now p))"

text \<open>Two readings of the clock: \<open>now\<close> for the time elapsed, \<open>again\<close> when the counters are reset.\<close>

definition evaluate_probe :: "instant \<Rightarrow> instant \<Rightarrow> profiler \<Rightarrow> u64 option \<times> profiler" where
  "evaluate_probe now again p =
     (let elapsed_ms = duration_since now (step_start p) div 1000000 in
      if elapsed_ms < PROBE_STEP_MS then (None, p)
      else case phase p of
             Probing idx \<Rightarrow> eval_probing again p idx
           | Steady rate_bps \<Rightarrow> eval_steady again p rate_bps
           | Throttling \<Rightarrow>
               (Some (PROBE_STEPS_BPS ! 0),
                reset_step_counters again (p\<lparr>phase := Probing 0, best_goodput := 0,
                  best_rate_bps := PROBE_STEPS_BPS ! 0, prof_loss_ema := 0\<rparr>)))"

definition current_rate_bps :: "profiler \<Rightarrow> u64" where
  "current_rate_bps p =
     (case phase p of
        Probing idx \<Rightarrow> PROBE_STEPS_BPS ! idx
      | Steady rate_bps \<Rightarrow> rate_bps
      | Throttling \<Rightarrow> FLOOR_RATE_BPS)"


section \<open>The pacer\<close>

text \<open>
  What the sender relies on: a pacer with an amount it can still give out, from which a
  granted request is taken exactly and a refused one takes nothing.
\<close>

locale pacer =
  fixes inv :: "'b \<Rightarrow> bool" and avail :: "'b \<Rightarrow> rat" and consume :: "'b \<Rightarrow> nat \<Rightarrow> bool \<times> 'b"
  assumes avail_nonneg: "inv b \<Longrightarrow> 0 \<le> avail b"
    and granted: "inv b \<Longrightarrow> consume b n = (True, b') \<Longrightarrow> inv b' \<and> avail b = avail b' + of_nat n"
    and refused: "consume b n = (False, b') \<Longrightarrow> b' = b"
begin

lemma inv_consume: "inv b \<Longrightarrow> inv (snd (consume b n))"
  using granted[of b n] refused[of b n] by (cases "consume b n"; cases "fst (consume b n)") auto

lemma consume_bound:
  assumes "inv b" "consume b n = (True, b')" "avail b' + of_nat m \<le> X"
  shows "avail b + of_nat m \<le> X + of_nat n"
  using granted[OF assms(1,2)] assms(3) by simp

end

definition bucket_inv :: "token_bucket \<Rightarrow> bool" where
  "bucket_inv b \<longleftrightarrow> capacity_bytes b = 3000 \<and> 0 \<le> tokens b \<and> tokens b \<le> 3000 \<and>
     representable (tokens b) \<and> 0 \<le> rate_bytes_per_sec b"

lemma f64_sub_exact:
  assumes "representable x" "of_nat n \<le> x" "x \<le> 3000"
  shows "f64_sub x (of_nat n) = x - of_nat n" and "representable (x - of_nat n)"
proof -
  show r: "representable (x - of_nat n)" using assms by (intro representable_diff) simp_all
  show "f64_sub x (of_nat n) = x - of_nat n" unfolding f64_sub_def by (rule rnd_exact[OF r])
qed

lemma f64_of_nat_le_bucket:
  assumes "f64_of_nat n \<le> x" "x \<le> 3000"
  shows "f64_of_nat n = of_nat n"
proof (rule f64_of_nat_exact)
  have "n \<le> 3001"
  proof (rule ccontr)
    assume "\<not> n \<le> 3001"
    then have "f64_of_nat 3001 \<le> f64_of_nat n" by (intro f64_of_nat_mono) simp
    then show False using assms by simp
  qed
  then show "n \<le> 2 ^ 53" by simp
qed

lemma try_consume_granted:
  assumes "bucket_inv b" "try_consume b n = (True, b')"
  shows "bucket_inv b' \<and> tokens b = tokens b' + of_nat n"
proof -
  have le: "f64_of_nat n \<le> tokens b" and b': "b' = b\<lparr>tokens := f64_sub (tokens b) (f64_of_nat n)\<rparr>"
    using assms(2) by (auto simp: try_consume_def split: if_splits)
  have n: "f64_of_nat n = of_nat n" using le assms(1) by (intro f64_of_nat_le_bucket) (auto simp: bucket_inv_def)
  then show ?thesis using assms(1) le f64_sub_exact[of "tokens b" n]
    by (auto simp: b' bucket_inv_def)
qed

lemma try_consume_refused: "try_consume b n = (False, b') \<Longrightarrow> b' = b"
  by (simp add: try_consume_def split: if_splits)

lemma try_consume_rate: "try_consume b n = (ok, b') \<Longrightarrow> rate_bytes_per_sec b' = rate_bytes_per_sec b"
  by (auto simp: try_consume_def split: if_splits)

interpretation tb: pacer bucket_inv tokens try_consume
proof
  show "0 \<le> tokens b" if "bucket_inv b" for b using that by (simp add: bucket_inv_def)
qed (fact try_consume_granted try_consume_refused)+

lemma bucket_inv_set_rate: "bucket_inv b \<Longrightarrow> bucket_inv (set_rate b r)"
  by (auto simp: bucket_inv_def set_rate_def f64_div_def rnd_nonneg min_def)

lemma as_secs_f64_nonneg: "0 \<le> as_secs_f64 d"
  by (simp add: as_secs_f64_def f64_ops rnd_nonneg)

lemma bucket_inv_refill:
  assumes "bucket_inv b"
  shows "bucket_inv (refill now b)"
proof -
  let ?t = "f64_add (tokens b) (f64_mul (rate_bytes_per_sec b) (as_secs_f64 (duration_since now (last_refill b))))"
  have "0 \<le> ?t" "representable ?t"
    using assms as_secs_f64_nonneg
    by (auto simp: f64_ops bucket_inv_def intro!: rnd_nonneg representable_rnd add_nonneg_nonneg)
  moreover have "representable 3000" using representable_of_nat[of 3000] by simp
  ultimately show ?thesis using assms by (auto simp: bucket_inv_def refill_def Let_def min_def)
qed

lemma bucket_inv_new:
  assumes "rate_bps \<le> 24000000"
  shows "bucket_inv (bucket_new now rate_bps)"
proof -
  define x where "x = f64_of_nat (unat rate_bps)"
  have "x \<le> f64_of_nat 24000000"
    unfolding x_def using assms by (intro f64_of_nat_mono) (simp add: word_le_nat_alt)
  moreover have x0: "0 \<le> x" by (simp add: x_def)
  ultimately have "rnd (x / 8) \<le> of_nat 3000000" by (intro rnd_le_of_nat) simp_all
  then have "rnd (rnd (x / 8) / 1000) \<le> of_nat 3000" by (intro rnd_le_of_nat) simp_all
  then show ?thesis using x0
    by (auto simp: bucket_inv_def bucket_new_def Let_def f64_div_def x_def[symmetric]
        intro!: rnd_nonneg representable_rnd)
qed

lemma bucket_inv_initial: "bucket_inv (bucket_new now 10000000)"
  by (rule bucket_inv_new) simp

text \<open>At 10 Mbit/s and more the bucket is full after a second.\<close>

lemma refill_second:
  assumes "bucket_inv b" "1250000 \<le> rate_bytes_per_sec b"
  shows "tokens (refill (last_refill b + 1000000000) b) = 3000"
proof -
  have el: "as_secs_f64 (duration_since (last_refill b + 1000000000) (last_refill b)) = 1"
    by (simp add: as_secs_f64_def duration_since_def f64_ops)
  have "rnd 1250000 \<le> rnd (rate_bytes_per_sec b)" using assms(2) by (rule rnd_mono)
  then have r: "1250000 \<le> rnd (rate_bytes_per_sec b)" by simp
  have "rnd 1250000 \<le> rnd (tokens b + rnd (rate_bytes_per_sec b))"
    using r assms(1) by (intro rnd_mono) (simp add: bucket_inv_def)
  then have "3000 \<le> f64_add (tokens b) (f64_mul (rate_bytes_per_sec b) 1)" by (simp add: f64_ops)
  then show ?thesis using assms(1) by (simp add: refill_def el bucket_inv_def Let_def)
qed

section \<open>The prober\<close>

text \<open>The events of the prober: bytes sent, bytes acknowledged, and the probe timer.\<close>

inductive prober_step :: "profiler \<Rightarrow> profiler \<Rightarrow> bool" where
  sent: "prober_step p (on_bytes_sent p n)"
| acked: "prober_step p (snd (on_bytes_acked now p n))"
| timer: "prober_step p (snd (evaluate_probe now again p))"

inductive prober_reachable :: "profiler \<Rightarrow> bool" where
  start: "prober_reachable (profiler_new now)"
| step: "prober_reachable p \<Longrightarrow> prober_step p p' \<Longrightarrow> prober_reachable p'"

definition prober_inv :: "profiler \<Rightarrow> bool" where
  "prober_inv p \<longleftrightarrow> length (probe_results p) = 7 \<and> best_rate_bps p \<in> set PROBE_STEPS_BPS \<and>
     0 \<le> best_goodput p \<and> best_goodput p \<le> 1 \<and> 0 \<le> prof_loss_ema p \<and> prof_loss_ema p \<le> 1 \<and>
     (case phase p of Probing i \<Rightarrow> i < 7 | Steady r \<Rightarrow> r \<in> set PROBE_STEPS_BPS | Throttling \<Rightarrow> True) \<and>
     (THROTTLE_LOSS_THRESHOLD < prof_loss_ema p \<longrightarrow> phase p = Throttling)"

lemma length_PROBE_STEPS [simp]: "length PROBE_STEPS_BPS = 7"
  by (simp add: PROBE_STEPS_BPS_def)

lemma PROBE_STEPS_nth [simp]: "i < 7 \<Longrightarrow> PROBE_STEPS_BPS ! i \<in> set PROBE_STEPS_BPS"
  by (rule nth_mem) simp

lemma threshold_value: "THROTTLE_LOSS_THRESHOLD = 5404319552844595 / 2 ^ 54"
  unfolding THROTTLE_LOSS_THRESHOLD_def using rnd_eqI[of "- 2" "30 / 100" 5404319552844595] by simp

lemma threshold_pos: "0 < THROTTLE_LOSS_THRESHOLD"
  by (simp add: threshold_value)

lemma ema_weights:
  "rnd (80 / 100) = 7205759403792794 / 2 ^ 53" "rnd (20 / 100) = 7205759403792794 / 2 ^ 55"
  using rnd_eqI[of "- 1" "80 / 100" 7205759403792794] rnd_eqI[of "- 3" "20 / 100" 7205759403792794]
  by simp_all

lemma ema_weights_sum: "rnd (rnd (80 / 100) + rnd (20 / 100)) = 1"
  unfolding ema_weights using rnd_eqI[of 0 "7205759403792794 / 2 ^ 53 + 7205759403792794 / 2 ^ 55" "2 ^ 52"]
  by simp

lemma step_goodput_bounds: "0 \<le> step_goodput p" "step_goodput p \<le> 1"
  by (simp_all add: step_goodput_def f64_div_def rnd_nonneg)

lemma probe_ratio_bounds: "0 \<le> probe_ratio r" "probe_ratio r \<le> 1"
  by (simp_all add: probe_ratio_def f64_div_def rnd_nonneg)

lemma loss_ema_bounds:
  assumes "0 \<le> x" "x \<le> 1"
  shows "0 \<le> f64_add (f64_mul (rnd (80 / 100)) x) (f64_mul (rnd (20 / 100)) (f64_sub 1 (step_goodput p)))"
    and "f64_add (f64_mul (rnd (80 / 100)) x) (f64_mul (rnd (20 / 100)) (f64_sub 1 (step_goodput p))) \<le> 1"
proof -
  have "0 \<le> f64_sub 1 (step_goodput p)" "f64_sub 1 (step_goodput p) \<le> 1"
    using step_goodput_bounds[of p] by (simp_all add: f64_sub_def rnd_nonneg rnd_le_one)
  then show "0 \<le> f64_add (f64_mul (rnd (80 / 100)) x) (f64_mul (rnd (20 / 100)) (f64_sub 1 (step_goodput p)))"
    and "f64_add (f64_mul (rnd (80 / 100)) x) (f64_mul (rnd (20 / 100)) (f64_sub 1 (step_goodput p))) \<le> 1"
    using assms ema_weights_sum
    by (auto intro!: f64_ema_bounds rnd_nonneg representable_rnd)
qed


text \<open>The phase automaton the comments of the source describe.\<close>

fun phase_edge :: "prober_phase \<Rightarrow> prober_phase \<Rightarrow> bool" where
  "phase_edge (Probing i) (Probing j) \<longleftrightarrow> j = i \<or> j = i + 1"
| "phase_edge (Probing i) (Steady r) \<longleftrightarrow> True"
| "phase_edge (Steady r) (Probing j) \<longleftrightarrow> j = 0"
| "phase_edge (Steady r) (Steady r') \<longleftrightarrow> r' = r"
| "phase_edge Throttling (Probing j) \<longleftrightarrow> j = 0"
| "phase_edge Throttling (Steady r) \<longleftrightarrow> False"
| "phase_edge _ Throttling \<longleftrightarrow> True"

lemma reset_step_counters_simps [simp]:
  "phase (reset_step_counters now p) = phase p" "probe_results (reset_step_counters now p) = probe_results p"
  "prof_loss_ema (reset_step_counters now p) = prof_loss_ema p"
  "best_rate_bps (reset_step_counters now p) = best_rate_bps p"
  "best_goodput (reset_step_counters now p) = best_goodput p"
  by (simp_all add: reset_step_counters_def)

lemma eval_probing_step:
  assumes "prober_inv p" "phase p = Probing i"
  shows "prober_inv (snd (eval_probing now p i)) \<and> phase_edge (phase p) (phase (snd (eval_probing now p i))) \<and>
     fst (eval_probing now p i) = Some (current_rate_bps (snd (eval_probing now p i)))"
  using assms probe_ratio_bounds threshold_pos
  by (auto simp: eval_probing_def Let_def prober_inv_def current_rate_bps_def)

lemma eval_steady_step:
  assumes "prober_inv p" "phase p = Steady r"
  shows "prober_inv (snd (eval_steady now p r)) \<and> phase_edge (phase p) (phase (snd (eval_steady now p r))) \<and>
     fst (eval_steady now p r) = Some (current_rate_bps (snd (eval_steady now p r)))"
  using assms by (auto simp: eval_steady_def Let_def prober_inv_def current_rate_bps_def)

lemma evaluate_probe_step:
  assumes "prober_inv p"
  shows "prober_inv (snd (evaluate_probe now again p)) \<and> phase_edge (phase p) (phase (snd (evaluate_probe now again p))) \<and>
     (\<forall>r. fst (evaluate_probe now again p) = Some r \<longrightarrow> r = current_rate_bps (snd (evaluate_probe now again p)))"
proof (cases "duration_since now (step_start p) div 1000000 < PROBE_STEP_MS")
  case True
  then show ?thesis using assms by (cases "phase p") (simp_all add: evaluate_probe_def)
next
  case False
  show ?thesis
  proof (cases "phase p")
    case (Probing i)
    then show ?thesis using False eval_probing_step[OF assms Probing, of again]
      by (simp add: evaluate_probe_def)
  next
    case (Steady r)
    then show ?thesis using False eval_steady_step[OF assms Steady, of again]
      by (simp add: evaluate_probe_def)
  next
    case Throttling
    then show ?thesis using False assms threshold_pos
      by (auto simp: evaluate_probe_def prober_inv_def current_rate_bps_def)
  qed
qed

text \<open>Every rate that the timer reports is one of the probe steps, 10 Mbit/s or more.\<close>

lemma evaluate_probe_rate:
  assumes "prober_inv p" "evaluate_probe now again p = (Some r, p')"
  shows "r \<in> set PROBE_STEPS_BPS"
proof -
  have "phase p' \<noteq> Throttling" using assms(2)
    by (auto simp: evaluate_probe_def eval_probing_def eval_steady_def Let_def
        split: if_splits prober_phase.splits)
  moreover have "prober_inv p'" "r = current_rate_bps p'"
    using evaluate_probe_step[OF assms(1), of now again] assms(2) by simp_all
  ultimately show ?thesis by (cases "phase p'") (simp_all add: prober_inv_def current_rate_bps_def)
qed

lemma set_rate_floor: "r \<in> set PROBE_STEPS_BPS \<Longrightarrow> 1250000 \<le> rate_bytes_per_sec (set_rate b r)"
  by (auto simp: PROBE_STEPS_BPS_def set_rate_def f64_div_def)

lemma enter_throttle_step:
  assumes "prober_inv (p\<lparr>prof_loss_ema := 0\<rparr>)" "0 \<le> prof_loss_ema p" "prof_loss_ema p \<le> 1"
  shows "prober_inv (snd (enter_throttle now p)) \<and> phase (snd (enter_throttle now p)) = Throttling \<and>
     fst (enter_throttle now p) = (if phase p = Throttling then None else Some FLOOR_RATE_BPS)"
  using assms by (auto simp: enter_throttle_def prober_inv_def split: prober_phase.splits)

lemma on_bytes_acked_step:
  assumes "prober_inv p"
  shows "prober_inv (snd (on_bytes_acked now p n)) \<and>
     phase (snd (on_bytes_acked now p n)) =
       (if THROTTLE_LOSS_THRESHOLD < prof_loss_ema (snd (on_bytes_acked now p n)) then Throttling else phase p) \<and>
     fst (on_bytes_acked now p n) =
       (if phase (snd (on_bytes_acked now p n)) = Throttling \<and> phase p \<noteq> Throttling
        then Some FLOOR_RATE_BPS else None)"
proof -
  let ?p1 = "p\<lparr>step_bytes_acked := step_bytes_acked p + n\<rparr>"
  let ?ema = "f64_add (f64_mul (rnd (80 / 100)) (prof_loss_ema p))
      (f64_mul (rnd (20 / 100)) (f64_sub 1 (step_goodput ?p1)))"
  define p2 where "p2 = (if 0 < step_bytes_sent p then ?p1\<lparr>prof_loss_ema := ?ema\<rparr> else ?p1)"
  have eq: "on_bytes_acked now p n =
      (if THROTTLE_LOSS_THRESHOLD < prof_loss_ema p2 then enter_throttle now p2 else (None, p2))"
    by (simp add: on_bytes_acked_def p2_def Let_def)
  have b: "0 \<le> prof_loss_ema p2" "prof_loss_ema p2 \<le> 1" and ph: "phase p2 = phase p"
    using assms loss_ema_bounds[of "prof_loss_ema p" ?p1] by (auto simp: p2_def prober_inv_def)
  have inv0: "prober_inv (p2\<lparr>prof_loss_ema := 0\<rparr>)"
    using assms threshold_pos by (auto simp: p2_def prober_inv_def)
  show ?thesis
  proof (cases "THROTTLE_LOSS_THRESHOLD < prof_loss_ema p2")
    case True
    have "prof_loss_ema (snd (enter_throttle now p2)) = prof_loss_ema p2"
      by (simp add: enter_throttle_def)
    then show ?thesis using True enter_throttle_step[OF inv0 b, of now] by (simp add: eq ph)
  next
    case False
    then show ?thesis using inv0 b ph by (auto simp: eq prober_inv_def)
  qed
qed

lemma prober_inv_sent: "prober_inv p \<Longrightarrow> prober_inv (on_bytes_sent p n)"
  by (auto simp: on_bytes_sent_def prober_inv_def)

lemma prober_inv_new: "prober_inv (profiler_new now)"
  using threshold_pos by (simp add: profiler_new_def prober_inv_def)

lemma prober_step_inv:
  assumes "prober_step p p'" "prober_inv p"
  shows "prober_inv p' \<and> phase_edge (phase p) (phase p')"
  using assms
proof (cases rule: prober_step.cases)
  case (sent n)
  then show ?thesis using assms(2)
    by (cases "phase p") (simp_all add: prober_inv_sent, simp_all add: on_bytes_sent_def)
next
  case (acked now n)
  then show ?thesis using on_bytes_acked_step[OF assms(2), of now n]
    by (cases "phase p") (auto split: if_splits)
next
  case (timer now)
  then show ?thesis using evaluate_probe_step[OF assms(2)] by simp
qed

lemma prober_reachable_inv: "prober_reachable p \<Longrightarrow> prober_inv p"
  by (induction rule: prober_reachable.induct) (auto simp: prober_inv_new dest: prober_step_inv)


text \<open>
  The token bucket never lends.  On every state the sender can bring its bucket into (a
  bucket of at most 24 Mbit/s at the start, then any rate changes, refills and requests) the
  tokens stay between 0 and the 3000 bytes of capacity; a granted request takes exactly its
  bytes, a refused one takes nothing and was larger than what was there.
\<close>

theorem token_bucket_conforms:
  assumes "bucket_inv b"
  shows "bucket_inv (set_rate b r) \<and> bucket_inv (refill now b) \<and> bucket_inv (snd (try_consume b n)) \<and>
     0 \<le> tokens b \<and> tokens b \<le> of_nat (unat (capacity_bytes b)) \<and>
     (if of_nat n \<le> tokens b
      then fst (try_consume b n) \<and> tokens (snd (try_consume b n)) = tokens b - of_nat n
      else \<not> fst (try_consume b n) \<and> snd (try_consume b n) = b)"
proof -
  have b: "0 \<le> tokens b" "tokens b \<le> 3000" "capacity_bytes b = 3000" using assms by (auto simp: bucket_inv_def)
  have iff: "f64_of_nat n \<le> tokens b \<longleftrightarrow> of_nat n \<le> tokens b"
  proof
    assume "f64_of_nat n \<le> tokens b"
    then show "of_nat n \<le> tokens b" using f64_of_nat_le_bucket[of n "tokens b"] b by simp
  next
    assume le: "of_nat n \<le> tokens b"
    then have "(of_nat n :: rat) \<le> of_nat 3000" using b by simp
    then have "n \<le> 3000" by (simp only: of_nat_le_iff)
    then show "f64_of_nat n \<le> tokens b" using le by simp
  qed
  have "fst (try_consume b n) \<longleftrightarrow> of_nat n \<le> tokens b" by (simp add: try_consume_def iff)
  moreover have "tokens (snd (try_consume b n)) = tokens b - of_nat n" if "fst (try_consume b n)"
    using that tb.granted[OF assms, of n "snd (try_consume b n)"] by (cases "try_consume b n") auto
  moreover have "snd (try_consume b n) = b" if "\<not> fst (try_consume b n)"
    using that tb.refused[of b n "snd (try_consume b n)"] by (cases "try_consume b n") auto
  ultimately show ?thesis
    using assms b by (simp add: bucket_inv_set_rate bucket_inv_refill tb.inv_consume)
qed

theorem token_bucket_conforms_witness:
  "let b = bucket_new 0 10000000 in
     bucket_inv b \<and> bucket_inv (refill 1000000 b) \<and> \<not> fst (try_consume b 3001)"
proof -
  have inv: "bucket_inv (bucket_new 0 10000000)" by (rule bucket_inv_initial)
  have "tokens (bucket_new 0 10000000) \<le> 3000" using inv by (simp add: bucket_inv_def)
  then show ?thesis using inv token_bucket_conforms[OF inv, of 0 1000000 3001]
    by (auto simp: Let_def)
qed

text \<open>
  C28: the prober follows its phase automaton.  In every reachable state the probe index is
  inside the rate table (no array access can fail), the estimates lie in the unit interval, the
  target rate is one of the seven probe rates or the 5 Mbit/s floor, and a loss estimate above
  30 percent means that the prober is throttling at the floor; every event moves the phase
  along an edge of the automaton, and a rate reported by the timer is the rate of the new phase.
\<close>

theorem prober_automaton:
  assumes "prober_reachable p" "prober_step p p'"
  shows "(\<forall>i. phase p = Probing i \<longrightarrow> i < length PROBE_STEPS_BPS) \<and>
     0 \<le> prof_loss_ema p \<and> prof_loss_ema p \<le> 1 \<and> 0 \<le> best_goodput p \<and> best_goodput p \<le> 1 \<and>
     current_rate_bps p \<in> set PROBE_STEPS_BPS \<union> {FLOOR_RATE_BPS} \<and>
     (THROTTLE_LOSS_THRESHOLD < prof_loss_ema p \<longrightarrow> current_rate_bps p = FLOOR_RATE_BPS) \<and>
     phase_edge (phase p) (phase p') \<and>
     (\<forall>now again r. fst (evaluate_probe now again p) = Some r \<longrightarrow> r = current_rate_bps (snd (evaluate_probe now again p)))"
proof -
  have inv: "prober_inv p" using assms(1) by (rule prober_reachable_inv)
  then have "current_rate_bps p \<in> set PROBE_STEPS_BPS \<union> {FLOOR_RATE_BPS}"
    by (cases "phase p") (auto simp: prober_inv_def current_rate_bps_def)
  moreover have "THROTTLE_LOSS_THRESHOLD < prof_loss_ema p \<longrightarrow> current_rate_bps p = FLOOR_RATE_BPS"
    using inv by (auto simp: prober_inv_def current_rate_bps_def)
  ultimately show ?thesis
    using inv prober_step_inv[OF assms(2) inv] evaluate_probe_step[OF inv]
    by (auto simp: prober_inv_def)
qed

theorem prober_automaton_witness:
  "phase_edge (phase (profiler_new 0)) (phase (on_bytes_sent (profiler_new 0) 7)) \<and>
   current_rate_bps (profiler_new 0) \<in> set PROBE_STEPS_BPS \<union> {FLOOR_RATE_BPS}"
  using prober_automaton[OF prober_reachable.start prober_step.sent, of 0 7] by blast

text \<open>
  A probing run on a link that loses nothing: in each step some bytes are sent, all of them
  are acknowledged, and the timer fires after at least a step's time.
\<close>

fun lossless_run :: "profiler \<Rightarrow> (duration \<times> instant \<times> u64) list \<Rightarrow> profiler" where
  "lossless_run p [] = p"
| "lossless_run p ((dt, again, n) # steps) =
     (let now = step_start p + int dt
      in lossless_run (snd (evaluate_probe now again (snd (on_bytes_acked now (on_bytes_sent p n) n)))) steps)"

definition lossless_inv :: "nat \<Rightarrow> profiler \<Rightarrow> bool" where
  "lossless_inv i p \<longleftrightarrow> phase p = Probing i \<and> best_rate_bps p = 10000000 \<and> prof_loss_ema p = 0 \<and>
     step_bytes_sent p = 0 \<and> step_bytes_acked p = 0 \<and> length (probe_results p) = 7 \<and>
     best_goodput p = (if i = 0 then 0 else 1) \<and> (0 < i \<longrightarrow> probe_ratio (probe_results p ! (i - 1)) = 1)"

lemma f64_div_self: "x \<noteq> 0 \<Longrightarrow> f64_div x x = 1"
  by (simp add: f64_div_def)

lemma lossless_acked:
  assumes "lossless_inv i p" "n \<noteq> 0"
  shows "on_bytes_acked now (on_bytes_sent p n) n = (None, p\<lparr>step_bytes_sent := n, step_bytes_acked := n\<rparr>)"
  using assms threshold_pos
  by (simp add: on_bytes_acked_def on_bytes_sent_def lossless_inv_def Let_def step_goodput_def f64_div_self
      f64_sub_def f64_add_def f64_mul_def word_gt_0 unat_eq_0)

lemma rnd_95_le: "rnd (95 / 100) \<le> 1"
  by (rule rnd_le_one) simp

lemma lossless_eval:
  assumes "lossless_inv i p" "n \<noteq> 0" "i < 7" "500 \<le> duration_since now (step_start p) div 1000000"
  shows "let p' = snd (evaluate_probe now again (p\<lparr>step_bytes_sent := n, step_bytes_acked := n\<rparr>)) in
     if i < 6 then lossless_inv (Suc i) p' else phase p' = Steady 10000000"
proof -
  have ratio: "probe_ratio \<lparr>res_bytes_sent = n, res_bytes_acked = n\<rparr> = 1"
    using assms(2) by (simp add: probe_ratio_def f64_div_self unat_eq_0)
  have "\<not> 1 < f64_mul 1 (rnd (95 / 100))"
    using rnd_95_le rnd_exact[OF representable_rnd, of "95 / 100"] by (simp add: f64_mul_def)
  then show ?thesis using assms ratio
    by (auto simp: evaluate_probe_def lossless_inv_def eval_probing_def Let_def PROBE_STEP_MS_def
        reset_step_counters_def PROBE_STEPS_BPS_def nth_list_update)
qed

lemma lossless_run_inv:
  assumes "lossless_inv i p" "i + length steps \<le> 6" "\<forall>(dt, again, n) \<in> set steps. from_millis 500 \<le> dt \<and> n \<noteq> 0"
  shows "lossless_inv (i + length steps) (lossless_run p steps)"
  using assms
proof (induction steps arbitrary: i p)
  case (Cons st steps)
  obtain dt again n where st: "st = (dt, again, n)" by (cases st)
  have dt: "from_millis 500 \<le> dt" "n \<noteq> 0" using Cons.prems st by auto
  have "500 \<le> duration_since (step_start p + int dt) (step_start p) div 1000000"
    using dt by (simp add: duration_since_def less_eq_div_iff_mult_less_eq)
  then have "lossless_inv (Suc i) (lossless_run p [st])"
    using lossless_eval[OF Cons.prems(1) dt(2)] Cons.prems(2) lossless_acked[OF Cons.prems(1) dt(2)]
    by (simp add: st Let_def)
  then show ?case using Cons.IH[of "Suc i" "lossless_run p [st]"] Cons.prems by (simp add: st Let_def)
qed simp



end
