(* ===== verification/Sender.thy ===== *)
theory Sender
  imports Packet Sack Session Congestion
begin

text \<open>
  The sending task (\<^verbatim>\<open>crates/protocol/src/sender.rs\<close>): the store of packets in flight, the
  two retransmit queues, the processing of a SACK, the cutting of a payload into DATA packets,
  the batch builder behind \<open>sendmmsg\<close> and one iteration of the task's loop.

  The in-flight \<open>HashMap\<close> is a map; the order in which it is iterated, which the language
  leaves open, is an argument (\<open>key_order\<close>: an enumeration of a set of keys), as are the
  readings of the clocks and the answer of the \<open>sendmmsg\<close> system call.  The task's loop is
  one function per iteration; the step relation below lets the environment choose the event,
  the readings and the pushes of other tasks into the shared queue.
\<close>

section \<open>State\<close>

datatype sender_command = SendChunk bytes | Shutdown

record in_flight_entry =
  ent_datagram :: bytes
  last_sent :: instant
  nak_count :: u8

definition BATCH_SIZE :: nat where
  "BATCH_SIZE = 64"

definition MAX_PAYLOAD :: nat where
  "MAX_PAYLOAD = 1443"

record sender =
  s_session_id :: u32
  urgent_retransmits :: "u64 list"
  normal_retransmits :: "u64 list"
  in_flight :: "u64 \<rightharpoonup> in_flight_entry"
  next_seq :: u64
  s_pacer :: token_bucket
  s_profiler :: profiler
  stats :: session_stats

definition sender_new :: "instant \<Rightarrow> instant \<Rightarrow> u32 \<Rightarrow> session_stats \<Rightarrow> sender" where
  "sender_new now now' sid st =
     \<lparr>s_session_id = sid, urgent_retransmits = [], normal_retransmits = [], in_flight = Map.empty,
      next_seq = 0, s_pacer = bucket_new now 10000000, s_profiler = profiler_new now', stats = st\<rparr>"

text \<open>A push through the handle that \<open>urgent_queue\<close> gives to another task.\<close>

definition push_urgent :: "u64 \<Rightarrow> sender \<Rightarrow> sender" where
  "push_urgent seq s = s\<lparr>urgent_retransmits := urgent_retransmits s @ [seq]\<rparr>"

section \<open>Selective acknowledgements\<close>

definition sack_acks :: "sack_payload \<Rightarrow> u64 \<Rightarrow> bool" where
  "sack_acks sack seq \<longleftrightarrow> seq < base_seq sack \<or> is_received sack seq"

text \<open>The loop that removes the acknowledged packets and counts their bytes.\<close>

fun remove_acked :: "u64 list \<Rightarrow> sender \<Rightarrow> u64 \<Rightarrow> sender \<times> u64" where
  "remove_acked [] s total_bytes = (s, total_bytes)"
| "remove_acked (seq # acked) s total_bytes =
     (case in_flight s seq of
        None \<Rightarrow> remove_acked acked s total_bytes
      | Some entry \<Rightarrow>
          remove_acked acked
            (s\<lparr>in_flight := (in_flight s)(seq := None),
               stats := (stats s)\<lparr>packets_acked := packets_acked (stats s) + 1\<rparr>\<rparr>)
            (total_bytes + of_nat (length (ent_datagram entry))))"

text \<open>The loop over the packets that stay in flight: count the gap and queue a retransmit.\<close>

fun mark_gaps :: "sack_payload \<Rightarrow> u64 list \<Rightarrow> sender \<Rightarrow> sender" where
  "mark_gaps sack [] s = s"
| "mark_gaps sack (seq # ks) s =
     (case in_flight s seq of
        None \<Rightarrow> mark_gaps sack ks s
      | Some entry \<Rightarrow>
          if base_seq sack \<le> seq \<and> \<not> is_received sack seq then
            let n = nak_count entry + 1 in
            if 2 \<le> n
            then mark_gaps sack ks (s\<lparr>urgent_retransmits := urgent_retransmits s @ [seq],
                   in_flight := (in_flight s)(seq \<mapsto> entry\<lparr>nak_count := 0\<rparr>)\<rparr>)
            else mark_gaps sack ks (s\<lparr>normal_retransmits := normal_retransmits s @ [seq],
                   in_flight := (in_flight s)(seq \<mapsto> entry\<lparr>nak_count := n\<rparr>)\<rparr>)
          else mark_gaps sack ks s)"

definition process_sack :: "(u64 set \<Rightarrow> u64 list) \<Rightarrow> instant \<Rightarrow> sack_payload \<Rightarrow> sender \<Rightarrow> sender" where
  "process_sack key_order now sack s =
     (let acked_seqs = filter (sack_acks sack) (key_order (dom (in_flight s)));
          (s1, total_bytes) = remove_acked acked_seqs s 0;
          s2 = s1\<lparr>stats := (stats s1)\<lparr>bytes_acked := bytes_acked (stats s1) + total_bytes\<rparr>,
                  s_profiler := snd (on_bytes_acked now (s_profiler s1) total_bytes)\<rparr>
      in mark_gaps sack (key_order (dom (in_flight s2))) s2)"

section \<open>New data\<close>

text \<open>
  \<open>now_us i\<close> and \<open>now i\<close> are the clock readings for the \<open>i\<close>-th chunk.  A new packet is
  marked as unsent by a transmission time one second in the past.
\<close>

fun enqueue_chunks :: "(nat \<Rightarrow> u64) \<Rightarrow> (nat \<Rightarrow> instant) \<Rightarrow> nat \<Rightarrow> bytes list \<Rightarrow> sender \<Rightarrow> sender" where
  "enqueue_chunks now_us now i [] s = s"
| "enqueue_chunks now_us now i (chunk # cs) s =
     (let seq = next_seq s;
          header = new_data (s_session_id s) seq (now_us i) (of_nat (length chunk))
      in enqueue_chunks now_us now (Suc i) cs
           (s\<lparr>in_flight := (in_flight s)(seq \<mapsto>
                \<lparr>ent_datagram = datagram header chunk, last_sent = now i - 1000000000, nak_count = 0\<rparr>),
              next_seq := seq + 1\<rparr>))"

definition enqueue_data :: "(nat \<Rightarrow> u64) \<Rightarrow> (nat \<Rightarrow> instant) \<Rightarrow> bytes \<Rightarrow> sender \<Rightarrow> sender" where
  "enqueue_data now_us now data s = enqueue_chunks now_us now 0 (chunks MAX_PAYLOAD data) s"

section \<open>The batch\<close>

text \<open>
  The retransmit loop over one of the two queues.  It stops when the batch is full, the queue
  is empty, or the pacer refuses a packet, which then goes to the back of the queue.  The
  reading \<open>now n\<close> is the one taken when the batch holds \<open>n\<close> packets.
\<close>

fun retransmit :: "(nat \<Rightarrow> instant) \<Rightarrow> u64 list \<Rightarrow> sender \<Rightarrow> bytes list \<Rightarrow> u64 list \<times> sender \<times> bytes list" where
  "retransmit now [] s batch = ([], s, batch)"
| "retransmit now (seq # queue) s batch =
     (if BATCH_SIZE \<le> length batch then (seq # queue, s, batch)
      else case in_flight s seq of
        None \<Rightarrow> retransmit now queue s batch
      | Some entry \<Rightarrow>
          (case try_consume (s_pacer s) (length (ent_datagram entry)) of
             (True, b) \<Rightarrow>
               retransmit now queue
                 (s\<lparr>s_pacer := b,
                    in_flight := (in_flight s)(seq \<mapsto> entry\<lparr>last_sent := now (length batch)\<rparr>),
                    stats := (stats s)\<lparr>retransmits := retransmits (stats s) + 1\<rparr>\<rparr>)
                 (batch @ [ent_datagram entry])
           | (False, b) \<Rightarrow> (queue @ [seq], s\<lparr>s_pacer := b\<rparr>, batch)))"

definition send_urgent :: "(nat \<Rightarrow> instant) \<Rightarrow> sender \<Rightarrow> bytes list \<Rightarrow> sender \<times> bytes list" where
  "send_urgent now s batch =
     (let (q, s', batch') = retransmit now (urgent_retransmits s) s batch
      in (s'\<lparr>urgent_retransmits := q\<rparr>, batch'))"

definition send_normal :: "(nat \<Rightarrow> instant) \<Rightarrow> sender \<Rightarrow> bytes list \<Rightarrow> sender \<times> bytes list" where
  "send_normal now s batch =
     (let (q, s', batch') = retransmit now (normal_retransmits s) s batch
      in (s'\<lparr>normal_retransmits := q\<rparr>, batch'))"

text \<open>The unsent entries: \<open>seen seq\<close> is the reading taken when the entry is examined.\<close>

definition is_unsent :: "(u64 \<Rightarrow> instant) \<Rightarrow> duration \<Rightarrow> sender \<Rightarrow> u64 \<Rightarrow> bool" where
  "is_unsent seen rto_now s seq =
     (case in_flight s seq of
        None \<Rightarrow> False
      | Some e \<Rightarrow> rto_now < duration_since (seen seq) (last_sent e) \<and> nak_count e = 0)"

fun send_unsent :: "(nat \<Rightarrow> instant) \<Rightarrow> u64 list \<Rightarrow> sender \<Rightarrow> bytes list \<Rightarrow> sender \<times> bytes list" where
  "send_unsent now [] s batch = (s, batch)"
| "send_unsent now (seq # unsent) s batch =
     (case in_flight s seq of
        None \<Rightarrow> send_unsent now unsent s batch
      | Some entry \<Rightarrow>
          (case try_consume (s_pacer s) (length (ent_datagram entry)) of
             (True, b) \<Rightarrow>
               send_unsent now unsent
                 (s\<lparr>s_pacer := b,
                    in_flight := (in_flight s)(seq \<mapsto> entry\<lparr>last_sent := now (length batch)\<rparr>)\<rparr>)
                 (batch @ [ent_datagram entry])
           | (False, b) \<Rightarrow> (s\<lparr>s_pacer := b\<rparr>, batch)))"

definition build_batch ::
  "(u64 set \<Rightarrow> u64 list) \<Rightarrow> (nat \<Rightarrow> instant) \<Rightarrow> (u64 \<Rightarrow> instant) \<Rightarrow> sender \<Rightarrow> sender \<times> bytes list" where
  "build_batch key_order now seen s =
     (let (s1, b1) = send_urgent now s [];
          (s2, b2) = send_normal now s1 b1;
          unsent = take (BATCH_SIZE - length b2)
                     (filter (is_unsent seen (rto (stats s2)) s2) (key_order (dom (in_flight s2))))
      in send_unsent now unsent s2 b2)"

text \<open>
  \<open>sendmmsg\<close> answers with its return value and the \<open>msg_len\<close> fields it filled in; taking
  more of them than there are messages would panic.
\<close>

type_synonym sendmmsg = "bytes list \<Rightarrow> int \<times> u32 list"

definition send_batch_sendmmsg :: "sendmmsg \<Rightarrow> bytes list \<Rightarrow> u64 outcome" where
  "send_batch_sendmmsg sendmmsg batch =
     (let (sent, msg_lens) = sendmmsg batch in
      if sent \<le> 0 then Return 0
      else if length msg_lens < nat sent then Panic
      else Return (sum_list (map ucast (take (nat sent) msg_lens))))"

definition send_batch ::
  "sendmmsg \<Rightarrow> (u64 set \<Rightarrow> u64 list) \<Rightarrow> (nat \<Rightarrow> instant) \<Rightarrow> (u64 \<Rightarrow> instant) \<Rightarrow> sender \<Rightarrow>
   (sender \<times> bytes list) outcome" where
  "send_batch sendmmsg key_order now seen s =
     (let (s1, batch) = build_batch key_order now seen s in
      if batch = [] then Return (s1, [])
      else case send_batch_sendmmsg sendmmsg batch of
        Panic \<Rightarrow> Panic
      | Return total_bytes \<Rightarrow>
          Return (s1\<lparr>stats := (stats s1)\<lparr>bytes_sent := bytes_sent (stats s1) + total_bytes,
                       packets_sent := packets_sent (stats s1) + of_nat (length batch)\<rparr>,
                     s_profiler := on_bytes_sent (s_profiler s1) total_bytes\<rparr>,
                  take (nat (fst (sendmmsg batch))) batch))"

section \<open>The loop\<close>

datatype sender_event = ProbeTick | SackEvent sack_payload | CommandEvent sender_command

text \<open>What one iteration reads from its environment.\<close>

record readings =
  key_order :: "u64 set \<Rightarrow> u64 list"
  event_now :: instant
  probe_reset_now :: instant
  chunk_us :: "nat \<Rightarrow> u64"
  chunk_now :: "nat \<Rightarrow> instant"
  refill_now :: instant
  push_now :: "nat \<Rightarrow> instant"
  seen_now :: "u64 \<Rightarrow> instant"
  kernel :: sendmmsg

fun handle_event :: "readings \<Rightarrow> sender_event \<Rightarrow> sender \<times> bool \<Rightarrow> sender \<times> bool" where
  "handle_event rd ProbeTick (s, shutdown) =
     (case evaluate_probe (event_now rd) (probe_reset_now rd) (s_profiler s) of
        (Some new_rate, p) \<Rightarrow>
          (s\<lparr>s_profiler := p, s_pacer := set_rate (s_pacer s) new_rate\<rparr>, shutdown)
      | (None, p) \<Rightarrow> (s\<lparr>s_profiler := p\<rparr>, shutdown))"
| "handle_event rd (SackEvent sack) (s, shutdown) =
     (process_sack (key_order rd) (event_now rd) sack s, shutdown)"
| "handle_event rd (CommandEvent (SendChunk data)) (s, shutdown) =
     (enqueue_data (chunk_us rd) (chunk_now rd) data s, shutdown)"
| "handle_event rd (CommandEvent Shutdown) (s, shutdown) = (s, True)"

text \<open>
  One iteration of \<open>run\<close>: the event, the refill, the batch, and whether the loop breaks.
  (The \<open>else\<close> branch of the \<open>select\<close> is never taken: the probe timer always fires again.)
\<close>

definition run_iteration ::
  "readings \<Rightarrow> sender_event \<Rightarrow> sender \<times> bool \<Rightarrow> (sender \<times> bool \<times> bytes list \<times> bool) outcome" where
  "run_iteration rd ev st =
     (let (s1, shutdown) = handle_event rd ev st;
          s2 = s1\<lparr>s_pacer := refill (refill_now rd) (s_pacer s1)\<rparr>
      in case send_batch (kernel rd) (key_order rd) (push_now rd) (seen_now rd) s2 of
           Panic \<Rightarrow> Panic
         | Return (s3, wire) \<Rightarrow> Return (s3, shutdown, wire, shutdown \<and> in_flight s3 = Map.empty))"

text \<open>\<open>send_ping\<close>: the probe datagram.\<close>

definition send_ping :: "u64 \<Rightarrow> u32 \<Rightarrow> u64 \<Rightarrow> bytes" where
  "send_ping ts sid seq = datagram (new_ping sid seq ts) []"


section \<open>What a batch does\<close>

text \<open>
  Every loop of the batch builder moves bytes from the pacer into the batch and changes
  nothing else of the packets in flight than the time of the last transmission.
\<close>

abbreviation batch_bytes :: "bytes list \<Rightarrow> nat" where
  "batch_bytes batch \<equiv> sum_list (map length batch)"

definition packets :: "sender \<Rightarrow> u64 \<Rightarrow> (bytes \<times> u8) option" where
  "packets s = (\<lambda>q. map_option (\<lambda>e. (ent_datagram e, nak_count e)) (in_flight s q))"

definition sends :: "sender \<Rightarrow> bytes list \<Rightarrow> sender \<Rightarrow> bytes list \<Rightarrow> bool" where
  "sends s b s' b' \<longleftrightarrow>
     s_session_id s' = s_session_id s \<and> next_seq s' = next_seq s \<and> s_profiler s' = s_profiler s \<and>
     packets s' = packets s \<and> bucket_inv (s_pacer s') \<and>
     rate_bytes_per_sec (s_pacer s') = rate_bytes_per_sec (s_pacer s) \<and>
     tokens (s_pacer s') + of_nat (batch_bytes b') = tokens (s_pacer s) + of_nat (batch_bytes b) \<and>
     (\<exists>dgs. b' = b @ dgs \<and> set dgs \<subseteq> {dg. \<exists>q n. packets s q = Some (dg, n)})"

lemma sends_refl: "bucket_inv (s_pacer s) \<Longrightarrow> sends s b s b"
  by (simp add: sends_def)

lemma sends_trans: "sends s b s1 b1 \<Longrightarrow> sends s1 b1 s2 b2 \<Longrightarrow> sends s b s2 b2"
  by (auto simp: sends_def)

lemma sends_inv: "sends s b s' b' \<Longrightarrow> bucket_inv (s_pacer s')"
  by (simp add: sends_def)

lemma packets_touch:
  assumes "in_flight s q = Some e" "in_flight s' = (in_flight s)(q \<mapsto> e\<lparr>last_sent := t\<rparr>)"
  shows "packets s' = packets s"
  using assms by (auto simp: packets_def fun_eq_iff)

lemma sends_one:
  assumes "bucket_inv (s_pacer s)" "in_flight s q = Some e"
    "try_consume (s_pacer s) (length (ent_datagram e)) = (True, b')"
    "in_flight s' = (in_flight s)(q \<mapsto> e\<lparr>last_sent := t\<rparr>)" "s_pacer s' = b'"
    "s_session_id s' = s_session_id s" "next_seq s' = next_seq s" "s_profiler s' = s_profiler s"
  shows "sends s b s' (b @ [ent_datagram e])"
  using tb.granted[OF assms(1,3)] assms packets_touch[OF assms(2,4)] try_consume_rate[OF assms(3)]
  by (auto simp: sends_def packets_def)

lemma sends_refused:
  assumes "bucket_inv (s_pacer s)" "try_consume (s_pacer s) n = (False, bk)"
  shows "sends s b (s\<lparr>s_pacer := bk\<rparr>) b"
  using tb.refused[OF assms(2)] assms(1) by (simp add: sends_refl)

lemma retransmit_sends:
  assumes "retransmit now queue s b = (q', s', b')" "bucket_inv (s_pacer s)"
  shows "sends s b s' b' \<and> (length b \<le> BATCH_SIZE \<longrightarrow> length b' \<le> BATCH_SIZE)"
  using assms
proof (induction queue arbitrary: s b)
  case (Cons seq queue)
  show ?case
  proof (cases "BATCH_SIZE \<le> length b \<or> in_flight s seq = None")
    case True
    then show ?thesis using Cons by (auto simp: sends_refl split: if_splits)
  next
    case False
    then obtain e where e: "in_flight s seq = Some e" by auto
    obtain ok bk where tc: "try_consume (s_pacer s) (length (ent_datagram e)) = (ok, bk)" by fastforce
    show ?thesis
    proof (cases ok)
      case True
      let ?s = "s\<lparr>s_pacer := bk, in_flight := (in_flight s)(seq \<mapsto> e\<lparr>last_sent := now (length b)\<rparr>),
         stats := (stats s)\<lparr>retransmits := retransmits (stats s) + 1\<rparr>\<rparr>"
      have one: "sends s b ?s (b @ [ent_datagram e])"
        using Cons.prems(2) e tc True by (intro sends_one[where e = e]) simp_all
      have "retransmit now queue ?s (b @ [ent_datagram e]) = (q', s', b')"
        using Cons.prems(1) False e tc True by simp
      from Cons.IH[OF this sends_inv[OF one]] show ?thesis
        using one False by (auto intro: sends_trans)
    next
      case ok: False
      then show ?thesis using Cons.prems False e tc sends_refused[of s _ bk b] by auto
    qed
  qed
qed (auto simp: sends_refl)

lemma sends_queue_update:
  "sends s b (s'\<lparr>urgent_retransmits := q\<rparr>) b' = sends s b s' b'"
  "sends s b (s'\<lparr>normal_retransmits := q\<rparr>) b' = sends s b s' b'"
  by (simp_all add: sends_def packets_def)

lemma send_urgent_sends:
  "send_urgent now s b = (s', b') \<Longrightarrow> bucket_inv (s_pacer s) \<Longrightarrow>
   sends s b s' b' \<and> (length b \<le> BATCH_SIZE \<longrightarrow> length b' \<le> BATCH_SIZE)"
  by (auto simp: send_urgent_def sends_queue_update split: prod.splits dest!: retransmit_sends)

lemma send_normal_sends:
  "send_normal now s b = (s', b') \<Longrightarrow> bucket_inv (s_pacer s) \<Longrightarrow>
   sends s b s' b' \<and> (length b \<le> BATCH_SIZE \<longrightarrow> length b' \<le> BATCH_SIZE)"
  by (auto simp: send_normal_def sends_queue_update split: prod.splits dest!: retransmit_sends)

lemma send_unsent_sends:
  assumes "send_unsent now unsent s b = (s', b')" "bucket_inv (s_pacer s)"
  shows "sends s b s' b' \<and> length b' \<le> length b + length unsent"
  using assms
proof (induction unsent arbitrary: s b)
  case (Cons seq unsent)
  show ?case
  proof (cases "in_flight s seq")
    case None
    then show ?thesis using Cons.prems Cons.IH[of s b] by simp
  next
    case (Some e)
    obtain ok bk where tc: "try_consume (s_pacer s) (length (ent_datagram e)) = (ok, bk)" by fastforce
    show ?thesis
    proof (cases ok)
      case True
      let ?s = "s\<lparr>s_pacer := bk, in_flight := (in_flight s)(seq \<mapsto> e\<lparr>last_sent := now (length b)\<rparr>)\<rparr>"
      have one: "sends s b ?s (b @ [ent_datagram e])"
        using Cons.prems(2) Some tc True by (intro sends_one[where e = e]) simp_all
      have "send_unsent now unsent ?s (b @ [ent_datagram e]) = (s', b')"
        using Cons.prems(1) Some tc True by simp
      from Cons.IH[OF this sends_inv[OF one]] show ?thesis
        using one by (auto intro: sends_trans)
    next
      case False
      then show ?thesis using Cons.prems Some tc sends_refused[of s _ bk b] by auto
    qed
  qed
qed (auto simp: sends_refl)

lemma build_batch_sends:
  assumes "build_batch ko now seen s = (s', b')" "bucket_inv (s_pacer s)"
  shows "sends s [] s' b' \<and> length b' \<le> BATCH_SIZE"
proof -
  obtain s1 b1 where u: "send_urgent now s [] = (s1, b1)" by fastforce
  obtain s2 b2 where n: "send_normal now s1 b1 = (s2, b2)" by fastforce
  note su = send_urgent_sends[OF u assms(2)]
  note sn = send_normal_sends[OF n sends_inv[OF su[THEN conjunct1]]]
  define un where "un = take (BATCH_SIZE - length b2)
    (filter (is_unsent seen (rto (stats s2)) s2) (ko (dom (in_flight s2))))"
  have "send_unsent now un s2 b2 = (s', b')" using assms(1) u n by (simp add: build_batch_def un_def)
  note sx = send_unsent_sends[OF this sends_inv[OF sn[THEN conjunct1]]]
  have "length un \<le> BATCH_SIZE - length b2" by (simp add: un_def)
  then have "length b' \<le> BATCH_SIZE" using su sn sx by auto
  then show ?thesis using su sn sx by (blast intro: sends_trans)
qed


section \<open>What a SACK does\<close>

definition enumerates :: "(u64 set \<Rightarrow> u64 list) \<Rightarrow> bool" where
  "enumerates ko \<longleftrightarrow> (\<forall>S. distinct (ko S) \<and> set (ko S) = S)"

lemma enumerates_sorted: "enumerates sorted_list_of_set"
  by (simp add: enumerates_def)

text \<open>The new NAK counter of a gap.\<close>

definition bump :: "in_flight_entry \<Rightarrow> in_flight_entry" where
  "bump e = e\<lparr>nak_count := (if 2 \<le> nak_count e + 1 then 0 else nak_count e + 1)\<rparr>"

definition is_gap :: "sack_payload \<Rightarrow> sender \<Rightarrow> bool \<Rightarrow> u64 \<Rightarrow> bool" where
  "is_gap sack s urgent q \<longleftrightarrow> \<not> sack_acks sack q \<and>
     (\<exists>e. in_flight s q = Some e \<and> (2 \<le> nak_count e + 1) = urgent)"

lemma remove_acked_eq:
  assumes "distinct ks" "set ks \<subseteq> dom (in_flight s)"
  shows "remove_acked ks s t =
    (s\<lparr>in_flight := in_flight s |` (- set ks),
       stats := (stats s)\<lparr>packets_acked := packets_acked (stats s) + of_nat (length ks)\<rparr>\<rparr>,
     t + of_nat (\<Sum>q\<leftarrow>ks. length (ent_datagram (the (in_flight s q)))))"
  using assms
proof (induction ks arbitrary: s t)
  case (Cons q ks)
  from Cons.prems obtain e where e: "in_flight s q = Some e" by auto
  let ?s = "s\<lparr>in_flight := (in_flight s)(q := None),
    stats := (stats s)\<lparr>packets_acked := packets_acked (stats s) + 1\<rparr>\<rparr>"
  have same: "(\<Sum>p\<leftarrow>ks. length (ent_datagram (the (in_flight ?s p)))) =
      (\<Sum>p\<leftarrow>ks. length (ent_datagram (the (in_flight s p))))"
    using Cons.prems(1) by (intro arg_cong[where f = sum_list] map_cong) auto
  have rest: "in_flight ?s |` (- set ks) = in_flight s |` (- set (q # ks))"
    by (auto simp: restrict_map_def fun_eq_iff)
  have "set ks \<subseteq> dom (in_flight ?s)" "distinct ks" using Cons.prems by auto
  note ih = Cons.IH[OF this(2,1), of "t + of_nat (length (ent_datagram e))", unfolded same rest]
  have "remove_acked (q # ks) s t = remove_acked ks ?s (t + of_nat (length (ent_datagram e)))"
    using e by simp
  then show ?case unfolding ih using e by (simp add: add.assoc)
qed (simp add: restrict_map_def)

lemma not_acks: "\<not> sack_acks sack q \<longleftrightarrow> base_seq sack \<le> q \<and> \<not> is_received sack q"
  by (auto simp: sack_acks_def)

text \<open>One step of the loop, in the form of the whole loop.\<close>

lemma mark_gaps_Cons:
  "mark_gaps sack (q # ks) s = mark_gaps sack ks
     (s\<lparr>urgent_retransmits := urgent_retransmits s @ filter (is_gap sack s True) [q],
        normal_retransmits := normal_retransmits s @ filter (is_gap sack s False) [q],
        in_flight := (if sack_acks sack q then in_flight s else (in_flight s)(q := map_option bump (in_flight s q)))\<rparr>)"
proof (cases "in_flight s q")
  case None
  then have "(in_flight s)(q := None) = in_flight s" by (simp add: fun_upd_idem)
  then show ?thesis using None by (simp add: is_gap_def)
next
  case (Some e)
  then show ?thesis by (simp add: is_gap_def bump_def not_acks[symmetric] Let_def)
qed

lemma mark_gaps_eq:
  assumes "distinct ks"
  shows "mark_gaps sack ks s =
    s\<lparr>urgent_retransmits := urgent_retransmits s @ filter (is_gap sack s True) ks,
      normal_retransmits := normal_retransmits s @ filter (is_gap sack s False) ks,
      in_flight := (\<lambda>q. if q \<in> set ks \<and> \<not> sack_acks sack q then map_option bump (in_flight s q)
                        else in_flight s q)\<rparr>"
  using assms
proof (induction ks arbitrary: s)
  case (Cons q ks)
  define s1 where "s1 = s\<lparr>urgent_retransmits := urgent_retransmits s @ filter (is_gap sack s True) [q],
    normal_retransmits := normal_retransmits s @ filter (is_gap sack s False) [q],
    in_flight := (if sack_acks sack q then in_flight s else (in_flight s)(q := map_option bump (in_flight s q)))\<rparr>"
  have q: "q \<notin> set ks" "distinct ks" using Cons.prems by simp_all
  have g: "filter (is_gap sack s1 b) ks = filter (is_gap sack s b) ks" for b
    using q(1) by (intro filter_cong) (auto simp: is_gap_def s1_def)
  have fl: "(\<lambda>p. if p \<in> set ks \<and> \<not> sack_acks sack p then map_option bump (in_flight s1 p) else in_flight s1 p)
     = (\<lambda>p. if p \<in> set (q # ks) \<and> \<not> sack_acks sack p then map_option bump (in_flight s p) else in_flight s p)"
    using q(1) by (auto simp: s1_def)
  show ?case unfolding mark_gaps_Cons s1_def[symmetric] Cons.IH[OF q(2), of s1] g fl by (simp add: s1_def)
qed simp


lemma process_sack_eq:
  assumes "enumerates ko"
  defines "acked s sack \<equiv> filter (sack_acks sack) (ko (dom (in_flight s)))"
  shows "\<exists>us ns. process_sack ko now sack s =
    s\<lparr>in_flight := (\<lambda>q. if sack_acks sack q then None else map_option bump (in_flight s q)),
      urgent_retransmits := urgent_retransmits s @ us, normal_retransmits := normal_retransmits s @ ns,
      stats := (stats s)\<lparr>packets_acked := packets_acked (stats s) + of_nat (length (acked s sack)),
        bytes_acked := bytes_acked (stats s) +
          of_nat (\<Sum>q\<leftarrow>acked s sack. length (ent_datagram (the (in_flight s q))))\<rparr>,
      s_profiler := snd (on_bytes_acked now (s_profiler s)
        (of_nat (\<Sum>q\<leftarrow>acked s sack. length (ent_datagram (the (in_flight s q))))))\<rparr> \<and>
    distinct us \<and> set us = {q. is_gap sack s True q} \<and> distinct ns \<and> set ns = {q. is_gap sack s False q}"
proof -
  let ?ks = "acked s sack"
  have ks: "distinct ?ks" "set ?ks \<subseteq> dom (in_flight s)"
    and mem: "\<And>q. q \<in> set ?ks \<longleftrightarrow> q \<in> dom (in_flight s) \<and> sack_acks sack q"
    using assms(1) by (auto simp: acked_def enumerates_def)
  define n where "n = (of_nat (\<Sum>q\<leftarrow>?ks. length (ent_datagram (the (in_flight s q)))) :: u64)"
  define s2 where "s2 = s\<lparr>in_flight := in_flight s |` (- set ?ks),
     stats := (stats s)\<lparr>packets_acked := packets_acked (stats s) + of_nat (length ?ks),
       bytes_acked := bytes_acked (stats s) + n\<rparr>,
     s_profiler := snd (on_bytes_acked now (s_profiler s) n)\<rparr>"
  define rest where "rest = ko (dom (in_flight s2))"
  define us ns where "us = filter (is_gap sack s2 True) rest" and "ns = filter (is_gap sack s2 False) rest"
  have proc: "process_sack ko now sack s = mark_gaps sack rest s2"
    using remove_acked_eq[OF ks, of 0]
    by (simp add: process_sack_def acked_def[symmetric] rest_def s2_def n_def Let_def)
  have rest: "distinct rest" "set rest = dom (in_flight s2)"
    using assms(1) by (auto simp: rest_def enumerates_def)
  have fl: "(\<lambda>q. if q \<in> set rest \<and> \<not> sack_acks sack q then map_option bump (in_flight s2 q) else in_flight s2 q)
      = (\<lambda>q. if sack_acks sack q then None else map_option bump (in_flight s q))"
    by (auto simp: rest(2) s2_def restrict_map_def mem fun_eq_iff dom_def)
  have gaps: "set (filter (is_gap sack s2 b) rest) = {q. is_gap sack s b q}" for b
    by (auto simp: rest(2) s2_def restrict_map_def mem is_gap_def dom_def split: if_splits)
  have "mark_gaps sack rest s2 =
    s\<lparr>in_flight := (\<lambda>q. if sack_acks sack q then None else map_option bump (in_flight s q)),
      urgent_retransmits := urgent_retransmits s @ us, normal_retransmits := normal_retransmits s @ ns,
      stats := (stats s)\<lparr>packets_acked := packets_acked (stats s) + of_nat (length ?ks),
        bytes_acked := bytes_acked (stats s) + n\<rparr>,
      s_profiler := snd (on_bytes_acked now (s_profiler s) n)\<rparr>"
    unfolding mark_gaps_eq[OF rest(1)] fl us_def[symmetric] ns_def[symmetric] by (simp add: s2_def)
  then show ?thesis
    using gaps rest(1) unfolding proc n_def[symmetric]
    by (intro exI[of _ us] exI[of _ ns]) (simp add: us_def ns_def)
qed

text \<open>
  C6: what a SACK does to the sender, whatever the order in which the \<open>HashMap\<close> is iterated.
  Exactly the acknowledged packets leave the store and are counted, with their bytes; every
  packet that stays in flight is a gap of the SACK and is queued exactly once: urgently if the
  previous SACK already reported it (its counter then restarts), ordinarily otherwise.
\<close>

theorem process_sack_exact:
  assumes "enumerates ko"
  shows "let s' = process_sack ko now sack s in
    in_flight s' = (\<lambda>q. if sack_acks sack q then None else map_option bump (in_flight s q)) \<and>
    (\<exists>us ns. urgent_retransmits s' = urgent_retransmits s @ us \<and> distinct us \<and>
       set us = {q. is_gap sack s True q} \<and>
       normal_retransmits s' = normal_retransmits s @ ns \<and> distinct ns \<and>
       set ns = {q. is_gap sack s False q}) \<and>
    packets_acked (stats s') = packets_acked (stats s) +
      of_nat (card {q \<in> dom (in_flight s). sack_acks sack q}) \<and>
    bytes_acked (stats s') = bytes_acked (stats s) +
      of_nat (\<Sum>q\<in>{q \<in> dom (in_flight s). sack_acks sack q}. length (ent_datagram (the (in_flight s q)))) \<and>
    next_seq s' = next_seq s \<and> s_pacer s' = s_pacer s"
proof -
  let ?ks = "filter (sack_acks sack) (ko (dom (in_flight s)))"
  have ks: "distinct ?ks" "set ?ks = {q \<in> dom (in_flight s). sack_acks sack q}"
    using assms(1) by (auto simp: enumerates_def)
  have "length ?ks = card {q \<in> dom (in_flight s). sack_acks sack q}"
    using distinct_card[OF ks(1)] ks(2) by simp
  moreover have "(\<Sum>q\<leftarrow>?ks. length (ent_datagram (the (in_flight s q)))) =
      (\<Sum>q\<in>{q \<in> dom (in_flight s). sack_acks sack q}. length (ent_datagram (the (in_flight s q))))"
    unfolding ks(2)[symmetric] by (rule sum_list_distinct_conv_sum_set[OF ks(1)])
  moreover obtain us ns where "process_sack ko now sack s =
    s\<lparr>in_flight := (\<lambda>q. if sack_acks sack q then None else map_option bump (in_flight s q)),
      urgent_retransmits := urgent_retransmits s @ us, normal_retransmits := normal_retransmits s @ ns,
      stats := (stats s)\<lparr>packets_acked := packets_acked (stats s) + of_nat (length ?ks),
        bytes_acked := bytes_acked (stats s) + of_nat (\<Sum>q\<leftarrow>?ks. length (ent_datagram (the (in_flight s q))))\<rparr>,
      s_profiler := snd (on_bytes_acked now (s_profiler s)
        (of_nat (\<Sum>q\<leftarrow>?ks. length (ent_datagram (the (in_flight s q))))))\<rparr>"
    "distinct us" "set us = {q. is_gap sack s True q}" "distinct ns" "set ns = {q. is_gap sack s False q}"
    using process_sack_eq[OF assms(1), of now sack s] by blast
  ultimately show ?thesis by (auto simp: Let_def)
qed

lemma enqueue_data_small:
  assumes "data \<noteq> []" "length data \<le> MAX_PAYLOAD"
  shows "enqueue_data now_us now data s = s\<lparr>in_flight := (in_flight s)(next_seq s \<mapsto>
      \<lparr>ent_datagram = datagram (new_data (s_session_id s) (next_seq s) (now_us 0) (of_nat (length data))) data,
       last_sent = now 0 - 1000000000, nak_count = 0\<rparr>), next_seq := next_seq s + 1\<rparr>"
  using assms by (simp add: enqueue_data_def chunks_step MAX_PAYLOAD_def Let_def)

theorem process_sack_exact_witness:
  "let s = enqueue_data (\<lambda>_. 5) (\<lambda>_. 0) [65, 66] (sender_new 0 0 7 stats_new);
       s' = process_sack sorted_list_of_set 0 (sack_default\<lparr>base_seq := 1\<rparr>) s in
   dom (in_flight s) = {0} \<and> in_flight s' = Map.empty \<and> packets_acked (stats s') = 1"
  using process_sack_exact[OF enumerates_sorted, of 0 "sack_default\<lparr>base_seq := 1\<rparr>"
      "enqueue_data (\<lambda>_. 5) (\<lambda>_. 0) [65, 66] (sender_new 0 0 7 stats_new)"]
  by (simp add: enqueue_data_small MAX_PAYLOAD_def sender_new_def fun_eq_iff sack_acks_def Let_def
      stats_new_def Collect_conv_if)


section \<open>Runs of the sender\<close>

text \<open>
  What the kernel promises about \<open>sendmmsg\<close>: at most as many messages as were given are
  accepted, one length is filled in per message, and an accepted message was sent whole (a UDP
  datagram is never split).
\<close>

definition kernel_ok :: "sendmmsg \<Rightarrow> bool" where
  "kernel_ok k \<longleftrightarrow> (\<forall>batch. length (snd (k batch)) = length batch \<and> fst (k batch) \<le> int (length batch) \<and>
     (\<forall>i < nat (fst (k batch)). unat (snd (k batch) ! i) = length (batch ! i)))"

definition send_all :: sendmmsg where
  "send_all batch = (if (\<forall>dg\<in>set batch. length dg < 2 ^ 32) then int (length batch) else 0,
     map (\<lambda>dg. of_nat (length dg)) batch)"

lemma kernel_ok_send_all: "kernel_ok send_all"
  by (auto simp: kernel_ok_def send_all_def unat_of_nat_small)

fun event_chunks :: "sender_event \<Rightarrow> bytes list" where
  "event_chunks (CommandEvent (SendChunk data)) = chunks MAX_PAYLOAD data"
| "event_chunks _ = []"

fun event_sacks :: "sender_event \<Rightarrow> sack_payload list" where
  "event_sacks (SackEvent sack) = [sack]"
| "event_sacks _ = []"

text \<open>
  The runs of \<open>Sender::run\<close> for a session: with the chunks handed over so far, the SACKs
  processed so far, the datagrams the kernel accepted so far, and whether the loop goes on.
  Other tasks push into the urgent queue and update the shared statistics in between.
\<close>

inductive sender_run :: "u32 \<Rightarrow> bytes list \<Rightarrow> sack_payload list \<Rightarrow> bytes list \<Rightarrow> sender \<times> bool \<Rightarrow> bool \<Rightarrow> bool"
  for sid :: u32 where
  start: "sender_run sid [] [] [] (sender_new now now' sid st, False) True"
| iteration: "sender_run sid hist sacks wire st True \<Longrightarrow> enumerates (key_order rd) \<Longrightarrow> kernel_ok (kernel rd) \<Longrightarrow>
    run_iteration rd ev st = Return (s', shutdown', sent, stop) \<Longrightarrow>
    sender_run sid (hist @ event_chunks ev) (sacks @ event_sacks ev) (wire @ sent) (s', shutdown') (\<not> stop)"
| other_push: "sender_run sid hist sacks wire (s, shutdown) True \<Longrightarrow>
    sender_run sid hist sacks wire (push_urgent q s, shutdown) True"
| other_stats: "sender_run sid hist sacks wire (s, shutdown) True \<Longrightarrow>
    sender_run sid hist sacks wire (s\<lparr>stats := st\<rparr>, shutdown) True"

text \<open>The datagram of the \<open>i\<close>-th chunk of a session.\<close>

definition data_datagram :: "u32 \<Rightarrow> bytes list \<Rightarrow> nat \<Rightarrow> bytes \<Rightarrow> bool" where
  "data_datagram sid hist i dg \<longleftrightarrow> i < length hist \<and>
     (\<exists>ts. dg = datagram (new_data sid (of_nat i) ts (of_nat (length (hist ! i)))) (hist ! i))"

definition sender_inv :: "u32 \<Rightarrow> bytes list \<Rightarrow> sack_payload list \<Rightarrow> sender \<Rightarrow> bool" where
  "sender_inv sid hist sacks s \<longleftrightarrow>
     s_session_id s = sid \<and> bucket_inv (s_pacer s) \<and> next_seq s = of_nat (length hist) \<and>
     (\<forall>c\<in>set hist. 0 < length c \<and> length c \<le> MAX_PAYLOAD) \<and>
     (\<forall>q dg n. packets s q = Some (dg, n) \<longrightarrow> n < 2 \<and> data_datagram sid hist (unat q) dg) \<and>
     (\<forall>i < length hist. of_nat i \<notin> dom (in_flight s) \<longrightarrow> (\<exists>k\<in>set sacks. sack_acks k (of_nat i)))"

lemma dom_packets: "dom (packets s) = dom (in_flight s)"
  by (auto simp: packets_def)

lemma data_datagram_append: "data_datagram sid hist i dg \<Longrightarrow> data_datagram sid (hist @ cs) i dg"
  by (auto simp: data_datagram_def nth_append)

lemma sender_inv_new: "sender_inv sid [] [] (sender_new now now' sid st)"
  by (simp add: sender_inv_def sender_new_def bucket_inv_initial packets_def)

lemma sender_inv_cong:
  assumes "sender_inv sid hist sacks s" "s_session_id s' = s_session_id s" "next_seq s' = next_seq s"
    "packets s' = packets s" "bucket_inv (s_pacer s')"
  shows "sender_inv sid hist sacks s'"
  using assms by (simp add: sender_inv_def dom_packets[symmetric])

lemma sender_inv_enqueue:
  assumes "sender_inv sid hist sacks s" "length hist + length cs < 2 ^ 64"
    "\<forall>c\<in>set cs. 0 < length c \<and> length c \<le> MAX_PAYLOAD"
  shows "sender_inv sid (hist @ cs) sacks (enqueue_chunks nu now i cs s)"
  using assms
proof (induction cs arbitrary: hist s i)
  case (Cons c cs)
  let ?q = "of_nat (length hist) :: u64"
  define e where "e = \<lparr>ent_datagram = datagram (new_data sid ?q (nu i) (of_nat (length c))) c,
      last_sent = now i - 1000000000, nak_count = 0\<rparr>"
  define s1 where "s1 = s\<lparr>in_flight := (in_flight s)(?q \<mapsto> e), next_seq := ?q + 1\<rparr>"
  have s: "s_session_id s = sid" "next_seq s = ?q" using Cons.prems(1) by (auto simp: sender_inv_def)
  have q: "unat ?q = length hist" using Cons.prems(2) by (intro unat_of_nat_small) simp
  have "data_datagram sid (hist @ [c]) (length hist) (ent_datagram e)"
    by (auto simp: data_datagram_def e_def)
  then have pk: "n < 2 \<and> data_datagram sid (hist @ [c]) (unat p) dg" if "packets s1 p = Some (dg, n)" for p dg n
    using that Cons.prems(1) q
    by (cases "p = ?q") (auto simp: sender_inv_def packets_def s1_def e_def intro: data_datagram_append)
  have cov: "\<exists>k\<in>set sacks. sack_acks k (of_nat j)"
    if "j < length (hist @ [c])" "of_nat j \<notin> dom (in_flight s1)" for j
    using that Cons.prems(1) by (cases "j = length hist") (auto simp: sender_inv_def s1_def)
  have "sender_inv sid (hist @ [c]) sacks s1"
    using Cons.prems pk cov by (simp add: sender_inv_def s1_def)
  then have "sender_inv sid ((hist @ [c]) @ cs) sacks (enqueue_chunks nu now (Suc i) cs s1)"
    using Cons.prems by (intro Cons.IH) auto
  moreover have "enqueue_chunks nu now i (c # cs) s = enqueue_chunks nu now (Suc i) cs s1"
    by (simp add: s1_def e_def s Let_def)
  ultimately show ?case by simp
qed simp

lemma sender_inv_sack:
  assumes "sender_inv sid hist sacks s" "enumerates ko"
  shows "sender_inv sid hist (sacks @ [sack]) (process_sack ko now sack s)"
proof -
  define s' where "s' = process_sack ko now sack s"
  obtain us ns st p where s': "s' = s\<lparr>in_flight := (\<lambda>q. if sack_acks sack q then None else map_option bump (in_flight s q)),
      urgent_retransmits := us, normal_retransmits := ns, stats := st, s_profiler := p\<rparr>"
    using process_sack_eq[OF assms(2), of now sack s] unfolding s'_def by blast
  have pk: "packets s' q = (if sack_acks sack q then None
      else map_option (\<lambda>(dg, n). (dg, if 2 \<le> n + 1 then 0 else n + 1)) (packets s q))" for q
    by (cases "in_flight s q") (simp_all add: packets_def s' bump_def)
  have "n < 2 \<and> data_datagram sid hist (unat q) dg" if "packets s' q = Some (dg, n)" for q dg n
    using that assms(1) by (auto simp: pk sender_inv_def split: if_splits)
  moreover have "of_nat i \<in> dom (in_flight s') \<or> sack_acks sack (of_nat i) \<or> of_nat i \<notin> dom (in_flight s)" for i
    by (auto simp: s')
  ultimately show ?thesis using assms(1) unfolding s'_def[symmetric]
    by (auto simp: sender_inv_def s')
qed


lemma send_batch_sendmmsg_returns:
  assumes "kernel_ok k"
  shows "\<exists>n. send_batch_sendmmsg k batch = Return n"
proof -
  obtain sent lens where k: "k batch = (sent, lens)" by fastforce
  have "length lens = length batch" "sent \<le> int (length batch)"
    using assms k unfolding kernel_ok_def by (metis fst_conv snd_conv)+
  then have "\<not> length lens < nat sent" by simp
  then show ?thesis by (simp add: send_batch_sendmmsg_def k)
qed

lemma batch_bytes_take: "batch_bytes (take n b) \<le> batch_bytes b"
  by (metis append_take_drop_id le_add1 map_append sum_list_append)

lemma send_batch_ok:
  assumes "kernel_ok k" "bucket_inv (s_pacer s)"
  shows "\<exists>s' sent. send_batch k ko now seen s = Return (s', sent) \<and>
    s_session_id s' = s_session_id s \<and> next_seq s' = next_seq s \<and> packets s' = packets s \<and>
    bucket_inv (s_pacer s') \<and> rate_bytes_per_sec (s_pacer s') = rate_bytes_per_sec (s_pacer s) \<and>
    (s_profiler s' = s_profiler s \<or> (\<exists>n. s_profiler s' = on_bytes_sent (s_profiler s) n)) \<and>
    length sent \<le> BATCH_SIZE \<and>
    of_nat (batch_bytes sent) \<le> tokens (s_pacer s) - tokens (s_pacer s') \<and>
    set sent \<subseteq> {dg. \<exists>q n. packets s q = Some (dg, n)}"
proof -
  obtain s1 batch where b: "build_batch ko now seen s = (s1, batch)" by fastforce
  note bs = build_batch_sends[OF b assms(2)]
  obtain n where n: "send_batch_sendmmsg k batch = Return n"
    using send_batch_sendmmsg_returns[OF assms(1)] by blast
  define m where "m = nat (fst (k batch))"
  have "(of_nat (batch_bytes (take m batch)) :: rat) \<le> of_nat (batch_bytes batch)"
    using batch_bytes_take by (simp only: of_nat_le_iff)
  moreover have "set (take m batch) \<subseteq> set batch" by (rule set_take_subset)
  ultimately show ?thesis using bs b n
    by (cases "batch = []") (auto simp: send_batch_def sends_def packets_def m_def)
qed

lemma handle_event_inv:
  assumes "sender_inv sid hist sacks s" "enumerates (key_order rd)"
    "length hist + length (event_chunks ev) < 2 ^ 64" "handle_event rd ev (s, sd) = (s', sd')"
  shows "sender_inv sid (hist @ event_chunks ev) (sacks @ event_sacks ev) s'"
proof (cases ev)
  case ProbeTick
  obtain r p where ep: "evaluate_probe (event_now rd) (probe_reset_now rd) (s_profiler s) = (r, p)" by fastforce
  have b: "bucket_inv (s_pacer s)" using assms(1) by (simp add: sender_inv_def)
  have s': "s' = (case r of Some x \<Rightarrow> s\<lparr>s_profiler := p, s_pacer := set_rate (s_pacer s) x\<rparr> | None \<Rightarrow> s\<lparr>s_profiler := p\<rparr>)"
    using assms(4) ProbeTick ep by (cases r) simp_all
  have "sender_inv sid hist sacks s'"
    by (rule sender_inv_cong[OF assms(1)])
      (simp_all add: s' packets_def b bucket_inv_set_rate split: option.split)
  then show ?thesis using ProbeTick by simp
next
  case (SackEvent sack)
  then show ?thesis using assms sender_inv_sack by auto
next
  case (CommandEvent c)
  then show ?thesis using assms
    by (cases c) (auto simp: enqueue_data_def intro!: sender_inv_enqueue dest: chunks_length)
qed

lemma run_iteration_inv:
  assumes "sender_inv sid hist sacks (fst st)" "enumerates (key_order rd)" "kernel_ok (kernel rd)"
    "length hist + length (event_chunks ev) < 2 ^ 64"
  shows "\<exists>s' sd' sent. run_iteration rd ev st = Return (s', sd', sent, sd' \<and> in_flight s' = Map.empty) \<and>
    sender_inv sid (hist @ event_chunks ev) (sacks @ event_sacks ev) s' \<and>
    (\<forall>dg\<in>set sent. \<exists>i. data_datagram sid (hist @ event_chunks ev) i dg) \<and>
    length sent \<le> BATCH_SIZE \<and> batch_bytes sent \<le> 3000"
proof -
  obtain s1 sd1 where ev: "handle_event rd ev st = (s1, sd1)" by fastforce
  have inv1: "sender_inv sid (hist @ event_chunks ev) (sacks @ event_sacks ev) s1"
    using handle_event_inv[OF assms(1,2,4)] ev by (metis prod.collapse)
  define s2 where "s2 = s1\<lparr>s_pacer := refill (refill_now rd) (s_pacer s1)\<rparr>"
  have b2: "bucket_inv (s_pacer s2)" using inv1 by (auto simp: sender_inv_def s2_def intro: bucket_inv_refill)
  have pk2: "packets s2 = packets s1" by (simp add: packets_def s2_def)
  obtain s3 sent where sb: "send_batch (kernel rd) (key_order rd) (push_now rd) (seen_now rd) s2 = Return (s3, sent)"
    and s3: "s_session_id s3 = s_session_id s2" "next_seq s3 = next_seq s2" "packets s3 = packets s2"
      "bucket_inv (s_pacer s3)" and len: "length sent \<le> BATCH_SIZE"
    and bytes: "of_nat (batch_bytes sent) \<le> tokens (s_pacer s2) - tokens (s_pacer s3)"
    and sub: "set sent \<subseteq> {dg. \<exists>q n. packets s2 q = Some (dg, n)}"
    using send_batch_ok[OF assms(3) b2, of "key_order rd" "push_now rd" "seen_now rd"] by blast
  have inv3: "sender_inv sid (hist @ event_chunks ev) (sacks @ event_sacks ev) s3"
    using s3 pk2 by (intro sender_inv_cong[OF inv1]) (simp_all add: s2_def)
  have "(of_nat (batch_bytes sent) :: rat) \<le> of_nat 3000"
    using bytes b2 s3(4) by (simp add: bucket_inv_def)
  then have "batch_bytes sent \<le> 3000" by (simp only: of_nat_le_iff)
  moreover have "\<exists>i. data_datagram sid (hist @ event_chunks ev) i dg" if "dg \<in> set sent" for dg
  proof -
    obtain q n where "packets s1 q = Some (dg, n)" using \<open>dg \<in> set sent\<close> sub pk2 by auto
    then show ?thesis using inv1 unfolding sender_inv_def by blast
  qed
  ultimately show ?thesis
    using inv3 len sb by (simp add: run_iteration_def ev s2_def)
qed

lemma sender_run_inv:
  assumes "sender_run sid hist sacks wire st running" "length hist < 2 ^ 64"
  shows "sender_inv sid hist sacks (fst st) \<and> (\<forall>dg\<in>set wire. \<exists>i. data_datagram sid hist i dg) \<and>
    (\<not> running \<longrightarrow> in_flight (fst st) = Map.empty)"
  using assms
proof (induction rule: sender_run.induct)
  case (start now now' st)
  then show ?case by (simp add: sender_inv_new)
next
  case (iteration hist sacks wire st rd ev s' sd' sent stop)
  then have "length hist + length (event_chunks ev) < 2 ^ 64" by simp
  then show ?case
    using run_iteration_inv[OF _ iteration.hyps(2,3), of sid hist sacks st ev] iteration
    by (fastforce intro: data_datagram_append)
next
  case (other_push hist sacks wire s sd q)
  then show ?case by (auto intro!: sender_inv_cong[of _ _ _ s] simp: packets_def push_urgent_def sender_inv_def)
next
  case (other_stats hist sacks wire s sd st)
  then show ?case by (auto intro!: sender_inv_cong[of _ _ _ s] simp: packets_def sender_inv_def)
qed


section \<open>Properties of the sender\<close>

text \<open>
  C5: the sender never loses data.  In every run with fewer than \<open>2 ^ 64\<close> chunks, each chunk
  handed to the sender is either still in flight, as a datagram of this session with the
  chunk's sequence number, length and bytes, or some processed SACK acknowledged its sequence
  number; once the loop has ended after a shutdown, every chunk was acknowledged.
\<close>

theorem sender_keeps_unacknowledged_data:
  assumes "sender_run sid hist sacks wire (s, shutdown) running" "length hist < 2 ^ 64" "i < length hist"
  shows "((\<exists>e. in_flight s (of_nat i) = Some e \<and> data_datagram sid hist i (ent_datagram e)) \<or>
      (\<exists>sack\<in>set sacks. sack_acks sack (of_nat i))) \<and>
    (running \<or> (\<exists>sack\<in>set sacks. sack_acks sack (of_nat i)))"
proof -
  have inv: "sender_inv sid hist sacks s" and stop: "\<not> running \<longrightarrow> in_flight s = Map.empty"
    using sender_run_inv[OF assms(1,2)] by auto
  have i: "unat (of_nat i :: u64) = i" using assms(2,3) by (intro unat_of_nat_small) simp
  have cov: "of_nat i \<notin> dom (in_flight s) \<longrightarrow> (\<exists>k\<in>set sacks. sack_acks k (of_nat i))"
    using inv assms(3) by (simp add: sender_inv_def)
  have "data_datagram sid hist i (ent_datagram e)" if "in_flight s (of_nat i) = Some e" for e
  proof -
    have "packets s (of_nat i) = Some (ent_datagram e, nak_count e)" using that by (simp add: packets_def)
    then show ?thesis using inv i unfolding sender_inv_def by metis
  qed
  moreover have "\<exists>sack\<in>set sacks. sack_acks sack (of_nat i)" if "\<not> running" using that stop cov by simp
  ultimately show ?thesis using cov by blast
qed

text \<open>A run of one iteration, in which the application hands over two bytes.\<close>

definition example_readings :: readings where
  "example_readings = \<lparr>key_order = sorted_list_of_set, event_now = 0, probe_reset_now = 0, chunk_us = (\<lambda>_. 5), chunk_now = (\<lambda>_. 0),
     refill_now = 0, push_now = (\<lambda>_. 2000), seen_now = (\<lambda>_. 1000), kernel = send_all\<rparr>"

lemma example_bucket: "tokens (refill 0 (bucket_new 0 10000000)) = 1250"
proof -
  have "rnd 1250000 = 1250000" "rnd 1250 = 1250" using rnd_of_nat[of 1250000] rnd_of_nat[of 1250] by simp_all
  moreover have "f64_of_nat 10000000 = 10000000" "f64_of_nat 3000 = 3000"
    using f64_of_nat_exact[of 10000000] f64_of_nat_exact[of 3000] by simp_all
  ultimately show ?thesis
    by (simp add: refill_def bucket_new_def as_secs_f64_def duration_since_def f64_ops Let_def)
qed

lemma example_iteration:
  defines "dg \<equiv> datagram (new_data 7 0 5 2) [65, 66]"
  shows "\<exists>s. run_iteration example_readings (CommandEvent (SendChunk [65, 66])) (sender_new 0 0 7 stats_new, False) =
    Return (s, False, [dg], False)"
proof -
  define b where "b = refill 0 (bucket_new 0 10000000)"
  have dg: "length dg = 31" by (simp add: dg_def datagram_eq HEADER_SIZE_def)
  have tc: "\<exists>b'. try_consume b 31 = (True, b')"
    using example_bucket f64_of_nat_exact[of 31] by (simp add: try_consume_def b_def)
  have rto: "rto stats_new = 200000000"
    by (simp add: rto_def stats_new_def saturating_add_def clamp_def)
  show ?thesis using tc dg
    by (auto simp: run_iteration_def example_readings_def enqueue_data_small MAX_PAYLOAD_def sender_new_def
        b_def[symmetric] dg_def[symmetric] send_batch_def build_batch_def send_urgent_def send_normal_def
        is_unsent_def duration_since_def rto BATCH_SIZE_def send_batch_sendmmsg_def send_all_def)
qed

lemma example_run:
  "\<exists>s. sender_run 7 [[65, 66]] [] [datagram (new_data 7 0 5 2) [65, 66]] (s, False) True"
proof -
  have ch: "event_chunks (CommandEvent (SendChunk [65, 66])) = [[65, 66]]" by (simp add: chunks_step MAX_PAYLOAD_def)
  have rd: "enumerates (key_order example_readings)" "kernel_ok (kernel example_readings)"
    by (simp_all add: example_readings_def enumerates_sorted kernel_ok_send_all)
  obtain s where it: "run_iteration example_readings (CommandEvent (SendChunk [65, 66])) (sender_new 0 0 7 stats_new, False) =
      Return (s, False, [datagram (new_data 7 0 5 2) [65, 66]], False)"
    using example_iteration by blast
  from sender_run.iteration[OF sender_run.start rd it] show ?thesis using ch by auto
qed

theorem sender_keeps_unacknowledged_data_witness:
  "\<exists>s shutdown wire. sender_run 7 [[65, 66]] [] wire (s, shutdown) True \<and>
     (\<exists>e. in_flight s 0 = Some e \<and> data_datagram 7 [[65, 66]] 0 (ent_datagram e))"
proof -
  obtain s where run: "sender_run 7 [[65, 66]] [] [datagram (new_data 7 0 5 2) [65, 66]] (s, False) True"
    using example_run by blast
  show ?thesis using run sender_keeps_unacknowledged_data[OF run, of 0] by auto
qed

text \<open>
  Everything a sender puts on the wire is data of its session.  In every run, each
  datagram the kernel accepted parses as a DATA header of the session whose sequence number
  is the index of a chunk handed over, whose length field is the chunk's length, and behind the
  header come exactly the chunk's bytes; no datagram exceeds 1472 bytes, the payload that an
  Ethernet frame has left after the IP and UDP headers.
\<close>

theorem sender_wire_carries_the_chunks:
  assumes "sender_run sid hist sacks wire st running" "length hist < 2 ^ 64" "dg \<in> set wire"
  shows "length dg \<le> 1472 \<and>
    (\<exists>i h. i < length hist \<and> read_from dg = Some h \<and> is_data h \<and> session_id h = sid \<and>
       unat (sequence_number h) = i \<and> unat (payload_len h) = length (hist ! i) \<and>
       drop HEADER_SIZE dg = hist ! i)"
proof -
  obtain i where dd: "data_datagram sid hist i dg" using sender_run_inv[OF assms(1,2)] assms(3) by blast
  then obtain ts where i: "i < length hist"
    and dg: "dg = datagram (new_data sid (of_nat i) ts (of_nat (length (hist ! i)))) (hist ! i)"
    by (auto simp: data_datagram_def)
  have len: "length (hist ! i) \<le> 1443"
    using sender_run_inv[OF assms(1,2)] nth_mem[OF i] unfolding sender_inv_def MAX_PAYLOAD_def by blast
  have "unat (of_nat i :: u64) = i" "unat (of_nat (length (hist ! i)) :: u16) = length (hist ! i)"
    using assms(2) i len by (simp_all add: unat_of_nat_small)
  then show ?thesis using i len
    by (intro conjI exI[of _ i]) (simp_all add: dg datagram_eq hdr.dec_enc HEADER_SIZE_def)
qed

theorem sender_wire_carries_the_chunks_witness:
  "\<exists>s dg. sender_run 7 [[65, 66]] [] [dg] (s, False) True \<and> length dg \<le> 1472 \<and> drop HEADER_SIZE dg = [65, 66]"
proof -
  obtain s where run: "sender_run 7 [[65, 66]] [] [datagram (new_data 7 0 5 2) [65, 66]] (s, False) True"
    using example_run by blast
  from sender_wire_carries_the_chunks[OF run] show ?thesis using run by fastforce
qed

text \<open>
  C27: an iteration never panics and is paced.  Whatever the event, the clock readings and the
  answer of the kernel, one iteration of the loop returns; it puts at most 64 datagrams and at
  most 3000 bytes (the capacity of the token bucket) on the wire, and it breaks exactly when a
  shutdown was requested and nothing is in flight.
\<close>

theorem sender_iteration_paced:
  assumes "sender_run sid hist sacks wire (s, shutdown) True" "length hist + length (event_chunks ev) < 2 ^ 64"
    "enumerates (key_order rd)" "kernel_ok (kernel rd)"
  shows "\<exists>s' shutdown' sent. run_iteration rd ev (s, shutdown) =
      Return (s', shutdown', sent, shutdown' \<and> in_flight s' = Map.empty) \<and>
    length sent \<le> 64 \<and> sum_list (map length sent) \<le> 3000"
proof -
  have "sender_inv sid hist sacks s" using sender_run_inv[OF assms(1)] assms(2) by simp
  then show ?thesis using run_iteration_inv[of sid hist sacks "(s, shutdown)" rd ev] assms(2-4)
    by (auto simp: BATCH_SIZE_def)
qed

theorem sender_iteration_paced_witness:
  "\<exists>s' shutdown' sent. run_iteration example_readings (CommandEvent Shutdown) (sender_new 0 0 7 stats_new, False) =
      Return (s', shutdown', sent, shutdown' \<and> in_flight s' = Map.empty) \<and>
    length sent \<le> 64 \<and> sum_list (map length sent) \<le> 3000"
  by (rule sender_iteration_paced[OF sender_run.start[of 7]])
    (simp_all add: example_readings_def enumerates_sorted kernel_ok_send_all)


text \<open>
  Fast retransmit.  In every run, a packet in flight that two consecutive SACKs both
  report as missing is in the urgent queue afterwards, whatever happened to it before; its
  NAK counter stays below 2, so the \<open>u8\<close> never wraps.
\<close>

theorem fast_retransmit_after_two_sacks:
  assumes "sender_run sid hist sacks wire (s, shutdown) running" "length hist < 2 ^ 64"
    "in_flight s q = Some e" "\<not> sack_acks sack1 q" "\<not> sack_acks sack2 q" "enumerates ko1" "enumerates ko2"
  shows "nak_count e < 2 \<and>
    q \<in> set (urgent_retransmits (process_sack ko2 now2 sack2 (process_sack ko1 now1 sack1 s)))"
proof -
  define s1 where "s1 = process_sack ko1 now1 sack1 s"
  have "packets s q = Some (ent_datagram e, nak_count e)" using assms(3) by (simp add: packets_def)
  then have nak: "nak_count e < 2"
    using sender_run_inv[OF assms(1,2)] unfolding sender_inv_def by auto
  obtain us where us: "urgent_retransmits s1 = urgent_retransmits s @ us" "set us = {q. is_gap sack1 s True q}"
    and fl: "in_flight s1 q = Some (bump e)"
    using process_sack_eq[OF assms(6), of now1 sack1 s] assms(3,4) unfolding s1_def by auto
  obtain us' where us': "urgent_retransmits (process_sack ko2 now2 sack2 s1) = urgent_retransmits s1 @ us'"
    "set us' = {q. is_gap sack2 s1 True q}"
    using process_sack_eq[OF assms(7), of now2 sack2 s1] by auto
  have "nak_count e = 0 \<or> nak_count e = 1"
    using nak by (auto simp: word_less_nat_alt word_unat_eq_iff)
  then have "is_gap sack1 s True q \<or> is_gap sack2 s1 True q"
    using assms(3-5) fl by (auto simp: is_gap_def bump_def)
  then show ?thesis using nak us us' unfolding s1_def by auto
qed

theorem fast_retransmit_after_two_sacks_witness:
  "\<exists>s. sender_run 7 [[65, 66]] [] [datagram (new_data 7 0 5 2) [65, 66]] (s, False) True \<and>
     0 \<in> set (urgent_retransmits (process_sack sorted_list_of_set 1 sack_default
            (process_sack sorted_list_of_set 0 sack_default s)))"
proof -
  obtain s where run: "sender_run 7 [[65, 66]] [] [datagram (new_data 7 0 5 2) [65, 66]] (s, False) True"
    using example_run by blast
  obtain e where e: "in_flight s 0 = Some e"
    using sender_run_inv[OF run] by (auto simp: sender_inv_def)
  have "\<not> sack_acks sack_default 0"
    by (simp add: sack_acks_def sack_default_def is_received_def SACK_WINDOW_def SACK_WORDS_def Let_def)
  then show ?thesis
    using run fast_retransmit_after_two_sacks[OF run _ e, of sack_default sack_default sorted_list_of_set
        sorted_list_of_set 1 0] enumerates_sorted by auto
qed

text \<open>
  Urgent retransmits go first.  If the packet at the head of the urgent queue is still in
  flight and the bucket holds its bytes, the next batch starts with exactly that datagram,
  ahead of everything else.
\<close>

theorem urgent_head_is_sent_first:
  assumes "bucket_inv (s_pacer s)" "urgent_retransmits s = q # queue" "in_flight s q = Some e"
    "of_nat (length (ent_datagram e)) \<le> tokens (s_pacer s)"
  shows "\<exists>s' batch. build_batch ko now seen s = (s', ent_datagram e # batch)"
proof -
  let ?n = "length (ent_datagram e)"
  obtain b where tc: "try_consume (s_pacer s) ?n = (True, b)"
  proof (cases "try_consume (s_pacer s) ?n")
    case (Pair ok b)
    have "(of_nat ?n :: rat) \<le> of_nat 3000" using assms(1,4) by (simp add: bucket_inv_def)
    then have "?n \<le> 3000" by (simp only: of_nat_le_iff)
    then show ?thesis using assms(4) Pair that f64_of_nat_exact[of ?n] by (simp add: try_consume_def)
  qed
  define s0 where "s0 = s\<lparr>s_pacer := b, in_flight := (in_flight s)(q \<mapsto> e\<lparr>last_sent := now 0\<rparr>),
    stats := (stats s)\<lparr>retransmits := retransmits (stats s) + 1\<rparr>\<rparr>"
  have b: "bucket_inv (s_pacer s0)" using tb.granted[OF assms(1) tc] by (simp add: s0_def)
  obtain q' s1 b1 where r: "retransmit now queue s0 [ent_datagram e] = (q', s1, b1)"
    using prod_cases3 by blast
  have "send_urgent now s [] = (s1\<lparr>urgent_retransmits := q'\<rparr>, b1)"
    using r assms(2,3) tc by (simp add: send_urgent_def s0_def BATCH_SIZE_def)
  moreover have s1: "sends s0 [ent_datagram e] s1 b1" using retransmit_sends[OF r b] by blast
  moreover obtain s2 b2 where n: "send_normal now (s1\<lparr>urgent_retransmits := q'\<rparr>) b1 = (s2, b2)" by fastforce
  moreover have s2: "sends (s1\<lparr>urgent_retransmits := q'\<rparr>) b1 s2 b2"
    using send_normal_sends[OF n] s1 by (simp add: sends_def)
  moreover obtain s3 b3 where u: "send_unsent now (take (BATCH_SIZE - length b2)
      (filter (is_unsent seen (rto (stats s2)) s2) (ko (dom (in_flight s2))))) s2 b2 = (s3, b3)" by fastforce
  moreover have "sends s2 b2 s3 b3" using send_unsent_sends[OF u] s2 by (simp add: sends_def)
  ultimately show ?thesis by (auto simp: build_batch_def sends_def)
qed

theorem urgent_head_is_sent_first_witness:
  "let s = push_urgent 0 (enqueue_data (\<lambda>_. 5) (\<lambda>_. 0) [65, 66] (sender_new 0 0 7 stats_new)\<lparr>s_pacer := refill 0 (bucket_new 0 10000000)\<rparr>)
   in \<exists>s' batch. build_batch sorted_list_of_set (\<lambda>_. 0) (\<lambda>_. 0) s = (s', datagram (new_data 7 0 5 2) [65, 66] # batch)"
proof -
  define s where "s = push_urgent 0 (enqueue_data (\<lambda>_. 5) (\<lambda>_. 0) [65, 66]
    (sender_new 0 0 7 stats_new)\<lparr>s_pacer := refill 0 (bucket_new 0 10000000)\<rparr>)"
  have s: "bucket_inv (s_pacer s)" "tokens (s_pacer s) = 1250" "urgent_retransmits s = [0]"
    "in_flight s 0 = Some \<lparr>ent_datagram = datagram (new_data 7 0 5 2) [65, 66], last_sent = - 1000000000, nak_count = 0\<rparr>"
    by (simp_all add: s_def push_urgent_def example_bucket bucket_inv_refill bucket_inv_initial
        enqueue_data_small MAX_PAYLOAD_def sender_new_def)
  show ?thesis unfolding s_def[symmetric] Let_def
    using urgent_head_is_sent_first[OF s(1,3,4), of sorted_list_of_set "\<lambda>_. 0" "\<lambda>_. 0"] s(2)
    by (simp add: datagram_eq HEADER_SIZE_def)
qed

end
