(* ===== verification/Receiver.thy ===== *)
theory Receiver
  imports Packet Sack Session
begin

text \<open>
  The receiving task (\<^verbatim>\<open>crates/protocol/src/receiver.rs\<close>): the pool of receive buffers, the
  heartbeat SACK, the dispatch of one datagram, the batch of one \<open>recvmmsg\<close> call and the
  events of the task's loop.

  What a handler does to the outside (a payload handed to the application channel, a SACK
  offered to the sender task, a datagram sent) is a list of actions.  A result is \<open>None\<close> when
  the handler never returns (the scan of \<open>on_packet_received\<close>), \<open>Some Panic\<close> when it panics.
\<close>

section \<open>The buffer pool\<close>

definition RECV_BATCH :: nat where
  "RECV_BATCH = 64"

definition BUF_SIZE :: nat where
  "BUF_SIZE = 1500"

definition POOL_SIZE :: nat where
  "POOL_SIZE = RECV_BATCH * 4"

definition pool_new :: bytes where
  "pool_new = replicate (POOL_SIZE * BUF_SIZE) 0"

text \<open>Writing through the slice \<open>slot_mut(idx)\<close>, from its start, at most a slot's bytes.\<close>

definition slot_mut :: "bytes \<Rightarrow> nat \<Rightarrow> bytes \<Rightarrow> bytes outcome" where
  "slot_mut storage idx bs =
     (let start = idx * BUF_SIZE in
      if start + BUF_SIZE \<le> length storage \<and> length bs \<le> BUF_SIZE
      then Return (take start storage @ bs @ drop (start + length bs) storage) else Panic)"

definition slot :: "bytes \<Rightarrow> nat \<Rightarrow> nat \<Rightarrow> bytes outcome" where
  "slot storage idx len =
     (let start = idx * BUF_SIZE in
      if start + len \<le> length storage then Return (slice start (start + len) storage) else Panic)"

section \<open>The receiver\<close>

record receiver =
  r_session_id :: u32
  sack_mgr :: sack_manager
  r_stats :: session_stats
  pool :: bytes
  data_seen :: bool

datatype action = Deliver bytes | OfferSack sack_payload | Transmit bytes

definition receiver_new :: "u32 \<Rightarrow> u64 \<Rightarrow> session_stats \<Rightarrow> receiver" where
  "receiver_new sid initial_seq st =
     \<lparr>r_session_id = sid, sack_mgr = manager_new initial_seq, r_stats = st, pool = pool_new, data_seen = False\<rparr>"

text \<open>The old interval is read after \<open>tick\<close>, as in the source.\<close>

definition send_heartbeat_sack :: "u64 \<Rightarrow> receiver \<Rightarrow> (duration option \<times> receiver \<times> action list) outcome" where
  "send_heartbeat_sack now_us r =
     (let (sack, mgr) = tick (sack_mgr r);
          old_interval = heartbeat_interval mgr;
          hdr = new_heartbeat_sack (r_session_id r) 0 now_us (of_nat (wire_size sack))
      in case write_to hdr (replicate HEADER_SIZE 0) of
           Panic \<Rightarrow> Panic
         | Return buf0 \<Rightarrow>
             (case serialise sack buf0 of
                Panic \<Rightarrow> Panic
              | Return buf \<Rightarrow>
                  let new_interval = heartbeat_interval mgr in
                  Return (if new_interval \<noteq> old_interval then Some new_interval else None,
                          r\<lparr>sack_mgr := mgr\<rparr>,
                          [OfferSack sack] @ (if data_seen r then [Transmit buf] else []))))"

definition process_data :: "rudp_header \<Rightarrow> bytes \<Rightarrow> receiver \<Rightarrow> (bool option \<times> receiver \<times> action list) option" where
  "process_data hdr buf r =
     (let r1 = r\<lparr>data_seen := True\<rparr>; plen = unat (payload_len hdr) in
      if length buf < HEADER_SIZE + plen then Some (None, r1, [])
      else case on_packet_received (sack_mgr r1) (sequence_number hdr) of
             None \<Rightarrow> None
           | Some mgr \<Rightarrow>
               Some (Some False,
                     r1\<lparr>sack_mgr := mgr,
                        r_stats := (r_stats r1)\<lparr>packets_acked := packets_acked (r_stats r1) + 1,
                                     bytes_acked := bytes_acked (r_stats r1) + of_nat plen\<rparr>\<rparr>,
                     [Deliver (slice HEADER_SIZE (HEADER_SIZE + plen) buf)]))"

definition process_datagram :: "u64 \<Rightarrow> receiver \<Rightarrow> bytes \<Rightarrow> (bool option \<times> receiver \<times> action list) outcome option" where
  "process_datagram now_us r buf =
     (case read_from buf of
        None \<Rightarrow> Some (Return (None, r, []))
      | Some hdr \<Rightarrow>
          if session_id hdr \<noteq> r_session_id r then Some (Return (None, r, []))
          else if is_data hdr then map_option Return (process_data hdr buf r)
          else if is_ping hdr then
            (case write_to (new_pong (r_session_id r) (sequence_number hdr) (timestamp_us hdr))
                           (replicate HEADER_SIZE 0) of
               Panic \<Rightarrow> Some Panic
             | Return out \<Rightarrow> Some (Return (Some False, r, [Transmit out])))
          else if is_pong hdr then
            Some (Return (Some False, r\<lparr>r_stats := handle_pong now_us (r_stats r) (timestamp_us hdr)\<rparr>, []))
          else if is_fin hdr then
            (case send_heartbeat_sack now_us r of
               Panic \<Rightarrow> Some Panic
             | Return (_, r', acts) \<Rightarrow> Some (Return (Some True, r', acts)))
          else Some (Return (Some False, r, [])))"

section \<open>A batch\<close>

text \<open>
  The answer of \<open>recvmmsg\<close>: its return value, the lengths it filled in, and the pool it wrote
  the datagrams into.
\<close>

type_synonym recvmmsg = "bytes \<Rightarrow> int \<times> u32 list \<times> bytes"

definition recv_batch_recvmmsg :: "recvmmsg \<Rightarrow> bytes \<Rightarrow> ((nat \<times> nat) list \<times> bytes) outcome" where
  "recv_batch_recvmmsg recvmmsg storage =
     (let (received, msg_lens, storage') = recvmmsg storage in
      if received \<le> 0 then Return ([], storage')
      else if length msg_lens < nat received then Panic
      else Return (map (\<lambda>i. (i, unat (msg_lens ! i))) [0..<nat received], storage'))"

fun recv_loop ::
  "(nat \<Rightarrow> u64) \<Rightarrow> (nat \<times> nat) list \<Rightarrow> receiver \<Rightarrow> action list \<Rightarrow> (bool \<times> receiver \<times> action list) outcome option" where
  "recv_loop now_us [] r acts = Some (Return (False, r, acts))"
| "recv_loop now_us ((slot_idx, nbytes) # rest) r acts =
     (case slot (pool r) slot_idx nbytes of
        Panic \<Rightarrow> Some Panic
      | Return owned \<Rightarrow>
          (case process_datagram (now_us slot_idx) r owned of
             None \<Rightarrow> None
           | Some Panic \<Rightarrow> Some Panic
           | Some (Return (res, r', a)) \<Rightarrow>
               if res = Some True then Some (Return (True, r', acts @ a))
               else recv_loop now_us rest r' (acts @ a)))"

definition recv_batch ::
  "recvmmsg \<Rightarrow> (nat \<Rightarrow> u64) \<Rightarrow> receiver \<Rightarrow> (bool \<times> receiver \<times> action list) outcome option" where
  "recv_batch recvmmsg now_us r =
     (case recv_batch_recvmmsg recvmmsg (pool r) of
        Panic \<Rightarrow> Some Panic
      | Return (received, storage) \<Rightarrow> recv_loop now_us received (r\<lparr>pool := storage\<rparr>) [])"

section \<open>The loop\<close>

datatype receiver_event = HeartbeatTick u64 | Readable bool recvmmsg "nat \<Rightarrow> u64"

text \<open>
  One iteration of \<open>run\<close> on the receiver and the period of its heartbeat timer; the flag says
  that the loop breaks.
\<close>

fun receiver_iteration ::
  "receiver_event \<Rightarrow> receiver \<times> duration \<Rightarrow> (bool \<times> (receiver \<times> duration) \<times> action list) outcome option" where
  "receiver_iteration (HeartbeatTick now_us) (r, period) =
     (case send_heartbeat_sack now_us r of
        Panic \<Rightarrow> Some Panic
      | Return (Some new_interval, r', acts) \<Rightarrow> Some (Return (False, (r', new_interval), acts))
      | Return (None, r', acts) \<Rightarrow> Some (Return (False, (r', period), acts)))"
| "receiver_iteration (Readable ready recvmmsg now_us) (r, period) =
     (if ready then
        (case recv_batch recvmmsg now_us r of
           None \<Rightarrow> None
         | Some Panic \<Rightarrow> Some Panic
         | Some (Return (fin, r', acts)) \<Rightarrow> Some (Return (fin, (r', period), acts)))
      else Some (Return (False, (r, period), [])))"


section \<open>One datagram\<close>

text \<open>The sequence number and the payload of a DATA datagram that the receiver accepts.\<close>

definition data_of :: "u32 \<Rightarrow> bytes \<Rightarrow> (u64 \<times> bytes) option" where
  "data_of sid buf =
     (case read_from buf of
        None \<Rightarrow> None
      | Some h \<Rightarrow>
          if session_id h = sid \<and> is_data h \<and> HEADER_SIZE + unat (payload_len h) \<le> length buf
          then Some (sequence_number h, slice HEADER_SIZE (HEADER_SIZE + unat (payload_len h)) buf)
          else None)"

definition ends_session :: "u32 \<Rightarrow> bytes \<Rightarrow> bool" where
  "ends_session sid buf =
     (case read_from buf of
        None \<Rightarrow> False
      | Some h \<Rightarrow> session_id h = sid \<and> \<not> is_data h \<and> \<not> is_ping h \<and> \<not> is_pong h \<and> is_fin h)"

definition deliveries :: "action list \<Rightarrow> bytes list" where
  "deliveries acts = concat (map (\<lambda>a. case a of Deliver p \<Rightarrow> [p] | _ \<Rightarrow> []) acts)"

definition offered :: "action list \<Rightarrow> sack_payload list" where
  "offered acts = concat (map (\<lambda>a. case a of OfferSack k \<Rightarrow> [k] | _ \<Rightarrow> []) acts)"

lemma actions_simps [simp]:
  "deliveries [] = []" "deliveries (a @ b) = deliveries a @ deliveries b" "deliveries [Deliver p] = [p]"
  "deliveries (OfferSack k # a) = deliveries a" "deliveries (Transmit t # a) = deliveries a"
  "offered [] = []" "offered (a @ b) = offered a @ offered b" "offered [Deliver p] = []"
  "offered (OfferSack k # a) = k # offered a" "offered (Transmit t # a) = offered a"
  by (simp_all add: deliveries_def offered_def)

definition receiver_inv :: "u32 \<Rightarrow> nat \<Rightarrow> receiver \<Rightarrow> bool" where
  "receiver_inv sid N r \<longleftrightarrow> r_session_id r = sid \<and> manager_inv (sack_mgr r) \<and>
     length (pool r) = POOL_SIZE * BUF_SIZE \<and> (\<forall>q. is_received (payload (sack_mgr r)) q \<longrightarrow> unat q < N)"

abbreviation acked :: "receiver \<Rightarrow> u64 \<Rightarrow> bool" where
  "acked r \<equiv> is_received (payload (sack_mgr r))"

lemma payload_tick [simp]: "payload (snd (tick m)) = payload m" "fst (tick m) = payload m"
  by (simp_all add: tick_def Let_def)

lemma send_heartbeat_sack_eq:
  assumes "sack_wf (payload (sack_mgr r))"
  shows "send_heartbeat_sack now r = Return (None, r\<lparr>sack_mgr := snd (tick (sack_mgr r))\<rparr>,
    [OfferSack (payload (sack_mgr r))] @ (if data_seen r
       then [Transmit (datagram (new_heartbeat_sack (r_session_id r) 0 now
               (of_nat (wire_size (payload (sack_mgr r))))) (sack_bytes (payload (sack_mgr r))))] else []))"
proof -
  obtain k m where t: "tick (sack_mgr r) = (k, m)" by fastforce
  then have "k = payload (sack_mgr r)" using payload_tick(2)[of "sack_mgr r"] by simp
  then show ?thesis using t assms
    by (simp add: send_heartbeat_sack_def write_to_def serialise_eq(1) datagram_eq Let_def)
qed

lemma receiver_inv_tick:
  "receiver_inv sid N r \<Longrightarrow> receiver_inv sid N (r\<lparr>sack_mgr := snd (tick (sack_mgr r))\<rparr>)"
  by (simp add: receiver_inv_def manager_inv_def)

text \<open>
  Whatever bytes arrive, the dispatch returns; it delivers a payload exactly for an accepted
  DATA datagram and acknowledges no other sequence number.
\<close>

definition datagram_effect :: "u32 \<Rightarrow> nat \<Rightarrow> bytes \<Rightarrow> receiver \<Rightarrow> bool option \<times> receiver \<times> action list \<Rightarrow> bool" where
  "datagram_effect sid N buf r x = (case x of (res, r', acts) \<Rightarrow>
     receiver_inv sid N r' \<and> pool r' = pool r \<and> (res = Some True \<longleftrightarrow> ends_session sid buf) \<and>
     deliveries acts = map snd (case data_of sid buf of None \<Rightarrow> [] | Some d \<Rightarrow> [d]) \<and>
     (\<forall>q. acked r' q \<longrightarrow> acked r q \<or> (\<exists>p. data_of sid buf = Some (q, p))) \<and>
     (\<forall>q. acked r q \<longrightarrow> acked r' q) \<and>
     (\<forall>k\<in>set (offered acts). k = payload (sack_mgr r)))"

lemma process_data_effect:
  assumes inv: "receiver_inv sid N r" and N: "N + 1024 < 2 ^ 64"
    and h: "read_from buf = Some h" "session_id h = sid" "is_data h"
    and d: "\<forall>q p. data_of sid buf = Some (q, p) \<longrightarrow> unat q < N"
  shows "\<exists>x. process_data h buf r = Some x \<and> datagram_effect sid N buf r x"
proof (cases "length buf < HEADER_SIZE + unat (payload_len h)")
  case True
  then show ?thesis using inv h
    by (auto simp: process_data_def datagram_effect_def data_of_def ends_session_def receiver_inv_def)
next
  case False
  let ?q = "sequence_number h" and ?m = "sack_mgr r"
  define p where "p = slice HEADER_SIZE (HEADER_SIZE + unat (payload_len h)) buf"
  have dat: "data_of sid buf = Some (?q, p)" using h False by (simp add: data_of_def p_def)
  have q: "unat ?q < N" using d dat by blast
  have "unat (base_seq (payload ?m)) \<le> N" using inv N by (intro base_bound) (auto simp: receiver_inv_def)
  then obtain m where m: "on_packet_received ?m ?q = Some m" "manager_inv m"
    "\<forall>x. is_received (payload m) x \<longleftrightarrow>
       is_received (payload ?m) x \<or> (x = ?q \<and> unat ?q < unat (base_seq (payload ?m)) + 1024)"
    using on_packet_received_window[of ?m ?q] inv N by (auto simp: receiver_inv_def manager_inv_def)
  have "\<not> ends_session sid buf" using h by (simp add: ends_session_def)
  then show ?thesis using inv False m q dat
    by (auto simp: process_data_def datagram_effect_def receiver_inv_def p_def[symmetric])
qed

lemma process_datagram_effect:
  assumes inv: "receiver_inv sid N r" and N: "N + 1024 < 2 ^ 64"
    and d: "\<forall>q p. data_of sid buf = Some (q, p) \<longrightarrow> unat q < N"
  shows "\<exists>x. process_datagram now r buf = Some (Return x) \<and> datagram_effect sid N buf r x"
proof -
  have sid: "r_session_id r = sid" and wf: "sack_wf (payload (sack_mgr r))"
    using inv by (auto simp: receiver_inv_def manager_inv_def)
  have quiet: "datagram_effect sid N buf r (res, r', acts)"
    if "sack_mgr r' = sack_mgr r" "pool r' = pool r" "r_session_id r' = r_session_id r" "data_of sid buf = None"
      "deliveries acts = []" "offered acts = []" "res \<noteq> Some True" "\<not> ends_session sid buf" for res r' acts
    using that inv by (simp add: datagram_effect_def receiver_inv_def)
  consider (bad) "read_from buf = None \<or> (\<exists>h. read_from buf = Some h \<and> session_id h \<noteq> sid)"
    | (data) h where "read_from buf = Some h" "session_id h = sid" "is_data h"
    | (fin) h where "read_from buf = Some h" "session_id h = sid" "\<not> is_data h" "ends_session sid buf"
    | (ctl) h where "read_from buf = Some h" "session_id h = sid" "\<not> is_data h" "\<not> ends_session sid buf"
    by (cases "read_from buf") auto
  then show ?thesis
  proof cases
    case bad
    then have "data_of sid buf = None" "\<not> ends_session sid buf" by (auto simp: data_of_def ends_session_def)
    moreover have "process_datagram now r buf = Some (Return (None, r, []))"
      using bad sid by (auto simp: process_datagram_def)
    ultimately show ?thesis using quiet[of r "[]" None] by simp
  next
    case data
    then show ?thesis using process_data_effect[OF inv N _ _ _ d] sid by (auto simp: process_datagram_def)
  next
    case fin
    then have "data_of sid buf = None" by (simp add: data_of_def)
    then show ?thesis using fin sid inv wf
      by (auto simp: process_datagram_def ends_session_def send_heartbeat_sack_eq datagram_effect_def
          receiver_inv_tick)
  next
    case ctl
    then have "data_of sid buf = None" by (simp add: data_of_def)
    moreover have "\<exists>res r' acts. process_datagram now r buf = Some (Return (res, r', acts)) \<and>
        sack_mgr r' = sack_mgr r \<and> pool r' = pool r \<and> r_session_id r' = r_session_id r \<and>
        deliveries acts = [] \<and> offered acts = [] \<and> res \<noteq> Some True"
      using ctl sid by (auto simp: process_datagram_def ends_session_def write_to_def)
    ultimately show ?thesis using quiet ctl(4) by blast
  qed
qed


section \<open>A stream of datagrams\<close>

text \<open>The datagrams one after the other, up to the first that ends the session.\<close>

fun process_stream ::
  "(nat \<Rightarrow> u64) \<Rightarrow> nat \<Rightarrow> bytes list \<Rightarrow> receiver \<Rightarrow> action list \<Rightarrow> (bool \<times> receiver \<times> action list) outcome option" where
  "process_stream now_us i [] r acts = Some (Return (False, r, acts))"
| "process_stream now_us i (dg # dgs) r acts =
     (case process_datagram (now_us i) r dg of
        None \<Rightarrow> None
      | Some Panic \<Rightarrow> Some Panic
      | Some (Return (res, r', a)) \<Rightarrow>
          if res = Some True then Some (Return (True, r', acts @ a))
          else process_stream now_us (Suc i) dgs r' (acts @ a))"

fun until_end :: "u32 \<Rightarrow> bytes list \<Rightarrow> bytes list" where
  "until_end sid [] = []"
| "until_end sid (dg # dgs) = (if ends_session sid dg then [dg] else dg # until_end sid dgs)"

abbreviation arrivals :: "u32 \<Rightarrow> bytes list \<Rightarrow> (u64 \<times> bytes) list" where
  "arrivals sid dgs \<equiv> List.map_filter (data_of sid) (until_end sid dgs)"

text \<open>
  What the kernel promises about \<open>recvmmsg\<close>: at most 64 datagrams, each written to the start
  of its slot (a longer one is cut to the slot), its length filled in; a failure writes nothing.
\<close>

definition recv_ok :: "recvmmsg \<Rightarrow> bytes list \<Rightarrow> bool" where
  "recv_ok k dgs \<longleftrightarrow> length dgs \<le> RECV_BATCH \<and> (\<forall>dg\<in>set dgs. length dg \<le> BUF_SIZE) \<and>
     (\<forall>st. length st = POOL_SIZE * BUF_SIZE \<longrightarrow>
        (case k st of (n, lens, st') \<Rightarrow>
           (n = int (length dgs) \<or> n < 0 \<and> dgs = []) \<and> length lens = RECV_BATCH \<and> length st' = length st \<and>
           (\<forall>i < length dgs. unat (lens ! i) = length (dgs ! i) \<and>
              slice (i * BUF_SIZE) (i * BUF_SIZE + length (dgs ! i)) st' = dgs ! i)))"

definition stream_effect :: "u32 \<Rightarrow> nat \<Rightarrow> bytes list \<Rightarrow> receiver \<Rightarrow> action list \<Rightarrow> bool \<times> receiver \<times> action list \<Rightarrow> bool" where
  "stream_effect sid N dgs r acts x = (case x of (fin, r', acts') \<Rightarrow>
     receiver_inv sid N r' \<and> pool r' = pool r \<and> (fin \<longleftrightarrow> (\<exists>dg\<in>set dgs. ends_session sid dg)) \<and>
     deliveries acts' = deliveries acts @ map snd (arrivals sid dgs) \<and>
     (\<forall>q. acked r' q \<longrightarrow> acked r q \<or> q \<in> fst ` set (arrivals sid dgs)) \<and>
     (\<forall>q. acked r q \<longrightarrow> acked r' q) \<and>
     (\<forall>k\<in>set (offered acts'). k \<in> set (offered acts) \<or>
        (\<forall>q. is_received k q \<longrightarrow> acked r q \<or> q \<in> fst ` set (arrivals sid dgs))))"

lemma stream_effect_step:
  assumes eff: "datagram_effect sid N dg r (res, r1, a)" and ne: "\<not> ends_session sid dg"
    and st: "stream_effect sid N dgs r1 (acts @ a) (fin, r', acts')"
  shows "stream_effect sid N (dg # dgs) r acts (fin, r', acts')"
proof -
  define D where "D = (case data_of sid dg of None \<Rightarrow> [] | Some d \<Rightarrow> [d])"
  have arr: "arrivals sid (dg # dgs) = D @ arrivals sid dgs"
    using ne by (simp add: D_def List.map_filter_simps split: option.split)
  have mem: "(\<exists>p. data_of sid dg = Some (q, p)) \<longleftrightarrow> q \<in> fst ` set D" for q
    by (cases "data_of sid dg") (auto simp: D_def prod_eq_iff)
  have e: "pool r1 = pool r" "deliveries a = map snd D" "\<forall>q. acked r1 q \<longrightarrow> acked r q \<or> q \<in> fst ` set D"
    "\<forall>q. acked r q \<longrightarrow> acked r1 q" "\<forall>k\<in>set (offered a). \<forall>q. is_received k q \<longrightarrow> acked r q"
    using eff by (simp_all add: datagram_effect_def mem D_def[symmetric])
  note t = st[unfolded stream_effect_def prod.case]
  have "\<forall>q. acked r' q \<longrightarrow> acked r q \<or> q \<in> fst ` set (arrivals sid (dg # dgs))"
    using t e(3) unfolding arr set_append image_Un by blast
  moreover have "deliveries acts' = deliveries acts @ map snd (arrivals sid (dg # dgs))"
    using t e(2) unfolding arr by simp
  moreover have "\<forall>k\<in>set (offered acts'). k \<in> set (offered acts) \<or>
      (\<forall>q. is_received k q \<longrightarrow> acked r q \<or> q \<in> fst ` set (arrivals sid (dg # dgs)))"
    using t e(3,5) unfolding arr set_append image_Un actions_simps by blast
  moreover have "receiver_inv sid N r'" "pool r' = pool r" "fin \<longleftrightarrow> (\<exists>d\<in>set (dg # dgs). ends_session sid d)"
    "\<forall>q. acked r q \<longrightarrow> acked r' q"
    using t e(1,4) ne by auto
  ultimately show ?thesis unfolding stream_effect_def prod.case by blast
qed

lemma process_stream_effect:
  assumes "receiver_inv sid N r" "N + 1024 < 2 ^ 64" "\<forall>(q, p)\<in>set (arrivals sid dgs). unat q < N"
  shows "\<exists>x. process_stream now_us i dgs r acts = Some (Return x) \<and> stream_effect sid N dgs r acts x"
  using assms(1,3)
proof (induction dgs arbitrary: i r acts)
  case Nil
  then show ?case by (auto simp: stream_effect_def List.map_filter_simps)
next
  case (Cons dg dgs)
  have "\<forall>q p. data_of sid dg = Some (q, p) \<longrightarrow> unat q < N"
    using Cons.prems(2) by (auto simp: List.map_filter_simps split: if_splits option.splits)
  from process_datagram_effect[OF Cons.prems(1) assms(2) this, of "now_us i"]
  obtain res r1 a where pd: "process_datagram (now_us i) r dg = Some (Return (res, r1, a))"
    and eff: "datagram_effect sid N dg r (res, r1, a)" by auto
  show ?case
  proof (cases "ends_session sid dg")
    case True
    then have "data_of sid dg = None" by (auto simp: ends_session_def data_of_def split: option.splits)
    then show ?thesis using True pd eff
      by (auto simp: datagram_effect_def stream_effect_def List.map_filter_simps)
  next
    case False
    have "\<forall>(q, p)\<in>set (arrivals sid dgs). unat q < N"
      using Cons.prems(2) False by (auto simp: List.map_filter_simps split: option.splits)
    moreover have "receiver_inv sid N r1" using eff by (simp add: datagram_effect_def)
    ultimately obtain x where x: "process_stream now_us (Suc i) dgs r1 (acts @ a) = Some (Return x)"
      "stream_effect sid N dgs r1 (acts @ a) x" using Cons.IH by blast
    have "process_stream now_us i (dg # dgs) r acts = Some (Return x)"
      using pd x False eff by (auto simp: datagram_effect_def)
    moreover have "stream_effect sid N (dg # dgs) r acts x"
      using stream_effect_step[OF eff False] x(2) by (cases x) blast
    ultimately show ?thesis by blast
  qed
qed


section \<open>The batch reads the slots\<close>

lemma recv_loop_stream:
  assumes "receiver_inv sid N r" "N + 1024 < 2 ^ 64" "\<forall>(q, p)\<in>set (arrivals sid dgs). unat q < N"
    "\<forall>i < length dgs. slot (pool r) (a + i) (length (dgs ! i)) = Return (dgs ! i)"
  shows "recv_loop now_us (map (\<lambda>i. (a + i, length (dgs ! i))) [0..<length dgs]) r acts =
         process_stream now_us a dgs r acts"
  using assms(1,3,4)
proof (induction dgs arbitrary: a r acts)
  case (Cons dg dgs)
  have pairs: "map (\<lambda>i. (a + i, length ((dg # dgs) ! i))) [0..<length (dg # dgs)] =
      (a, length dg) # map (\<lambda>i. (Suc a + i, length (dgs ! i))) [0..<length dgs]"
    by (simp add: upt_conv_Cons map_Suc_upt[symmetric] del: upt_Suc)
  have d: "\<forall>q p. data_of sid dg = Some (q, p) \<longrightarrow> unat q < N"
    using Cons.prems(2) by (auto simp: List.map_filter_simps split: if_splits option.splits)
  from process_datagram_effect[OF Cons.prems(1) assms(2) d, of "now_us a"]
  obtain res r1 x where pd: "process_datagram (now_us a) r dg = Some (Return (res, r1, x))"
    and eff: "datagram_effect sid N dg r (res, r1, x)" by auto
  have s0: "slot (pool r) a (length dg) = Return dg" using Cons.prems(3) by force
  show ?case
  proof (cases "res = Some True")
    case True
    then show ?thesis unfolding pairs using pd s0 by simp
  next
    case False
    then have ne: "\<not> ends_session sid dg" using eff by (simp add: datagram_effect_def)
    have "recv_loop now_us (map (\<lambda>i. (Suc a + i, length (dgs ! i))) [0..<length dgs]) r1 (acts @ x) =
        process_stream now_us (Suc a) dgs r1 (acts @ x)"
    proof (rule Cons.IH)
      show "receiver_inv sid N r1" using eff by (simp add: datagram_effect_def)
      show "\<forall>(q, p)\<in>set (arrivals sid dgs). unat q < N"
        using Cons.prems(2) ne by (auto simp: List.map_filter_simps split: option.splits)
      show "\<forall>i < length dgs. slot (pool r1) (Suc a + i) (length (dgs ! i)) = Return (dgs ! i)"
        using Cons.prems(3) eff by (auto simp: datagram_effect_def dest: spec[of _ "Suc _"])
    qed
    then show ?thesis unfolding pairs using pd s0 False by simp
  qed
qed simp

lemma recv_batch_stream:
  assumes "receiver_inv sid N r" "N + 1024 < 2 ^ 64" "\<forall>(q, p)\<in>set (arrivals sid dgs). unat q < N"
    "recv_ok k dgs"
  shows "\<exists>st. length st = length (pool r) \<and>
    recv_batch k now_us r = process_stream now_us 0 dgs (r\<lparr>pool := st\<rparr>) []"
proof -
  obtain n lens st where k: "k (pool r) = (n, lens, st)" using prod_cases3 by blast
  have ok: "n = int (length dgs) \<or> n < 0 \<and> dgs = []" "length lens = RECV_BATCH" "length st = length (pool r)"
    "\<forall>i < length dgs. unat (lens ! i) = length (dgs ! i) \<and>
       slice (i * BUF_SIZE) (i * BUF_SIZE + length (dgs ! i)) st = dgs ! i"
    and len: "length dgs \<le> RECV_BATCH" "\<forall>dg\<in>set dgs. length dg \<le> BUF_SIZE"
    and st: "length st = POOL_SIZE * BUF_SIZE"
    using assms(1,4) k by (auto simp: recv_ok_def receiver_inv_def)
  have "slot st i (length (dgs ! i)) = Return (dgs ! i)" if "i < length dgs" for i
  proof -
    have "length (dgs ! i) \<le> BUF_SIZE" "i < RECV_BATCH" using len nth_mem[OF that] that by auto
    then have "i * BUF_SIZE + length (dgs ! i) \<le> length st"
      unfolding st by (simp add: POOL_SIZE_def RECV_BATCH_def BUF_SIZE_def)
    then show ?thesis using ok(4) that by (simp add: slot_def Let_def)
  qed
  moreover have "receiver_inv sid N (r\<lparr>pool := st\<rparr>)" using assms(1) st by (simp add: receiver_inv_def)
  ultimately have "recv_loop now_us (map (\<lambda>i. (0 + i, length (dgs ! i))) [0..<length dgs]) (r\<lparr>pool := st\<rparr>) [] =
      process_stream now_us 0 dgs (r\<lparr>pool := st\<rparr>) []"
    using assms(2,3) by (intro recv_loop_stream) simp_all
  moreover have "recv_batch_recvmmsg k (pool r) = Return (map (\<lambda>i. (0 + i, length (dgs ! i))) [0..<length dgs], st)"
    using k ok len by (auto simp: recv_batch_recvmmsg_def)
  ultimately show ?thesis using ok(3) by (auto simp: recv_batch_def)
qed


section \<open>Properties of the receiver\<close>

lemma process_data_exact:
  assumes "manager_inv (sack_mgr r)" "unat (base_seq (payload (sack_mgr r))) + 1024 < 2 ^ 64"
    and h: "read_from buf = Some h" "session_id h = r_session_id r" "is_data h"
  shows "\<exists>res r' acts. process_data h buf r = Some (res, r', acts) \<and> manager_inv (sack_mgr r') \<and> res \<noteq> Some True \<and>
    deliveries acts = map snd (case data_of (r_session_id r) buf of None \<Rightarrow> [] | Some d \<Rightarrow> [d]) \<and>
    {q. acked r' q} = {q. acked r q} \<union>
      {q. \<exists>p. data_of (r_session_id r) buf = Some (q, p) \<and> unat q < unat (base_seq (payload (sack_mgr r))) + 1024}"
proof (cases "length buf < HEADER_SIZE + unat (payload_len h)")
  case True
  then show ?thesis using assms by (simp add: process_data_def data_of_def)
next
  case False
  let ?q = "sequence_number h" and ?m = "sack_mgr r"
  obtain m where m: "on_packet_received ?m ?q = Some m" "manager_inv m"
    "\<forall>x. is_received (payload m) x \<longleftrightarrow>
       is_received (payload ?m) x \<or> (x = ?q \<and> unat ?q < unat (base_seq (payload ?m)) + 1024)"
    using on_packet_received_window[of ?m ?q] assms(1,2) by (auto simp: manager_inv_def)
  show ?thesis using False m h by (auto simp: process_data_def data_of_def)
qed

text \<open>What a datagram does, whatever its bytes are.\<close>

lemma process_datagram_exact:
  assumes "manager_inv (sack_mgr r)" "unat (base_seq (payload (sack_mgr r))) + 1024 < 2 ^ 64"
  shows "\<exists>res r' acts. process_datagram now r buf = Some (Return (res, r', acts)) \<and>
    manager_inv (sack_mgr r') \<and> (res = Some True \<longleftrightarrow> ends_session (r_session_id r) buf) \<and>
    deliveries acts = map snd (case data_of (r_session_id r) buf of None \<Rightarrow> [] | Some d \<Rightarrow> [d]) \<and>
    {q. acked r' q} = {q. acked r q} \<union>
      {q. \<exists>p. data_of (r_session_id r) buf = Some (q, p) \<and> unat q < unat (base_seq (payload (sack_mgr r))) + 1024}"
proof -
  let ?sid = "r_session_id r"
  have wf: "sack_wf (payload (sack_mgr r))" using assms(1) by (simp add: manager_inv_def)
  consider (data) h where "read_from buf = Some h" "session_id h = ?sid" "is_data h" "\<not> ends_session ?sid buf"
    | (fin) h where "read_from buf = Some h" "session_id h = ?sid" "\<not> is_data h" "ends_session ?sid buf"
    | (ctl) "\<nexists>h. read_from buf = Some h \<and> session_id h = ?sid \<and> is_data h" "\<not> ends_session ?sid buf"
    by (cases "read_from buf") (auto simp: ends_session_def)
  then show ?thesis
  proof cases
    case data
    then show ?thesis using process_data_exact[OF assms data(1-3)] by (auto simp: process_datagram_def)
  next
    case fin
    then have "data_of ?sid buf = None" by (simp add: data_of_def)
    then show ?thesis using fin wf assms(1)
      by (auto simp: process_datagram_def ends_session_def send_heartbeat_sack_eq manager_inv_def)
  next
    case ctl
    have "data_of ?sid buf = None" using ctl(1) by (auto simp: data_of_def split: option.split)
    moreover have "\<exists>res r' acts. process_datagram now r buf = Some (Return (res, r', acts)) \<and>
        sack_mgr r' = sack_mgr r \<and> deliveries acts = [] \<and> res \<noteq> Some True"
      using ctl(1,2) by (auto simp: process_datagram_def ends_session_def write_to_def split: option.split)
    ultimately show ?thesis using ctl(2) assms(1) by auto
  qed
qed

text \<open>
  C10: the dispatch is total on hostile input.  Whatever bytes arrive, \<open>process_datagram\<close>
  returns without a panic and keeps the SACK bitmap well formed; it delivers one payload
  exactly when the bytes are a complete DATA datagram of this session, acknowledges exactly that
  sequence number (when it lies in the window) and nothing else, and asks the loop to end exactly
  for a FIN of this session.  Short, truncated and foreign datagrams deliver nothing.
\<close>

theorem process_datagram_total:
  assumes "manager_inv (sack_mgr r)" "unat (base_seq (payload (sack_mgr r))) + 1024 < 2 ^ 64"
  shows "\<exists>res r' acts. process_datagram now r buf = Some (Return (res, r', acts)) \<and>
    manager_inv (sack_mgr r') \<and> (res = Some True \<longleftrightarrow> ends_session (r_session_id r) buf) \<and>
    deliveries acts = map snd (case data_of (r_session_id r) buf of None \<Rightarrow> [] | Some d \<Rightarrow> [d]) \<and>
    {q. acked r' q} = {q. acked r q} \<union>
      {q. \<exists>p. data_of (r_session_id r) buf = Some (q, p) \<and> unat q < unat (base_seq (payload (sack_mgr r))) + 1024}"
  using process_datagram_exact[OF assms] .

theorem process_datagram_total_witness:
  "\<exists>res r' acts. process_datagram 9 (receiver_new 42 0 stats_new) (datagram (new_data 42 0 5 4) [222, 173, 190, 239]) =
     Some (Return (res, r', acts)) \<and> deliveries acts = [[222, 173, 190, 239]] \<and> acked r' 0"
proof -
  let ?dg = "datagram (new_data 42 0 5 4) [222, 173, 190, 239]"
  have d: "data_of 42 ?dg = Some (0, [222, 173, 190, 239])"
    by (simp add: data_of_def datagram_eq hdr.dec_enc slice_def HEADER_SIZE_def)
  have "manager_inv (sack_mgr (receiver_new 42 0 stats_new))"
    by (simp add: receiver_new_def manager_inv_new)
  from process_datagram_total[OF this, of 9 ?dg] show ?thesis
    by (auto simp: receiver_new_def d manager_new_def)
qed

text \<open>
  C17: the batched receive is the datagrams in order.  When \<open>recvmmsg\<close> has put datagrams into
  the slots of the pool, the batch behaves as if \<open>process_datagram\<close> had been called on each of
  them in their order of arrival, up to the first FIN: no slot is out of range, none is read
  beyond its datagram, and none is mixed with another.
\<close>

theorem recv_batch_refines_stream:
  assumes "receiver_inv sid N r" "N + 1024 < 2 ^ 64" "\<forall>(q, p)\<in>set (arrivals sid dgs). unat q < N"
    "recv_ok k dgs"
  shows "\<exists>st fin r' acts. length st = length (pool r) \<and>
    process_stream now_us 0 dgs (r\<lparr>pool := st\<rparr>) [] = Some (Return (fin, r', acts)) \<and>
    recv_batch k now_us r = Some (Return (fin, r', acts)) \<and>
    (fin \<longleftrightarrow> (\<exists>dg\<in>set dgs. ends_session sid dg)) \<and> deliveries acts = map snd (arrivals sid dgs)"
proof -
  obtain st where st: "length st = length (pool r)"
    "recv_batch k now_us r = process_stream now_us 0 dgs (r\<lparr>pool := st\<rparr>) []"
    using recv_batch_stream[OF assms] by blast
  have "receiver_inv sid N (r\<lparr>pool := st\<rparr>)" using assms(1) st(1) by (simp add: receiver_inv_def)
  from process_stream_effect[OF this assms(2,3), of now_us 0 "[]"] obtain fin r' acts where
    "process_stream now_us 0 dgs (r\<lparr>pool := st\<rparr>) [] = Some (Return (fin, r', acts))"
    "stream_effect sid N dgs (r\<lparr>pool := st\<rparr>) [] (fin, r', acts)" by auto
  then show ?thesis using st
    by (intro exI[of _ st] exI[of _ fin] exI[of _ r'] exI[of _ acts]) (simp add: stream_effect_def)
qed

text \<open>A kernel that has two datagrams for the receiver.\<close>

definition example_recvmmsg :: "bytes \<Rightarrow> bytes \<Rightarrow> recvmmsg" where
  "example_recvmmsg a b st =
     (2, of_nat (length a) # of_nat (length b) # replicate 62 0,
      a @ slice (length a) 1500 st @ b @ drop (1500 + length b) st)"

lemma example_recv_ok:
  assumes "length a \<le> BUF_SIZE" "length b \<le> BUF_SIZE"
  shows "recv_ok (example_recvmmsg a b) [a, b]"
proof -
  have u: "unat (of_nat (length a) :: u32) = length a" "unat (of_nat (length b) :: u32) = length b"
    using assms by (simp_all add: BUF_SIZE_def unat_of_nat_small)
  show ?thesis using assms u
    by (auto simp: recv_ok_def example_recvmmsg_def less_Suc_eq slice_def POOL_SIZE_def RECV_BATCH_def BUF_SIZE_def
        numeral_2_eq_2)
qed

theorem recv_batch_refines_stream_witness:
  "let a = datagram (new_data 7 0 5 1) [65]; b = datagram (new_data 7 1 6 1) [66]; r = receiver_new 7 0 stats_new in
   \<exists>fin r' acts. recv_batch (example_recvmmsg a b) (\<lambda>_. 9) r = Some (Return (fin, r', acts)) \<and>
     deliveries acts = [[65], [66]]"
proof -
  let ?a = "datagram (new_data 7 0 5 1) [65]" and ?b = "datagram (new_data 7 1 6 1) [66]"
  have ok: "recv_ok (example_recvmmsg ?a ?b) [?a, ?b]"
    by (rule example_recv_ok) (simp_all add: datagram_eq HEADER_SIZE_def BUF_SIZE_def)
  have d: "data_of 7 ?a = Some (0, [65])" "data_of 7 ?b = Some (1, [66])"
    "\<not> ends_session 7 ?a" "\<not> ends_session 7 ?b"
    by (simp_all add: data_of_def ends_session_def datagram_eq hdr.dec_enc slice_def HEADER_SIZE_def)
  have "receiver_inv 7 2 (receiver_new 7 0 stats_new)"
    by (simp add: receiver_inv_def receiver_new_def manager_inv_new pool_new_def is_received_manager_new)
  from recv_batch_refines_stream[OF this _ _ ok, of "\<lambda>_. 9"] show ?thesis
    by (auto simp: d List.map_filter_simps Let_def)
qed


section \<open>Runs of the receiver\<close>

text \<open>
  The runs of \<open>Receiver::run\<close>: with the DATA that arrived (sequence number and payload), the
  payloads handed to the application, the SACKs offered to the sender, the receiver with the
  period of its heartbeat timer, and whether the loop goes on.  The sender's task updates the
  shared statistics in between.
\<close>

inductive receiver_run ::
  "u32 \<Rightarrow> u64 \<Rightarrow> (u64 \<times> bytes) list \<Rightarrow> bytes list \<Rightarrow> sack_payload list \<Rightarrow> receiver \<times> duration \<Rightarrow> bool \<Rightarrow> bool"
  for sid :: u32 and init :: u64 where
  start: "receiver_run sid init [] [] [] (receiver_new sid init st, from_millis 5) True"
| heartbeat: "receiver_run sid init arrived delivered sacks st True \<Longrightarrow>
    receiver_iteration (HeartbeatTick now) st = Some (Return (fin, st', acts)) \<Longrightarrow>
    receiver_run sid init arrived (delivered @ deliveries acts) (sacks @ offered acts) st' (\<not> fin)"
| readable: "receiver_run sid init arrived delivered sacks st True \<Longrightarrow> recv_ok k dgs \<Longrightarrow>
    receiver_iteration (Readable True k now_us) st = Some (Return (fin, st', acts)) \<Longrightarrow>
    receiver_run sid init (arrived @ arrivals sid dgs) (delivered @ deliveries acts) (sacks @ offered acts) st' (\<not> fin)"
| other_stats: "receiver_run sid init arrived delivered sacks (r, period) True \<Longrightarrow>
    receiver_run sid init arrived delivered sacks (r\<lparr>r_stats := stt\<rparr>, period) True"

definition run_inv ::
  "u32 \<Rightarrow> u64 \<Rightarrow> nat \<Rightarrow> (u64 \<times> bytes) list \<Rightarrow> bytes list \<Rightarrow> sack_payload list \<Rightarrow> receiver \<times> duration \<Rightarrow> bool" where
  "run_inv sid init N arrived delivered sacks st \<longleftrightarrow>
     receiver_inv sid N (fst st) \<and> snd st = from_millis 5 \<and> delivered = map snd arrived \<and>
     (\<forall>q. acked (fst st) q \<longrightarrow> q < init \<or> q \<in> fst ` set arrived) \<and>
     (\<forall>k\<in>set sacks. \<forall>q. is_received k q \<longrightarrow> q < init \<or> q \<in> fst ` set arrived)"

lemma run_inv_heartbeat:
  assumes "run_inv sid init N arrived delivered sacks st"
    "receiver_iteration (HeartbeatTick now) st = Some (Return (fin, st', acts))"
  shows "run_inv sid init N arrived (delivered @ deliveries acts) (sacks @ offered acts) st'"
proof -
  obtain r period where st: "st = (r, period)" by fastforce
  have wf: "sack_wf (payload (sack_mgr r))"
    using assms(1) st by (simp add: run_inv_def receiver_inv_def manager_inv_def)
  have "st' = (r\<lparr>sack_mgr := snd (tick (sack_mgr r))\<rparr>, period)" "deliveries acts = []"
    "offered acts = [payload (sack_mgr r)]"
    using assms(2) st by (auto simp: send_heartbeat_sack_eq[OF wf])
  then show ?thesis using assms(1) st receiver_inv_tick[of sid N r] by (auto simp: run_inv_def)
qed

lemma run_inv_readable:
  assumes "run_inv sid init N arrived delivered sacks st" "N + 1024 < 2 ^ 64" "recv_ok k dgs"
    "\<forall>(q, p)\<in>set (arrivals sid dgs). unat q < N"
    "receiver_iteration (Readable True k now_us) st = Some (Return (fin, st', acts))"
  shows "run_inv sid init N (arrived @ arrivals sid dgs) (delivered @ deliveries acts) (sacks @ offered acts) st'"
proof -
  obtain r period where st: "st = (r, period)" by fastforce
  have inv: "receiver_inv sid N r" using assms(1) st by (simp add: run_inv_def)
  obtain s where s: "length s = length (pool r)"
    "recv_batch k now_us r = process_stream now_us 0 dgs (r\<lparr>pool := s\<rparr>) []"
    using recv_batch_stream[OF inv assms(2,4,3)] by blast
  have "receiver_inv sid N (r\<lparr>pool := s\<rparr>)" using inv s(1) by (simp add: receiver_inv_def)
  from process_stream_effect[OF this assms(2,4), of now_us 0 "[]"] obtain f r' a where
    x: "recv_batch k now_us r = Some (Return (f, r', a))"
    and eff: "stream_effect sid N dgs (r\<lparr>pool := s\<rparr>) [] (f, r', a)" using s(2) by auto
  have "st' = (r', period)" "acts = a" using assms(5) st x by auto
  moreover have old: "\<forall>q. acked r q \<longrightarrow> q < init \<or> q \<in> fst ` set arrived" "snd st = from_millis 5"
    "\<forall>k\<in>set sacks. \<forall>q. is_received k q \<longrightarrow> q < init \<or> q \<in> fst ` set arrived" "delivered = map snd arrived"
    using assms(1) st by (simp_all add: run_inv_def)
  moreover have new: "\<forall>q. acked r' q \<longrightarrow> acked r q \<or> q \<in> fst ` set (arrivals sid dgs)"
    "\<forall>k\<in>set (offered a). \<forall>q. is_received k q \<longrightarrow> acked r q \<or> q \<in> fst ` set (arrivals sid dgs)"
    "receiver_inv sid N r'" "deliveries a = map snd (arrivals sid dgs)"
    using eff by (simp_all add: stream_effect_def)
  moreover have "\<forall>k\<in>set (offered a). \<forall>q. is_received k q \<longrightarrow> q < init \<or> q \<in> fst ` set arrived \<union> fst ` set (arrivals sid dgs)"
    using old(1) new(2) by blast
  ultimately show ?thesis by (auto simp: run_inv_def image_Un st)
qed

lemma receiver_run_inv:
  assumes "receiver_run sid init arrived delivered sacks st running"
    "unat init \<le> N" "N + 1024 < 2 ^ 64" "\<forall>(q, p)\<in>set arrived. unat q < N"
  shows "run_inv sid init N arrived delivered sacks st"
  using assms
proof (induction rule: receiver_run.induct)
  case (start st)
  have "\<forall>q. q < init \<longrightarrow> unat q < N" using start by (auto simp: word_less_nat_alt)
  then show ?case
    by (simp add: run_inv_def receiver_inv_def receiver_new_def manager_inv_new pool_new_def is_received_manager_new)
next
  case (heartbeat arrived delivered sacks st now fin st' acts)
  then show ?case by (intro run_inv_heartbeat) auto
next
  case (readable arrived delivered sacks st k dgs now_us fin st' acts)
  then show ?case by (intro run_inv_readable) auto
next
  case (other_stats arrived delivered sacks r period stt)
  then show ?case by (auto simp: run_inv_def receiver_inv_def)
qed

text \<open>
  Nothing is acknowledged that was not delivered.  In every run of the receiver, the
  application gets exactly the payloads of the DATA datagrams that arrived, in their order of
  arrival, and every SACK the receiver has offered to the sender acknowledges only sequence
  numbers that arrived (or lie below the initial one).
\<close>

theorem receiver_acknowledges_only_delivered:
  assumes "receiver_run sid init arrived delivered sacks st running"
    "unat init + 1024 < 2 ^ 64" "\<forall>(q, p)\<in>set arrived. unat q + 1025 < 2 ^ 64"
  shows "delivered = map snd arrived \<and>
    (\<forall>sack\<in>set sacks. \<forall>q. is_received sack q \<longrightarrow> q < init \<or> (\<exists>p. (q, p) \<in> set arrived \<and> p \<in> set delivered))"
proof -
  have "run_inv sid init (2 ^ 64 - 1025) arrived delivered sacks st"
    using assms(2,3) by (intro receiver_run_inv[OF assms(1)]) auto
  then have del: "delivered = map snd arrived"
    and ack: "\<forall>k\<in>set sacks. \<forall>q. is_received k q \<longrightarrow> q < init \<or> q \<in> fst ` set arrived"
    by (simp_all add: run_inv_def)
  have "\<exists>p. (q, p) \<in> set arrived \<and> p \<in> set delivered" if "q \<in> fst ` set arrived" for q
    using that unfolding del by (metis (no_types, lifting) imageE image_eqI list.set_map prod.collapse)
  then show ?thesis using del ack by blast
qed

text \<open>A run in which two datagrams arrive in one batch.\<close>

lemma two_datagrams_run:
  assumes d: "data_of sid a = Some x" "data_of sid b = Some y"
    and len: "length a \<le> BUF_SIZE" "length b \<le> BUF_SIZE" and small: "unat (fst x) < 1000" "unat (fst y) < 1000"
  shows "\<exists>delivered sacks st. receiver_run sid 0 [x, y] delivered sacks st True"
proof -
  let ?r = "receiver_new sid 0 stats_new"
  note ok = example_recv_ok[OF len]
  have ne: "\<not> ends_session sid a" "\<not> ends_session sid b"
    using d by (auto simp: data_of_def ends_session_def split: option.splits if_splits)
  have arr: "arrivals sid [a, b] = [x, y]" using d ne by (simp add: List.map_filter_simps)
  have inv: "receiver_inv sid 1000 ?r"
    by (simp add: receiver_inv_def receiver_new_def manager_inv_new pool_new_def is_received_manager_new)
  have seqs: "\<forall>(q, p)\<in>set (arrivals sid [a, b]). unat q < 1000" unfolding arr using small by auto
  obtain st fin r' acts where batch: "recv_batch (example_recvmmsg a b) (\<lambda>_. 9) ?r = Some (Return (fin, r', acts))"
    and eff: "stream_effect sid 1000 [a, b] (?r\<lparr>pool := st\<rparr>) [] (fin, r', acts)"
  proof -
    obtain st where st: "length st = length (pool ?r)"
      "recv_batch (example_recvmmsg a b) (\<lambda>_. 9) ?r = process_stream (\<lambda>_. 9) 0 [a, b] (?r\<lparr>pool := st\<rparr>) []"
      using recv_batch_stream[OF inv _ seqs ok] by auto
    have "receiver_inv sid 1000 (?r\<lparr>pool := st\<rparr>)" using inv st(1) by (simp add: receiver_inv_def)
    from process_stream_effect[OF this _ seqs, of "\<lambda>_. 9" 0 "[]"] show ?thesis
      using that unfolding st(2) by auto
  qed
  have "\<not> fin" using eff ne by (simp add: stream_effect_def)
  then have "receiver_iteration (Readable True (example_recvmmsg a b) (\<lambda>_. 9)) (?r, from_millis 5)
      = Some (Return (False, (r', from_millis 5), acts))" using batch by simp
  from receiver_run.readable[OF receiver_run.start ok this] show ?thesis unfolding arr by auto
qed

lemma data_of_datagram:
  assumes "length p < 2 ^ 16"
  shows "data_of sid (datagram (new_data sid q ts (of_nat (length p))) p) = Some (q, p)"
proof -
  have "unat (of_nat (length p) :: u16) = length p" using assms by (simp add: unat_of_nat_small)
  then show ?thesis by (simp add: data_of_def datagram_eq hdr.dec_enc slice_def)
qed

theorem receiver_acknowledges_only_delivered_witness:
  "\<exists>delivered sacks st. receiver_run 7 0 [(0, [65]), (1, [66])] delivered sacks st True \<and> delivered = [[65], [66]]"
proof -
  have "data_of 7 (datagram (new_data 7 0 5 1) [65]) = Some (0, [65])"
    "data_of 7 (datagram (new_data 7 1 6 1) [66]) = Some (1, [66])"
    using data_of_datagram[of "[65]" 7 0 5] data_of_datagram[of "[66]" 7 1 6] by simp_all
  from two_datagrams_run[OF this] obtain delivered sacks st where
    run: "receiver_run 7 0 [(0, [65]), (1, [66])] delivered sacks st True"
    by (auto simp: datagram_eq HEADER_SIZE_def BUF_SIZE_def)
  moreover have "delivered = [[65], [66]]" using receiver_acknowledges_only_delivered[OF run] by simp
  ultimately show ?thesis by blast
qed


text \<open>
  The heartbeat.  A heartbeat never panics and leaves the bitmap alone; it offers the current
  SACK to the sender task and, once data was seen, transmits a datagram whose header announces
  its payload length and whose payload deserialises to the same SACK.  The new interval is
  compared with one read after \<open>tick\<close> had already updated it, so no change is ever
  reported, and the timer of the loop keeps its first period of 5 ms in every run.
\<close>

theorem heartbeat_sends_current_sack:
  assumes "manager_inv (sack_mgr r)"
  shows "(\<exists>r' acts. receiver_iteration (HeartbeatTick now) (r, period) = Some (Return (False, (r', period), acts)) \<and>
      payload (sack_mgr r') = payload (sack_mgr r) \<and> offered acts = [payload (sack_mgr r)] \<and>
      (\<forall>dg. Transmit dg \<in> set acts \<longleftrightarrow> data_seen r \<and>
         dg = datagram (new_heartbeat_sack (r_session_id r) 0 now (of_nat (wire_size (payload (sack_mgr r)))))
                (sack_bytes (payload (sack_mgr r))))) \<and>
    length (sack_bytes (payload (sack_mgr r))) = wire_size (payload (sack_mgr r)) \<and>
    deserialise (sack_bytes (payload (sack_mgr r))) =
      Return (Some (payload (sack_mgr r), wire_size (payload (sack_mgr r))))"
proof -
  have wf: "sack_wf (payload (sack_mgr r))" using assms by (simp add: manager_inv_def)
  show ?thesis using serialise_eq(3)[OF wf] deserialise_sack_bytes[OF wf, of "[]"]
    by (auto simp: send_heartbeat_sack_eq[OF wf])
qed

theorem heartbeat_sends_current_sack_witness:
  "deserialise (sack_bytes (payload (sack_mgr (receiver_new 7 3 stats_new)))) =
     Return (Some (payload (manager_new 3), 9))"
proof -
  have "manager_inv (sack_mgr (receiver_new 7 3 stats_new))" by (simp add: receiver_new_def manager_inv_new)
  from heartbeat_sends_current_sack[OF this, of 0 0] have
    "deserialise (sack_bytes (payload (manager_new 3))) = Return (Some (payload (manager_new 3), wire_size (payload (manager_new 3))))"
    by (simp add: receiver_new_def)
  then show ?thesis by (simp add: receiver_new_def manager_new_def sack_default_def wire_size_def)
qed

text \<open>
  The round-trip probe.  A receiver of the session answers the PING datagram of \<open>send_ping\<close>
  with one PONG that echoes sequence number and timestamp, without touching its state; the peer
  that gets this PONG at a later time of its clock feeds exactly the elapsed microseconds
  into the estimators, and ignores a timestamp from the future.
\<close>

theorem ping_pong_measures_rtt:
  assumes "r_session_id a = sid" "r_session_id b = sid"
  shows "\<exists>pong. process_datagram t b (datagram (new_ping sid seq ts) []) = Some (Return (Some False, b, [Transmit pong])) \<and>
    process_datagram now a pong =
      Some (Return (Some False, a\<lparr>r_stats := (if ts \<le> now then update_rtt (r_stats a) (now - ts) else r_stats a)\<rparr>, []))"
proof -
  have ping: "\<not> is_data (new_ping sid seq ts)" "is_ping (new_ping sid seq ts)" by simp_all
  have pong: "\<not> is_data (new_pong sid seq ts)" "\<not> is_ping (new_pong sid seq ts)" "is_pong (new_pong sid seq ts)"
    by simp_all
  have "process_datagram t b (datagram (new_ping sid seq ts) []) =
      Some (Return (Some False, b, [Transmit (header_bytes (new_pong sid seq ts))]))"
    using assms ping hdr.dec_enc[of "new_ping sid seq ts" "[]"]
    by (simp add: process_datagram_def datagram_eq write_to_def)
  moreover have "process_datagram now a (header_bytes (new_pong sid seq ts)) =
      Some (Return (Some False, a\<lparr>r_stats := (if ts \<le> now then update_rtt (r_stats a) (now - ts) else r_stats a)\<rparr>, []))"
    using assms pong hdr.dec_enc[of "new_pong sid seq ts" "[]"]
    by (simp add: process_datagram_def handle_pong_def)
  ultimately show ?thesis by blast
qed

theorem ping_pong_measures_rtt_witness:
  "\<exists>pong. process_datagram 0 (receiver_new 7 0 stats_new) (datagram (new_ping 7 1 100) []) =
      Some (Return (Some False, receiver_new 7 0 stats_new, [Transmit pong])) \<and>
    process_datagram 10100 (receiver_new 7 0 stats_new) pong =
      Some (Return (Some False, (receiver_new 7 0 stats_new)\<lparr>r_stats := update_rtt stats_new 10000\<rparr>, []))"
  using ping_pong_measures_rtt[of "receiver_new 7 0 stats_new" 7 "receiver_new 7 0 stats_new" 0 1 100 10100]
  by (simp add: receiver_new_def)

end
