(* ===== verification/Utf8.thy ===== *)
theory Utf8
  imports Prelude
begin

text \<open>
  UTF-8 as the Rust standard library uses it for paths: \<open>std::str::from_utf8\<close> (is a byte
  string valid?) and \<open>to_string_lossy\<close> (replace every maximal ill-formed piece by U+FFFD).  A
  path is its bytes, as on Unix.
\<close>

type_synonym path = bytes

section \<open>One code point\<close>

definition cont_byte :: "u8 \<Rightarrow> bool" where
  "cont_byte b \<longleftrightarrow> 0x80 \<le> b \<and> b \<le> 0xBF"

text \<open>The length and the range of the second byte that a leading byte announces.\<close>

definition utf8_lead :: "u8 \<Rightarrow> (nat \<times> u8 \<times> u8) option" where
  "utf8_lead b =
     (if 0xC2 \<le> b \<and> b \<le> 0xDF then Some (2, 0x80, 0xBF)
      else if b = 0xE0 then Some (3, 0xA0, 0xBF)
      else if b = 0xED then Some (3, 0x80, 0x9F)
      else if 0xE1 \<le> b \<and> b \<le> 0xEF then Some (3, 0x80, 0xBF)
      else if b = 0xF0 then Some (4, 0x90, 0xBF)
      else if 0xF1 \<le> b \<and> b \<le> 0xF3 then Some (4, 0x80, 0xBF)
      else if b = 0xF4 then Some (4, 0x80, 0x8F)
      else None)"

text \<open>
  The next piece of a non-empty string: whether it is a code point, and its length; an
  ill-formed piece ends before the first byte that cannot continue it.
\<close>

fun utf8_tail :: "nat \<Rightarrow> nat \<Rightarrow> bytes \<Rightarrow> bool \<times> nat" where
  "utf8_tail 0 n bs = (True, n)"
| "utf8_tail (Suc k) n [] = (False, n)"
| "utf8_tail (Suc k) n (b # bs) = (if cont_byte b then utf8_tail k (Suc n) bs else (False, n))"

fun utf8_next :: "bytes \<Rightarrow> bool \<times> nat" where
  "utf8_next [] = (True, 0)"
| "utf8_next (b # bs) =
     (if b < 0x80 then (True, 1)
      else case utf8_lead b of
        None \<Rightarrow> (False, 1)
      | Some (len, lo, hi) \<Rightarrow>
          (case bs of
             [] \<Rightarrow> (False, 1)
           | c # cs \<Rightarrow> if lo \<le> c \<and> c \<le> hi then utf8_tail (len - 2) 2 cs else (False, 1)))"

lemma utf8_tail_ge: "n \<le> snd (utf8_tail k n bs)"
  by (induction k n bs rule: utf8_tail.induct) auto

lemma utf8_next_pos: "bs \<noteq> [] \<Longrightarrow> 0 < snd (utf8_next bs)"
proof (cases bs)
  case (Cons b cs)
  have "0 < snd (utf8_tail k 2 ds)" for k ds using utf8_tail_ge[of 2 k ds] by simp
  then show ?thesis using Cons by (auto split: option.split list.split)
qed simp

section \<open>Strings\<close>

function from_utf8 :: "bytes \<Rightarrow> bool" where
  "from_utf8 bs = (if bs = [] then True else let (ok, n) = utf8_next bs in ok \<and> from_utf8 (drop n bs))"
  by pat_completeness auto
termination
proof (relation "measure length", goal_cases)
  case (2 bs x ok n)
  then show ?case using utf8_next_pos[of bs] by (cases "utf8_next bs") auto
qed simp

function to_string_lossy :: "bytes \<Rightarrow> bytes" where
  "to_string_lossy bs =
     (if bs = [] then []
      else let (ok, n) = utf8_next bs
           in (if ok then take n bs else [0xEF, 0xBF, 0xBD]) @ to_string_lossy (drop n bs))"
  by pat_completeness auto
termination
proof (relation "measure length", goal_cases)
  case (2 bs x ok n)
  then show ?case using utf8_next_pos[of bs] by (cases "utf8_next bs") auto
qed simp

declare from_utf8.simps [simp del] to_string_lossy.simps [simp del]

lemma from_utf8_Nil [simp]: "from_utf8 []"
  by (simp add: from_utf8.simps)

lemma to_string_lossy_valid: "from_utf8 bs \<Longrightarrow> to_string_lossy bs = bs"
proof (induction bs rule: from_utf8.induct)
  case (1 bs)
  obtain ok n where n: "utf8_next bs = (ok, n)" by fastforce
  show ?case
  proof (cases "bs = []")
    case False
    then have "ok" "from_utf8 (drop n bs)" using 1(2) n by (simp_all add: from_utf8.simps[of bs])
    then have "to_string_lossy (drop n bs) = drop n bs" using 1(1)[OF False n[symmetric]] by simp
    then show ?thesis using False n \<open>ok\<close> by (subst to_string_lossy.simps) simp
  qed (simp add: to_string_lossy.simps)
qed

text \<open>A code point is recognised from its own bytes, whatever follows.\<close>

lemma utf8_tail_ok:
  assumes "utf8_tail k n bs = (True, m)"
  shows "m = n + k \<and> k \<le> length bs \<and> utf8_tail k n (take k bs @ rest) = (True, m)"
  using assms by (induction k n bs rule: utf8_tail.induct) (auto split: if_splits)

lemma utf8_next_ok:
  assumes "utf8_next bs = (True, n)"
  shows "utf8_next (take n bs @ rest) = (True, n) \<or> bs = []" and "n \<le> length bs"
proof -
  have "bs = [] \<or> (utf8_next (take n bs @ rest) = (True, n) \<and> n \<le> length bs)"
  proof (cases bs)
    case (Cons b cs)
    show ?thesis
    proof (cases "b < 0x80")
      case False
      then obtain len lo hi c ds where lead: "utf8_lead b = Some (len, lo, hi)" and cs: "cs = c # ds"
        and c: "lo \<le> c" "c \<le> hi" and tl: "utf8_tail (len - 2) 2 ds = (True, n)"
        using assms Cons by (auto split: option.splits list.splits if_splits)
      have "n = 2 + (len - 2)" "len - 2 \<le> length ds" "utf8_tail (len - 2) 2 (take (len - 2) ds @ rest) = (True, n)"
        using utf8_tail_ok[OF tl, of rest] by auto
      then show ?thesis using False Cons cs lead c by simp
    qed (use assms Cons in auto)
  qed simp
  then show "utf8_next (take n bs @ rest) = (True, n) \<or> bs = []" "n \<le> length bs" using assms by auto
qed

lemma from_utf8_append:
  assumes "utf8_next bs = (True, n)" "bs \<noteq> []" "from_utf8 rest"
  shows "from_utf8 (take n bs @ rest)"
proof -
  have n: "utf8_next (take n bs @ rest) = (True, n)" "n \<le> length bs" "0 < n"
    using utf8_next_ok(1)[OF assms(1), of rest] utf8_next_ok(2)[OF assms(1)] utf8_next_pos[OF assms(2)] assms(1,2)
    by auto
  then show ?thesis using assms(2,3) by (subst from_utf8.simps) simp
qed

lemma from_utf8_lossy: "from_utf8 (to_string_lossy bs)"
proof (induction bs rule: to_string_lossy.induct)
  case (1 bs)
  obtain ok n where n: "utf8_next bs = (ok, n)" by fastforce
  show ?case
  proof (cases "bs = []")
    case False
    have ih: "from_utf8 (to_string_lossy (drop n bs))" using 1[OF False n[symmetric]] by simp
    show ?thesis
    proof (cases ok)
      case True
      then show ?thesis using from_utf8_append[of bs n] n False ih by (subst to_string_lossy.simps) simp
    next
      case not_ok: False
      have "utf8_next [0xEF, 0xBF, 0xBD] = (True, 3)"
        by code_simp
      from from_utf8_append[OF this _ ih] show ?thesis using False n not_ok
        by (subst to_string_lossy.simps) simp
    qed
  qed (simp add: to_string_lossy.simps)
qed

text \<open>ASCII strings are valid.\<close>

lemma from_utf8_ascii: "\<forall>b\<in>set bs. b < 0x80 \<Longrightarrow> from_utf8 bs"
  by (induction bs) (simp, subst from_utf8.simps, simp)

end
