(* ===== verification/Packer.thy ===== *)
theory Packer
  imports Prelude Utf8
begin

text \<open>
  The small-file packer (\<^verbatim>\<open>crates/ioengine/src/packer.rs\<close>): files grouped into blocks of at most
  16 MB of payload with a binary manifest, larger files split over several blocks, and the
  reading of a block.  \<open>Bytes\<close> is an immutable vector of bytes; a range that does not lie in
  it, or whose start is behind its end, panics.  Offsets into a block are \<open>usize\<close>: the sums
  with the 64-bit fields of an entry wrap around.
\<close>

section \<open>Data\<close>

definition BLOCK_SIZE :: nat where
  "BLOCK_SIZE = 16 * 1024 * 1024"

definition MAGIC :: u32 where
  "MAGIC = 0x55445058"

definition VERSION :: u16 where
  "VERSION = 1"

record pack_block =
  blk_id :: u64
  blk_data :: bytes

record file_entry =
  f_path :: path
  f_offset :: u64
  f_size :: u64
  part_index :: u32
  total_parts :: u32

datatype pack_error = TruncatedManifest nat | BadMagic u32 | BadPathUtf8 | OutOfBounds path nat nat

section \<open>Serialising\<close>

definition entry_bytes :: "file_entry \<Rightarrow> bytes" where
  "entry_bytes e =
     (let path_bytes = to_string_lossy (f_path e) in
      le_bytes (of_nat (length path_bytes) :: u16) @ path_bytes @ le_bytes (f_offset e) @ le_bytes (f_size e) @
      le_bytes (part_index e) @ le_bytes (total_parts e))"

definition serialise_block :: "u64 \<Rightarrow> file_entry list \<Rightarrow> bytes \<Rightarrow> bytes" where
  "serialise_block block_id entries payload =
     le_bytes MAGIC @ le_bytes VERSION @ le_bytes block_id @ le_bytes (of_nat (length entries) :: u32) @
     concat (map entry_bytes entries) @ payload"

section \<open>Packing\<close>

text \<open>The accumulator of \<open>pack_files\<close>: next block id, entries and payload in progress, blocks done.\<close>

record pack_acc =
  next_block_id :: u64
  acc_entries :: "file_entry list"
  acc_payload :: bytes
  acc_blocks :: "pack_block list"

definition flush :: "pack_acc \<Rightarrow> pack_acc" where
  "flush a =
     (if acc_entries a = [] then a
      else a\<lparr>acc_blocks := acc_blocks a @
               [\<lparr>blk_id = next_block_id a, blk_data = serialise_block (next_block_id a) (acc_entries a) (acc_payload a)\<rparr>],
             next_block_id := next_block_id a + 1, acc_entries := [], acc_payload := []\<rparr>)"

definition div_ceil :: "nat \<Rightarrow> nat \<Rightarrow> nat" where
  "div_ceil a b = (if a mod b = 0 then a div b else a div b + 1)"

fun pack_parts :: "path \<Rightarrow> u32 \<Rightarrow> nat \<Rightarrow> bytes list \<Rightarrow> pack_acc \<Rightarrow> pack_acc" where
  "pack_parts path parts part_idx [] a = a"
| "pack_parts path parts part_idx (chunk # cs) a =
     (let entry = \<lparr>f_path = path, f_offset = 0, f_size = of_nat (length chunk),
                   part_index = of_nat part_idx, total_parts = parts\<rparr>
      in pack_parts path parts (Suc part_idx) cs
           (a\<lparr>acc_blocks := acc_blocks a @
                [\<lparr>blk_id = next_block_id a, blk_data = serialise_block (next_block_id a) [entry] chunk\<rparr>],
              next_block_id := next_block_id a + 1\<rparr>))"

definition pack_file :: "path \<times> bytes \<Rightarrow> pack_acc \<Rightarrow> pack_acc" where
  "pack_file file a =
     (let (path, bytes) = file in
      if BLOCK_SIZE < length bytes then
        pack_parts path (of_nat (div_ceil (length bytes) BLOCK_SIZE)) 0 (chunks BLOCK_SIZE bytes) (flush a)
      else
        let a1 = (if BLOCK_SIZE < length (acc_payload a) + length bytes then flush a else a)
        in a1\<lparr>acc_payload := acc_payload a1 @ bytes,
              acc_entries := acc_entries a1 @
                [\<lparr>f_path = path, f_offset = of_nat (length (acc_payload a1)), f_size = of_nat (length bytes),
                  part_index = 0, total_parts = 1\<rparr>]\<rparr>)"

definition pack_files :: "(path \<times> bytes) list \<Rightarrow> pack_block list" where
  "pack_files files =
     acc_blocks (flush (fold pack_file files
       \<lparr>next_block_id = 0, acc_entries = [], acc_payload = [], acc_blocks = []\<rparr>))"

section \<open>Reading a block\<close>

definition read_bytes :: "nat \<Rightarrow> bytes \<Rightarrow> nat \<Rightarrow> pack_error + bytes \<times> nat" where
  "read_bytes n buf pos =
     (if length buf < pos + n then Inl (TruncatedManifest pos) else Inr (slice pos (pos + n) buf, pos + n))"

definition read_u16 :: "bytes \<Rightarrow> nat \<Rightarrow> pack_error + u16 \<times> nat" where
  "read_u16 buf pos = (case read_bytes 2 buf pos of Inl e \<Rightarrow> Inl e | Inr (b, p) \<Rightarrow> Inr (of_le_bytes b, p))"

definition read_u32 :: "bytes \<Rightarrow> nat \<Rightarrow> pack_error + u32 \<times> nat" where
  "read_u32 buf pos = (case read_bytes 4 buf pos of Inl e \<Rightarrow> Inl e | Inr (b, p) \<Rightarrow> Inr (of_le_bytes b, p))"

definition read_u64 :: "bytes \<Rightarrow> nat \<Rightarrow> pack_error + u64 \<times> nat" where
  "read_u64 buf pos = (case read_bytes 8 buf pos of Inl e \<Rightarrow> Inl e | Inr (b, p) \<Rightarrow> Inr (of_le_bytes b, p))"

text \<open>The operator \<open>?\<close>: an error ends the function.\<close>

definition and_then :: "'e + 'a \<times> nat \<Rightarrow> ('a \<Rightarrow> nat \<Rightarrow> 'e + 'b) \<Rightarrow> 'e + 'b" where
  "and_then r f = (case r of Inl e \<Rightarrow> Inl e | Inr (x, p) \<Rightarrow> f x p)"

definition read_entry :: "bytes \<Rightarrow> nat \<Rightarrow> pack_error + file_entry \<times> nat" where
  "read_entry buf pos =
     and_then (read_u16 buf pos) (\<lambda>path_len pos.
     and_then (read_bytes (unat path_len) buf pos) (\<lambda>path_bytes pos.
     if \<not> from_utf8 path_bytes then Inl BadPathUtf8 else
     and_then (read_u64 buf pos) (\<lambda>offset pos.
     and_then (read_u64 buf pos) (\<lambda>sz pos.
     and_then (read_u32 buf pos) (\<lambda>part pos.
     and_then (read_u32 buf pos) (\<lambda>parts pos.
       Inr (\<lparr>f_path = path_bytes, f_offset = offset, f_size = sz, part_index = part, total_parts = parts\<rparr>, pos)))))))"

text \<open>The manifest: the header, the magic check, and the entries.\<close>

definition read_manifest :: "bytes \<Rightarrow> pack_error + file_entry list \<times> nat" where
  "read_manifest buf =
     and_then (read_u32 buf 0) (\<lambda>magic pos.
     and_then (read_u16 buf pos) (\<lambda>version pos.
     and_then (read_u64 buf pos) (\<lambda>block_id pos.
     and_then (read_u32 buf pos) (\<lambda>entry_count pos.
       if magic \<noteq> MAGIC then Inl (BadMagic magic)
       else read_many read_entry (unat entry_count) buf pos))))"

text \<open>The payload loop, in wrapping \<open>usize\<close> arithmetic.\<close>

fun slice_entries :: "bytes \<Rightarrow> u64 \<Rightarrow> file_entry list \<Rightarrow> (pack_error + (file_entry \<times> bytes) list) outcome" where
  "slice_entries buf payload_start [] = Return (Inr [])"
| "slice_entries buf payload_start (e # es) =
     (let start = unat (payload_start + f_offset e); stop = unat (payload_start + f_offset e + f_size e) in
      if length buf < stop then Return (Inl (OutOfBounds (f_path e) stop (length buf)))
      else if stop < start then Panic
      else case slice_entries buf payload_start es of
        Panic \<Rightarrow> Panic
      | Return (Inl err) \<Rightarrow> Return (Inl err)
      | Return (Inr xs) \<Rightarrow> Return (Inr ((e, slice start stop buf) # xs)))"

definition unpack_entries :: "pack_block \<Rightarrow> (pack_error + (file_entry \<times> bytes) list) outcome" where
  "unpack_entries block =
     (case read_manifest (blk_data block) of
        Inl e \<Rightarrow> Return (Inl e)
      | Inr (entries, payload_start) \<Rightarrow> slice_entries (blk_data block) (of_nat payload_start) entries)"

definition unpack :: "pack_block \<Rightarrow> (pack_error + (path \<times> bytes) list) outcome" where
  "unpack block =
     (case unpack_entries block of
        Panic \<Rightarrow> Panic
      | Return (Inl e) \<Rightarrow> Return (Inl e)
      | Return (Inr xs) \<Rightarrow> Return (Inr (map (\<lambda>(entry, dat). (f_path entry, dat)) xs)))"


section \<open>Reading back what was written\<close>

lemma read_bytes_enc: "read_bytes (length mid) (pre @ mid @ post) (length pre) = Inr (mid, length pre + length mid)"
  by (simp add: read_bytes_def slice_append_left)

lemma read_word_enc:
  "read_u16 (pre @ le_bytes w @ post) (length pre) = Inr (w, length pre + 2)"
  "read_u32 (pre @ le_bytes v @ post) (length pre) = Inr (v, length pre + 4)"
  "read_u64 (pre @ le_bytes u @ post) (length pre) = Inr (u, length pre + 8)"
  using read_bytes_enc[of "le_bytes w" pre post] read_bytes_enc[of "le_bytes v" pre post]
    read_bytes_enc[of "le_bytes u" pre post]
  by (simp_all add: read_u16_def read_u32_def read_u64_def)

text \<open>The same at a position that is given as a sum of lengths.\<close>

lemma read_at:
  "length pre = n \<Longrightarrow> read_u16 (pre @ le_bytes w @ post) n = Inr (w, n + 2)"
  "length pre = n \<Longrightarrow> read_u32 (pre @ le_bytes v @ post) n = Inr (v, n + 4)"
  "length pre = n \<Longrightarrow> read_u64 (pre @ le_bytes u @ post) n = Inr (u, n + 8)"
  "length pre = n \<Longrightarrow> length mid = k \<Longrightarrow> read_bytes k (pre @ mid @ post) n = Inr (mid, n + k)"
  using read_word_enc read_bytes_enc by metis+

definition entry_ok :: "file_entry \<Rightarrow> bool" where
  "entry_ok e \<longleftrightarrow> from_utf8 (f_path e) \<and> length (f_path e) < 2 ^ 16"

lemma length_entry_bytes: "entry_ok e \<Longrightarrow> length (entry_bytes e) = 26 + length (f_path e)"
  by (simp add: entry_bytes_def entry_ok_def to_string_lossy_valid Let_def)

lemma read_entry_enc:
  assumes "entry_ok e"
  shows "read_entry (pre @ entry_bytes e @ post) (length pre) = Inr (e, length pre + length (entry_bytes e))"
proof -
  let ?p = "f_path e" and ?n = "length (f_path e)"
  have n: "unat (of_nat ?n :: u16) = ?n" using assms by (simp add: entry_ok_def unat_of_nat_small)
  have u: "from_utf8 ?p" "to_string_lossy ?p = ?p" using assms by (simp_all add: entry_ok_def to_string_lossy_valid)
  define l where "l = le_bytes (of_nat ?n :: u16)"
  define o1 where "o1 = le_bytes (f_offset e)"
  define s1 where "s1 = le_bytes (f_size e)"
  define i1 where "i1 = le_bytes (part_index e)"
  define t1 where "t1 = le_bytes (total_parts e)"
  define buf where "buf = pre @ l @ ?p @ o1 @ s1 @ i1 @ t1 @ post"
  have len: "length l = 2" "length o1 = 8" "length s1 = 8" "length i1 = 4"
    by (simp_all add: l_def o1_def s1_def i1_def)
  have "read_u16 buf (length pre) = Inr (of_nat ?n, length pre + 2)"
    unfolding buf_def l_def by (rule read_at(1)) simp
  moreover have "read_bytes ?n buf (length pre + 2) = Inr (?p, length pre + 2 + ?n)"
    unfolding buf_def using read_at(4)[of "pre @ l"] len by simp
  moreover have "read_u64 buf (length pre + 2 + ?n) = Inr (f_offset e, length pre + 2 + ?n + 8)"
    unfolding buf_def using read_at(3)[of "pre @ l @ ?p"] len by (simp add: o1_def)
  moreover have "read_u64 buf (length pre + 2 + ?n + 8) = Inr (f_size e, length pre + 2 + ?n + 8 + 8)"
    unfolding buf_def using read_at(3)[of "pre @ l @ ?p @ o1"] len by (simp add: s1_def)
  moreover have "read_u32 buf (length pre + 2 + ?n + 8 + 8) = Inr (part_index e, length pre + 2 + ?n + 8 + 8 + 4)"
    unfolding buf_def using read_at(2)[of "pre @ l @ ?p @ o1 @ s1"] len by (simp add: i1_def)
  moreover have "read_u32 buf (length pre + 2 + ?n + 8 + 8 + 4) = Inr (total_parts e, length pre + 2 + ?n + 8 + 8 + 4 + 4)"
    unfolding buf_def using read_at(2)[of "pre @ l @ ?p @ o1 @ s1 @ i1"] len by (simp add: t1_def)
  moreover have "pre @ entry_bytes e @ post = buf"
    by (simp add: buf_def entry_bytes_def u l_def o1_def s1_def i1_def t1_def Let_def)
  ultimately show ?thesis using n u(1) length_entry_bytes[OF assms]
    by (simp add: read_entry_def and_then_def)
qed

interpretation entry: cursor_codec entry_bytes read_entry entry_ok
  by unfold_locales (rule read_entry_enc)

lemma read_manifest_enc:
  assumes "\<forall>e\<in>set es. entry_ok e" "length es < 2 ^ 32"
  shows "read_manifest (serialise_block b es payload) = Inr (es, 18 + length (concat (map entry_bytes es)))"
proof -
  define m where "m = le_bytes MAGIC"
  define v where "v = le_bytes VERSION"
  define i where "i = le_bytes b"
  define c where "c = le_bytes (of_nat (length es) :: u32)"
  define es' where "es' = concat (map entry_bytes es)"
  define buf where "buf = m @ v @ i @ c @ es' @ payload"
  have len: "length m = 4" "length v = 2" "length i = 8" "length c = 4"
    by (simp_all add: m_def v_def i_def c_def)
  have "read_u32 buf 0 = Inr (MAGIC, 4)"
    unfolding buf_def using read_at(2)[of "[]" 0 MAGIC] by (simp add: m_def)
  moreover have "read_u16 buf 4 = Inr (VERSION, 6)"
    unfolding buf_def using read_at(1)[of m] len by (simp add: v_def)
  moreover have "read_u64 buf 6 = Inr (b, 14)"
    unfolding buf_def using read_at(3)[of "m @ v"] len by (simp add: i_def)
  moreover have "read_u32 buf 14 = Inr (of_nat (length es), 18)"
    unfolding buf_def using read_at(2)[of "m @ v @ i"] len by (simp add: c_def)
  moreover have "read_many read_entry (length es) buf 18 = Inr (es, 18 + length es')"
    unfolding buf_def es'_def using entry.read_many_enc[OF assms(1), of "m @ v @ i @ c" payload] len by simp
  moreover have "unat (of_nat (length es) :: u32) = length es" using assms(2) by (simp add: unat_of_nat_small)
  moreover have "serialise_block b es payload = buf"
    by (simp add: buf_def m_def v_def i_def c_def es'_def serialise_block_def)
  ultimately show ?thesis by (simp add: read_manifest_def and_then_def es'_def)
qed

abbreviation entry_end :: "file_entry \<Rightarrow> nat" where
  "entry_end e \<equiv> unat (f_offset e) + unat (f_size e)"

lemma slice_append_skip: "slice (length pre + a) (length pre + b) (pre @ xs) = slice a b xs"
  by (simp add: slice_def)

lemma slice_entries_enc:
  assumes "\<forall>e\<in>set es. entry_end e \<le> length payload" "length (pre @ payload) < 2 ^ 64"
  shows "slice_entries (pre @ payload) (of_nat (length pre)) es =
    Return (Inr (map (\<lambda>e. (e, slice (unat (f_offset e)) (entry_end e) payload)) es))"
  using assms(1)
proof (induction es)
  case (Cons e es)
  let ?n = "of_nat (length pre) :: u64"
  have e: "entry_end e \<le> length payload" using Cons.prems by simp
  have n: "unat ?n = length pre" using assms(2) by (simp add: unat_of_nat_small)
  have start: "unat (?n + f_offset e) = length pre + unat (f_offset e)"
    using assms(2) e n by (subst unat_word_ariths) simp
  have stop: "unat (?n + f_offset e + f_size e) = length pre + entry_end e"
    using assms(2) e start by (subst unat_word_ariths) simp
  show ?case using Cons.IH Cons.prems e start stop
    by (simp add: slice_append_skip Let_def del: of_nat_add)
qed simp

lemma unpack_serialise:
  assumes "\<forall>e\<in>set es. entry_ok e \<and> entry_end e \<le> length payload" "length es < 2 ^ 32"
    "length (serialise_block b es payload) < 2 ^ 64"
  shows "unpack_entries \<lparr>blk_id = i, blk_data = serialise_block b es payload\<rparr> =
    Return (Inr (map (\<lambda>e. (e, slice (unat (f_offset e)) (entry_end e) payload)) es))"
proof -
  define pre where "pre = le_bytes MAGIC @ le_bytes VERSION @ le_bytes b @
    le_bytes (of_nat (length es) :: u32) @ concat (map entry_bytes es)"
  have buf: "serialise_block b es payload = pre @ payload" by (simp add: pre_def serialise_block_def)
  have "length pre = 18 + length (concat (map entry_bytes es))" by (simp add: pre_def)
  then have m: "read_manifest (serialise_block b es payload) = Inr (es, length pre)"
    using read_manifest_enc[of es b payload] assms(1,2) by simp
  have "slice_entries (pre @ payload) (of_nat (length pre)) es =
    Return (Inr (map (\<lambda>e. (e, slice (unat (f_offset e)) (entry_end e) payload)) es))"
    using assms(1,3) unfolding buf by (intro slice_entries_enc) auto
  then show ?thesis using m by (simp add: unpack_entries_def buf)
qed


section \<open>What packing produces\<close>

text \<open>The pieces a file is sent in: path, part number, number of parts, bytes.\<close>

type_synonym piece = "path \<times> nat \<times> nat \<times> bytes"

definition file_parts :: "path \<times> bytes \<Rightarrow> piece list" where
  "file_parts file = (let (path, bytes) = file in
     if BLOCK_SIZE < length bytes
     then map (\<lambda>(i, c). (path, i, length (chunks BLOCK_SIZE bytes), c)) (enumerate 0 (chunks BLOCK_SIZE bytes))
     else [(path, 0, 1, bytes)])"

definition piece_of :: "file_entry \<times> bytes \<Rightarrow> piece" where
  "piece_of x = (case x of (e, d) \<Rightarrow> (f_path e, unat (part_index e), unat (total_parts e), d))"

lemma file_parts_concat: "concat (map (\<lambda>(p, i, n, d). d) (file_parts (path, bytes))) = bytes"
proof -
  have "0 < BLOCK_SIZE" by (simp add: BLOCK_SIZE_def)
  moreover have "map ((\<lambda>(p, i, n, d). d) \<circ> (\<lambda>(i, c). (path, i, m, c))) (enumerate 0 xs) = xs" for m :: nat and xs :: "bytes list"
    by (rule nth_equalityI) (auto simp: nth_enumerate_eq)
  ultimately show ?thesis by (simp add: file_parts_def)
qed

text \<open>The entries of files stored one behind the other.\<close>

fun mk_entries :: "nat \<Rightarrow> (path \<times> bytes) list \<Rightarrow> file_entry list" where
  "mk_entries off [] = []"
| "mk_entries off ((path, bytes) # fs) =
     \<lparr>f_path = path, f_offset = of_nat off, f_size = of_nat (length bytes), part_index = 0, total_parts = 1\<rparr> #
     mk_entries (off + length bytes) fs"

lemma length_mk_entries [simp]: "length (mk_entries off fs) = length fs"
  by (induction off fs rule: mk_entries.induct) auto

lemma mk_entries_snoc: "mk_entries off (fs @ [(p, b)]) = mk_entries off fs @
   [\<lparr>f_path = p, f_offset = of_nat (off + length (concat (map snd fs))), f_size = of_nat (length b),
     part_index = 0, total_parts = 1\<rparr>]"
  by (induction off fs rule: mk_entries.induct) (auto simp: add.assoc)

definition path_ok :: "path \<times> bytes \<Rightarrow> bool" where
  "path_ok f \<longleftrightarrow> from_utf8 (fst f) \<and> length (fst f) < 2 ^ 16"

lemma mk_entries_ok:
  assumes "\<forall>f\<in>set fs. path_ok f" "off + length (concat (map snd fs)) < 2 ^ 64"
  shows "\<forall>e\<in>set (mk_entries off fs). entry_ok e \<and> entry_end e \<le> off + length (concat (map snd fs))"
  using assms
proof (induction off fs rule: mk_entries.induct)
  case (2 off path bytes fs)
  have "unat (of_nat off :: u64) = off" "unat (of_nat (length bytes) :: u64) = length bytes"
    using "2.prems"(2) by (simp_all add: unat_of_nat_small)
  then show ?case using 2 by (auto simp: entry_ok_def path_ok_def add.assoc)
qed simp

lemma mk_entries_data:
  assumes "length pre = off" "off + length (concat (map snd fs)) < 2 ^ 64"
  shows "map (\<lambda>e. piece_of (e, slice (unat (f_offset e)) (entry_end e) (pre @ concat (map snd fs)))) (mk_entries off fs) =
    map (\<lambda>(p, b). (p, 0, 1, b)) fs"
  using assms
proof (induction fs arbitrary: pre off)
  case (Cons f fs)
  obtain path bytes where f: "f = (path, bytes)" by fastforce
  have u: "unat (of_nat off :: u64) = off" "unat (of_nat (length bytes) :: u64) = length bytes"
    using Cons.prems(2) f by (simp_all add: unat_of_nat_small)
  have head: "slice off (off + length bytes) (pre @ bytes @ concat (map snd fs)) = bytes"
    using Cons.prems(1) by (intro slice_append_left) simp_all
  have "map (\<lambda>e. piece_of (e, slice (unat (f_offset e)) (entry_end e) ((pre @ bytes) @ concat (map snd fs))))
      (mk_entries (off + length bytes) fs) = map (\<lambda>(p, b). (p, 0, 1, b)) fs"
    using Cons.prems f by (intro Cons.IH) simp_all
  then show ?case using head u by (simp add: f piece_of_def del: of_nat_add)
qed simp

lemma length_manifest:
  assumes "\<forall>e\<in>set es. entry_ok e"
  shows "length (concat (map entry_bytes es)) \<le> length es * (2 ^ 17)"
  using assms
proof (induction es)
  case (Cons e es)
  have "length (entry_bytes e) \<le> 2 ^ 17"
    using Cons.prems length_entry_bytes[of e] by (simp add: entry_ok_def)
  then show ?case using Cons by simp
qed simp

text \<open>A block of pending files reads back as those files.\<close>

lemma unpack_pending:
  assumes "\<forall>f\<in>set fs. path_ok f" "length fs < 2 ^ 32" "length (concat (map snd fs)) \<le> BLOCK_SIZE"
  shows "\<exists>xs. unpack_entries \<lparr>blk_id = i, blk_data = serialise_block b (mk_entries 0 fs) (concat (map snd fs))\<rparr> =
      Return (Inr xs) \<and> map piece_of xs = map (\<lambda>(p, b). (p, 0, 1, b)) fs"
proof -
  let ?pl = "concat (map snd fs)" and ?es = "mk_entries 0 fs"
  have pl: "0 + length ?pl < 2 ^ 64" using assms(3) by (simp add: BLOCK_SIZE_def)
  have ok: "\<forall>e\<in>set ?es. entry_ok e \<and> entry_end e \<le> length ?pl"
    using mk_entries_ok[OF assms(1) pl] by simp
  have "length (concat (map entry_bytes ?es)) \<le> length fs * 2 ^ 17" using length_manifest[of ?es] ok by simp
  also have "\<dots> \<le> 2 ^ 32 * 2 ^ 17" using assms(2) by simp
  finally have "length (serialise_block b ?es ?pl) < 2 ^ 64"
    using assms(3) by (simp add: serialise_block_def BLOCK_SIZE_def)
  then have "unpack_entries \<lparr>blk_id = i, blk_data = serialise_block b ?es ?pl\<rparr> =
      Return (Inr (map (\<lambda>e. (e, slice (unat (f_offset e)) (entry_end e) ?pl)) ?es))"
    using ok assms(2) by (intro unpack_serialise) simp_all
  moreover have "map (\<lambda>e. piece_of (e, slice (unat (f_offset e)) (entry_end e) ?pl)) ?es = map (\<lambda>(p, b). (p, 0, 1, b)) fs"
    using mk_entries_data[of "[]" 0 fs] pl by simp
  ultimately show ?thesis by (auto simp: comp_def)
qed


text \<open>
  The accumulator after some files, with the pieces its blocks read back as (\<open>xs\<close>) and the
  files of the block in progress (\<open>ds\<close>).
\<close>

definition blocks_read :: "pack_block list \<Rightarrow> (file_entry \<times> bytes) list list \<Rightarrow> bool" where
  "blocks_read bs xs \<longleftrightarrow> map unpack_entries bs = map (\<lambda>x. Return (Inr x)) xs \<and>
     map blk_id bs = map of_nat [0..<length bs] \<and> (\<forall>x\<in>set xs. length (concat (map snd x)) \<le> BLOCK_SIZE)"

definition acc_inv :: "pack_acc \<Rightarrow> (path \<times> bytes) list \<Rightarrow> (file_entry \<times> bytes) list list \<Rightarrow> (path \<times> bytes) list \<Rightarrow> bool" where
  "acc_inv a fs xs ds \<longleftrightarrow> blocks_read (acc_blocks a) xs \<and> next_block_id a = of_nat (length (acc_blocks a)) \<and>
     acc_entries a = mk_entries 0 ds \<and> acc_payload a = concat (map snd ds) \<and>
     length (concat (map snd ds)) \<le> BLOCK_SIZE \<and> length ds \<le> length fs \<and> (\<forall>f\<in>set ds. path_ok f) \<and>
     map piece_of (concat xs) @ map (\<lambda>(p, b). (p, 0, 1, b)) ds = concat (map file_parts fs)"

lemma blocks_read_snoc:
  assumes "blocks_read bs xs" "unpack_entries b = Return (Inr x)" "blk_id b = of_nat (length bs)"
    "length (concat (map snd x)) \<le> BLOCK_SIZE"
  shows "blocks_read (bs @ [b]) (xs @ [x])"
  using assms by (auto simp: blocks_read_def)

lemma piece_data: "map piece_of xs = map (\<lambda>(p, b). (p, 0, 1, b)) fs \<Longrightarrow> map snd xs = map snd fs"
proof -
  assume eq: "map piece_of xs = map (\<lambda>(p, b). (p, 0, 1, b)) fs"
  have "map snd xs = map (\<lambda>(p, i, n, d). d) (map piece_of xs)" by (auto simp: piece_of_def comp_def split_def)
  also have "\<dots> = map snd fs" unfolding eq by (auto simp: comp_def split_def)
  finally show ?thesis .
qed

lemma acc_inv_flush:
  assumes "acc_inv a fs xs ds" "length fs < 2 ^ 32"
  shows "\<exists>xs'. acc_inv (flush a) fs xs' []"
proof (cases "ds = []")
  case True
  then have "acc_entries a = []" using assms(1) by (simp add: acc_inv_def)
  then show ?thesis using assms(1) True by (auto simp: flush_def)
next
  case False
  have "length (acc_entries a) = length ds" using assms(1) by (simp add: acc_inv_def)
  then have ne: "acc_entries a \<noteq> []" using False by auto
  let ?b = "\<lparr>blk_id = next_block_id a, blk_data = serialise_block (next_block_id a) (mk_entries 0 ds) (concat (map snd ds))\<rparr>"
  have ds: "\<forall>f\<in>set ds. path_ok f" "length ds < 2 ^ 32" "length (concat (map snd ds)) \<le> BLOCK_SIZE"
    using assms by (auto simp: acc_inv_def)
  obtain x where x: "unpack_entries ?b = Return (Inr x)" "map piece_of x = map (\<lambda>(p, b). (p, 0, 1, b)) ds"
    using unpack_pending[OF ds] by blast
  have "blocks_read (acc_blocks a @ [?b]) (xs @ [x])"
    using assms(1) x(1) piece_data[OF x(2)] ds(3) by (intro blocks_read_snoc) (simp_all add: acc_inv_def)
  then have "acc_inv (flush a) fs (xs @ [x]) []"
    using assms(1) ne x(2) by (simp add: acc_inv_def flush_def)
  then show ?thesis by blast
qed

lemma unpack_part:
  assumes "path_ok (path, chunk)" "length chunk \<le> BLOCK_SIZE" "part < 2 ^ 32" "parts < 2 ^ 32"
  defines "e \<equiv> \<lparr>f_path = path, f_offset = 0, f_size = of_nat (length chunk), part_index = of_nat part, total_parts = of_nat parts\<rparr>"
  shows "unpack_entries \<lparr>blk_id = i, blk_data = serialise_block b [e] chunk\<rparr> = Return (Inr [(e, chunk)]) \<and>
    piece_of (e, chunk) = (path, part, parts, chunk)"
proof -
  have u: "unat (of_nat (length chunk) :: u64) = length chunk"
    using assms(2) by (simp add: unat_of_nat_small BLOCK_SIZE_def)
  have ok: "entry_ok e" using assms(1) by (simp add: e_def entry_ok_def path_ok_def)
  then have "length (serialise_block b [e] chunk) < 2 ^ 64"
    using assms(2) length_entry_bytes[OF ok] by (simp add: serialise_block_def BLOCK_SIZE_def entry_ok_def)
  then have "unpack_entries \<lparr>blk_id = i, blk_data = serialise_block b [e] chunk\<rparr> = Return (Inr [(e, chunk)])"
    using unpack_serialise[of "[e]" chunk b i] ok u by (simp add: e_def)
  moreover have "unat (of_nat part :: u32) = part" "unat (of_nat parts :: u32) = parts"
    using assms(3,4) by (simp_all add: unat_of_nat_small)
  ultimately show ?thesis by (simp add: piece_of_def e_def)
qed

lemma pack_parts_read:
  assumes "blocks_read (acc_blocks a) xs" "next_block_id a = of_nat (length (acc_blocks a))"
    "\<forall>c\<in>set cs. length c \<le> BLOCK_SIZE" "path_ok (path, [])" "k + length cs < 2 ^ 32" "parts < 2 ^ 32"
  shows "\<exists>ys. blocks_read (acc_blocks (pack_parts path (of_nat parts) k cs a)) (xs @ ys) \<and>
    map piece_of (concat ys) = map (\<lambda>(i, c). (path, i, parts, c)) (enumerate k cs) \<and>
    next_block_id (pack_parts path (of_nat parts) k cs a) = of_nat (length (acc_blocks (pack_parts path (of_nat parts) k cs a))) \<and>
    acc_entries (pack_parts path (of_nat parts) k cs a) = acc_entries a \<and>
    acc_payload (pack_parts path (of_nat parts) k cs a) = acc_payload a"
  using assms(1-3,5)
proof (induction cs arbitrary: a xs k)
  case (Cons c cs)
  define e where "e = \<lparr>f_path = path, f_offset = 0, f_size = of_nat (length c), part_index = of_nat k, total_parts = of_nat parts\<rparr>"
  let ?b = "\<lparr>blk_id = next_block_id a, blk_data = serialise_block (next_block_id a) [e] c\<rparr>"
  define a1 where "a1 = a\<lparr>acc_blocks := acc_blocks a @ [?b], next_block_id := next_block_id a + 1\<rparr>"
  have u: "unpack_entries ?b = Return (Inr [(e, c)])" "piece_of (e, c) = (path, k, parts, c)"
    using unpack_part[of path c k parts "next_block_id a" "next_block_id a"] Cons.prems assms(4,6)
    by (simp_all add: e_def path_ok_def)
  have "blocks_read (acc_blocks a1) (xs @ [[(e, c)]])"
    using Cons.prems u by (auto simp: a1_def intro!: blocks_read_snoc)
  then obtain ys where ys: "blocks_read (acc_blocks (pack_parts path (of_nat parts) (Suc k) cs a1)) ((xs @ [[(e, c)]]) @ ys)"
    "map piece_of (concat ys) = map (\<lambda>(i, c). (path, i, parts, c)) (enumerate (Suc k) cs)"
    "next_block_id (pack_parts path (of_nat parts) (Suc k) cs a1) = of_nat (length (acc_blocks (pack_parts path (of_nat parts) (Suc k) cs a1)))"
    "acc_entries (pack_parts path (of_nat parts) (Suc k) cs a1) = acc_entries a1"
    "acc_payload (pack_parts path (of_nat parts) (Suc k) cs a1) = acc_payload a1"
    using Cons.IH[of a1 "xs @ [[(e, c)]]" "Suc k"] Cons.prems by (auto simp: a1_def)
  have step: "pack_parts path (of_nat parts) k (c # cs) a = pack_parts path (of_nat parts) (Suc k) cs a1"
    by (simp add: a1_def e_def Let_def)
  show ?case unfolding step using ys u(2)
    by (intro exI[of _ "[(e, c)] # ys"]) (simp add: a1_def)
qed (auto intro: exI[of _ "[]"])


lemma div_ceil_chunks: "0 < n \<Longrightarrow> div_ceil (length xs) n = length (chunks n xs)"
proof -
  assume n: "0 < n"
  have "(a + n - 1) div n = div_ceil a n" for a
  proof (cases "a mod n = 0")
    case True
    then obtain k where a: "a = n * k" by (auto simp: mod_eq_0_iff_dvd)
    have "(n * k + n - 1) div n = k" using n by (simp add: div_nat_eqI)
    then show ?thesis using True n by (simp add: div_ceil_def a)
  next
    case False
    define q r where "q = a div n" and "r = a mod n"
    have a: "a = n * q + r" and r: "0 < r" "r < n" using False n by (auto simp: q_def r_def)
    have "(a + n - 1) div n = q + 1" using r unfolding a by (intro div_nat_eqI) simp_all
    then show ?thesis using False by (simp add: div_ceil_def q_def)
  qed
  then show "div_ceil (length xs) n = length (chunks n xs)" by (simp add: length_chunks[OF n])
qed

definition file_ok :: "path \<times> bytes \<Rightarrow> bool" where
  "file_ok f \<longleftrightarrow> path_ok f \<and> length (snd f) \<le> 2 ^ 55"

text \<open>A file above the block size: the pending block is closed, then one block per part.\<close>

lemma pack_large_inv:
  assumes "acc_inv a fs xs ds" "file_ok (path, bytes)" "length fs < 2 ^ 32" "BLOCK_SIZE < length bytes"
  shows "\<exists>xs'. acc_inv (pack_file (path, bytes) a) (fs @ [(path, bytes)]) xs' []"
proof -
  have pos: "0 < BLOCK_SIZE" by (simp add: BLOCK_SIZE_def)
  obtain xs1 where inv1: "acc_inv (flush a) fs xs1 []" using acc_inv_flush[OF assms(1,3)] by blast
  let ?cs = "chunks BLOCK_SIZE bytes"
  define n where "n = length ?cs"
  have "n = (length bytes + BLOCK_SIZE - 1) div BLOCK_SIZE" using length_chunks[OF pos] by (simp add: n_def)
  also have "\<dots> \<le> (2 ^ 55 + BLOCK_SIZE - 1) div BLOCK_SIZE"
    using assms(2) by (intro div_le_mono diff_le_mono add_le_mono) (simp_all add: file_ok_def)
  also have "\<dots> < 2 ^ 32" by (simp add: BLOCK_SIZE_def)
  finally have n: "n < 2 ^ 32" .
  have small: "\<forall>c\<in>set ?cs. length c \<le> BLOCK_SIZE" using chunks_length[of _ BLOCK_SIZE bytes] by blast
  define a' where "a' = pack_parts path (of_nat n) 0 ?cs (flush a)"
  have pk: "pack_file (path, bytes) a = a'"
    using assms(4) div_ceil_chunks[OF pos, of bytes] by (simp add: pack_file_def a'_def n_def)
  obtain ys where ys: "blocks_read (acc_blocks a') (xs1 @ ys)"
    "map piece_of (concat ys) = map (\<lambda>(i, c). (path, i, n, c)) (enumerate 0 ?cs)"
    "next_block_id a' = of_nat (length (acc_blocks a'))"
    "acc_entries a' = acc_entries (flush a)" "acc_payload a' = acc_payload (flush a)"
    using pack_parts_read[of "flush a" xs1 ?cs path 0 n] inv1 small assms(2) n
    by (auto simp: acc_inv_def file_ok_def path_ok_def n_def a'_def)
  have "file_parts (path, bytes) = map (\<lambda>(i, c). (path, i, n, c)) (enumerate 0 ?cs)"
    using assms(4) by (simp add: file_parts_def n_def)
  then have "acc_inv a' (fs @ [(path, bytes)]) (xs1 @ ys) []" using ys inv1 by (simp add: acc_inv_def)
  then show ?thesis unfolding pk by blast
qed

text \<open>A file that fits into a block joins the pending files, after a flush when it has to.\<close>

lemma pack_small_inv:
  assumes "acc_inv a fs xs ds" "file_ok (path, bytes)" "length fs < 2 ^ 32" "\<not> BLOCK_SIZE < length bytes"
  shows "\<exists>xs' ds'. acc_inv (pack_file (path, bytes) a) (fs @ [(path, bytes)]) xs' ds'"
proof -
  define a1 where "a1 = (if BLOCK_SIZE < length (acc_payload a) + length bytes then flush a else a)"
  have "\<exists>xs1 ds1. acc_inv a1 fs xs1 ds1 \<and> length (concat (map snd ds1)) + length bytes \<le> BLOCK_SIZE"
  proof (cases "BLOCK_SIZE < length (acc_payload a) + length bytes")
    case True
    then show ?thesis using acc_inv_flush[OF assms(1,3)] assms(4) by (fastforce simp: a1_def)
  next
    case fits: False
    have "acc_payload a = concat (map snd ds)" using assms(1) by (simp add: acc_inv_def)
    then show ?thesis using assms(1) fits by (intro exI[of _ xs] exI[of _ ds]) (simp add: a1_def)
  qed
  then obtain xs1 ds1 where inv1: "acc_inv a1 fs xs1 ds1"
    and fits: "length (concat (map snd ds1)) + length bytes \<le> BLOCK_SIZE" by blast
  have pk: "pack_file (path, bytes) a = a1\<lparr>acc_payload := acc_payload a1 @ bytes, acc_entries := acc_entries a1 @
      [\<lparr>f_path = path, f_offset = of_nat (length (acc_payload a1)), f_size = of_nat (length bytes),
        part_index = 0, total_parts = 1\<rparr>]\<rparr>"
    using assms(4) by (simp add: pack_file_def a1_def Let_def)
  have "file_parts (path, bytes) = [(path, 0, 1, bytes)]" using assms(4) by (simp add: file_parts_def)
  then have "acc_inv (pack_file (path, bytes) a) (fs @ [(path, bytes)]) xs1 (ds1 @ [(path, bytes)])"
    using inv1 fits assms(2) unfolding pk by (auto simp: acc_inv_def mk_entries_snoc file_ok_def path_ok_def)
  then show ?thesis by blast
qed

lemma pack_file_inv:
  assumes "acc_inv a fs xs ds" "file_ok f" "length fs + 1 < 2 ^ 32"
  shows "\<exists>xs' ds'. acc_inv (pack_file f a) (fs @ [f]) xs' ds'"
proof -
  obtain path bytes where f: "f = (path, bytes)" by fastforce
  have "file_ok (path, bytes)" "length fs < 2 ^ 32" using assms(2,3) f by simp_all
  then show ?thesis unfolding f using pack_large_inv[OF assms(1)] pack_small_inv[OF assms(1)] by blast
qed

lemma fold_pack_inv:
  assumes "acc_inv a fs xs ds" "\<forall>f\<in>set gs. file_ok f" "length fs + length gs < 2 ^ 32"
  shows "\<exists>xs' ds'. acc_inv (fold pack_file gs a) (fs @ gs) xs' ds'"
  using assms
proof (induction gs arbitrary: a fs xs ds)
  case (Cons g gs)
  obtain xs1 ds1 where "acc_inv (pack_file g a) (fs @ [g]) xs1 ds1"
    using pack_file_inv[OF Cons.prems(1), of g] Cons.prems(2,3) by auto
  from Cons.IH[OF this] show ?case using Cons.prems by simp
qed auto

lemma pack_files_entries:
  assumes "\<forall>f\<in>set files. file_ok f" "length files < 2 ^ 32"
  obtains xs where "blocks_read (pack_files files) xs" "map piece_of (concat xs) = concat (map file_parts files)"
proof -
  define a0 where "a0 = \<lparr>next_block_id = 0, acc_entries = [], acc_payload = [], acc_blocks = []\<rparr>"
  have "acc_inv a0 [] [] []" by (simp add: acc_inv_def blocks_read_def a0_def)
  then obtain xs ds where "acc_inv (fold pack_file files a0) files xs ds"
    using fold_pack_inv[of a0 "[]" "[]" "[]" files] assms by auto
  then obtain xs' where "acc_inv (flush (fold pack_file files a0)) files xs' []"
    using acc_inv_flush assms(2) by blast
  moreover have "pack_files files = acc_blocks (flush (fold pack_file files a0))"
    by (simp add: pack_files_def a0_def)
  ultimately show thesis by (intro that[of xs']) (simp_all add: acc_inv_def blocks_read_def)
qed

text \<open>
  C7: packing loses nothing.  Every block of \<open>pack_files\<close> unpacks without an error, the ids of
  the blocks count up from 0, no block carries more than 16 MB of file data, and the entries of
  all blocks, in order, are exactly the files in their order, each file in one piece or, above
  16 MB, in consecutive numbered parts whose bytes concatenate to the file.
\<close>

theorem pack_files_roundtrip:
  assumes "\<forall>f\<in>set files. file_ok f" "length files < 2 ^ 32"
  shows "\<exists>xs. map unpack_entries (pack_files files) = map (\<lambda>x. Return (Inr x)) xs \<and>
    map blk_id (pack_files files) = map of_nat [0..<length (pack_files files)] \<and>
    (\<forall>x\<in>set xs. length (concat (map snd x)) \<le> BLOCK_SIZE) \<and>
    map piece_of (concat xs) = concat (map file_parts files) \<and>
    (\<forall>path bytes. concat (map (\<lambda>(p, i, n, d). d) (file_parts (path, bytes))) = bytes)"
  using pack_files_entries[OF assms] file_parts_concat unfolding blocks_read_def by metis

theorem pack_files_roundtrip_witness:
  "\<exists>xs. map unpack_entries (pack_files [([97, 47, 98], [1, 2, 3]), ([99], [])]) = map (\<lambda>x. Return (Inr x)) xs \<and>
     map piece_of (concat xs) = [([97, 47, 98], 0, 1, [1, 2, 3]), ([99], 0, 1, [])]"
proof -
  let ?fs = "[([97, 47, 98], [1, 2, 3]), ([99], [])]"
  have "\<forall>f\<in>set ?fs. file_ok f" by (simp add: file_ok_def path_ok_def from_utf8_ascii)
  from pack_files_roundtrip[OF this] show ?thesis by (auto simp: file_parts_def BLOCK_SIZE_def)
qed


text \<open>
  A hostile block can crash the reader.  An entry that announces the size \<open>2 ^ 64 - 1\<close> at
  offset 0 wraps the end of its range around to just before its start; the bounds check
  compares only the end with the length of the block, so the slice panics, for every path and
  every payload.
\<close>

theorem unpack_panics_on_wrapping_size:
  assumes "entry_ok e" "f_offset e = 0" "f_size e = - 1" "length (serialise_block b [e] payload) < 2 ^ 64"
  shows "unpack_entries \<lparr>blk_id = i, blk_data = serialise_block b [e] payload\<rparr> = Panic"
proof -
  define n where "n = 18 + length (entry_bytes e)"
  have len: "length (serialise_block b [e] payload) = n + length payload" by (simp add: serialise_block_def n_def)
  have m: "read_manifest (serialise_block b [e] payload) = Inr ([e], n)"
    using read_manifest_enc[of "[e]" b payload] assms(1) by (simp add: n_def)
  have n: "unat (of_nat n :: u64) = n" using assms(4) len by (simp add: unat_of_nat_small)
  have "0 < n" by (simp add: n_def)
  then have "unat (of_nat n - 1 :: u64) = n - 1" using n by (simp add: unat_minus_one flip: unat_eq_0)
  then show ?thesis using m n len assms(2,3) \<open>0 < n\<close> by (simp add: unpack_entries_def Let_def)
qed

theorem unpack_panics_on_wrapping_size_witness:
  "let e = \<lparr>f_path = [97], f_offset = 0, f_size = - 1, part_index = 0, total_parts = 1\<rparr> in
   unpack_entries \<lparr>blk_id = 0, blk_data = serialise_block 0 [e] [1, 2, 3]\<rparr> = Panic"
proof -
  let ?e = "\<lparr>f_path = [97], f_offset = 0, f_size = - 1, part_index = 0, total_parts = 1\<rparr>"
  have ok: "entry_ok ?e" by (simp add: entry_ok_def from_utf8_ascii)
  show ?thesis unfolding Let_def
    using length_entry_bytes[OF ok]
    by (intro unpack_panics_on_wrapping_size ok) (simp_all add: serialise_block_def)
qed

end
