(* ===== verification/IoEngine.thy ===== *)
theory IoEngine
  imports Packer "HOL-Library.AList"
begin

text \<open>
  The storage engine: the writer (\<^verbatim>\<open>crates/ioengine/src/writer.rs\<close>), which unpacks received
  blocks, puts split files together again and writes everything under the output directory; the
  reader (\<^verbatim>\<open>reader.rs\<close>), which walks a directory, reads its files and packs them; the
  coordinator (\<^verbatim>\<open>lib.rs\<close>); and the splice loop of \<^verbatim>\<open>zerocopy.rs\<close>.

  The answers of the operating system (directory creation, results of single reads and writes,
  completions of the background threads) are arguments.  A result is \<open>None\<close> where the code waits
  or loops forever.
\<close>

section \<open>Paths\<close>

text \<open>\<open>PathBuf::join\<close>: an absolute path replaces the base.\<close>

definition join :: "path \<Rightarrow> path \<Rightarrow> path" where
  "join base p =
     (if p \<noteq> [] \<and> hd p = 47 then p
      else if base = [] \<or> last base = 47 then base @ p else base @ [47] @ p)"

section \<open>Split files\<close>

text \<open>The parts received so far, a \<open>HashMap\<close> from part index to bytes.\<close>

record partial_file =
  pf_total_parts :: u32
  pf_parts :: "(u32 \<times> bytes) list"

definition is_complete :: "partial_file \<Rightarrow> bool" where
  "is_complete pf \<longleftrightarrow> length (pf_parts pf) = unat (pf_total_parts pf)"

fun assemble_parts :: "(u32 \<times> bytes) list \<Rightarrow> nat list \<Rightarrow> bytes" where
  "assemble_parts parts [] = []"
| "assemble_parts parts (i # is) =
     (case map_of parts (of_nat i) of
        Some p \<Rightarrow> p @ assemble_parts (AList.delete (of_nat i) parts) is
      | None \<Rightarrow> assemble_parts parts is)"

definition assemble :: "partial_file \<Rightarrow> bytes" where
  "assemble pf = assemble_parts (pf_parts pf) [0..<unat (pf_total_parts pf)]"

section \<open>The writer\<close>

datatype write_error =
    UnpackFailed pack_error | CreateDirFailed path | ThreadClosed | WriteFailed path | ThreadDied

text \<open>An answer of the result channel: a completed write, or the channel disconnected.\<close>

datatype poll = Completed path bool | Disconnected

record writer_state =
  partial_files :: "path \<rightharpoonup> partial_file"
  w_in_flight :: nat
  w_total_bytes :: u64
  submitted :: "(path \<times> bytes) list"

definition writer_start :: writer_state where
  "writer_start = \<lparr>partial_files = Map.empty, w_in_flight = 0, w_total_bytes = 0, submitted = []\<rparr>"

text \<open>
  The environment of a writer: whether the parent directory of a path can be created, whether
  the writer thread still takes requests, and the completions that can be reaped after the
  \<open>n\<close>-th entry before the result channel is empty.
\<close>

record writer_env =
  output_dir :: path
  mkdir_ok :: "path \<Rightarrow> bool"
  thread_open :: bool
  polls :: "nat \<Rightarrow> poll list"

definition submit_write :: "writer_env \<Rightarrow> path \<Rightarrow> bytes \<Rightarrow> writer_state \<Rightarrow> write_error + writer_state" where
  "submit_write env abs_path dat st =
     (if \<not> mkdir_ok env abs_path then Inl (CreateDirFailed abs_path)
      else if \<not> thread_open env then Inl ThreadClosed
      else Inr (st\<lparr>submitted := submitted st @ [(abs_path, dat)]\<rparr>))"

text \<open>The reaping loop: until nothing is in flight or the channel is empty.\<close>

fun reap :: "poll list \<Rightarrow> nat \<Rightarrow> write_error + nat" where
  "reap ps 0 = Inr 0"
| "reap [] (Suc n) = Inr (Suc n)"
| "reap (Completed p ok # ps) (Suc n) = (if ok then reap ps n else Inl (WriteFailed p))"
| "reap (Disconnected # ps) (Suc n) = Inl ThreadDied"

definition write_direct :: "writer_env \<Rightarrow> path \<Rightarrow> bytes \<Rightarrow> writer_state \<Rightarrow> write_error + writer_state" where
  "write_direct env abs_path dat st =
     (case submit_write env abs_path dat (st\<lparr>w_total_bytes := w_total_bytes st + of_nat (length dat)\<rparr>) of
        Inl e \<Rightarrow> Inl e
      | Inr st' \<Rightarrow> Inr (st'\<lparr>w_in_flight := w_in_flight st' + 1\<rparr>))"

definition store_entry :: "writer_env \<Rightarrow> file_entry \<times> bytes \<Rightarrow> writer_state \<Rightarrow> write_error + writer_state" where
  "store_entry env ed st =
     (let (entry, dat) = ed; abs_path = join (output_dir env) (f_path entry) in
      if total_parts entry = 1 then write_direct env abs_path dat st
      else
        let pf = (case partial_files st (f_path entry) of
                    None \<Rightarrow> \<lparr>pf_total_parts = total_parts entry, pf_parts = []\<rparr>
                  | Some pf \<Rightarrow> pf);
            pf' = pf\<lparr>pf_parts := AList.update (part_index entry) dat (pf_parts pf)\<rparr>
        in if is_complete pf'
           then write_direct env abs_path (assemble pf') (st\<lparr>partial_files := (partial_files st)(f_path entry := None)\<rparr>)
           else Inr (st\<lparr>partial_files := (partial_files st)(f_path entry \<mapsto> pf')\<rparr>))"

fun store_entries :: "writer_env \<Rightarrow> nat \<Rightarrow> (file_entry \<times> bytes) list \<Rightarrow> writer_state \<Rightarrow> write_error + (nat \<times> writer_state)" where
  "store_entries env k [] st = Inr (k, st)"
| "store_entries env k (ed # eds) st =
     (case store_entry env ed st of
        Inl e \<Rightarrow> Inl e
      | Inr st1 \<Rightarrow>
          (case reap (polls env k) (w_in_flight st1) of
             Inl e \<Rightarrow> Inl e
           | Inr n \<Rightarrow> store_entries env (Suc k) eds (st1\<lparr>w_in_flight := n\<rparr>)))"

fun store_blocks :: "writer_env \<Rightarrow> nat \<Rightarrow> bytes list \<Rightarrow> writer_state \<Rightarrow> (write_error + writer_state) outcome" where
  "store_blocks env k [] st = Return (Inr st)"
| "store_blocks env k (chunk # cs) st =
     (case unpack_entries \<lparr>blk_id = 0, blk_data = chunk\<rparr> of
        Panic \<Rightarrow> Panic
      | Return (Inl e) \<Rightarrow> Return (Inl (UnpackFailed e))
      | Return (Inr entries) \<Rightarrow>
          (case store_entries env k entries st of
             Inl e \<Rightarrow> Return (Inl e)
           | Inr (k', st') \<Rightarrow> store_blocks env k' cs st'))"

text \<open>The final wait for the writes that are still in flight; \<open>None\<close>: no completion ever comes.\<close>

fun drain :: "poll list \<Rightarrow> nat \<Rightarrow> (write_error + unit) option" where
  "drain ps 0 = Some (Inr ())"
| "drain [] (Suc n) = None"
| "drain (Completed p ok # ps) (Suc n) = (if ok then drain ps n else Some (Inl (WriteFailed p)))"
| "drain (Disconnected # ps) (Suc n) = Some (Inl ThreadDied)"

definition receive_and_write ::
  "writer_env \<Rightarrow> poll list \<Rightarrow> bytes list \<Rightarrow> (write_error + u64 \<times> (path \<times> bytes) list) outcome option" where
  "receive_and_write env final chunks_in =
     (case store_blocks env 0 chunks_in writer_start of
        Panic \<Rightarrow> Some Panic
      | Return (Inl e) \<Rightarrow> Some (Return (Inl e))
      | Return (Inr st) \<Rightarrow>
          (case drain final (w_in_flight st) of
             None \<Rightarrow> None
           | Some (Inl e) \<Rightarrow> Some (Return (Inl e))
           | Some (Inr _) \<Rightarrow> Some (Return (Inr (w_total_bytes st, submitted st)))))"

section \<open>Writing and reading one file\<close>

text \<open>
  The write loop: one submission of at most 64 KB at a time, whose completion \<open>n = k offset chunk\<close>
  is negative for an error and otherwise says how many bytes the kernel stored at the offset.
\<close>

definition pwrite :: "bytes \<Rightarrow> nat \<Rightarrow> bytes \<Rightarrow> bytes" where
  "pwrite file offset bs = take offset file @ bs @ drop (offset + length bs) file"

datatype io_error = OpenFailed | RingFailed | IoError nat int

partial_function (option) write_file_loop ::
  "(nat \<Rightarrow> nat \<Rightarrow> int) \<Rightarrow> bytes \<Rightarrow> nat \<Rightarrow> bytes \<Rightarrow> (io_error option \<times> bytes) option" where
  "write_file_loop k dat offset file =
     (if offset < length dat then
        let chunk = min (length dat - offset) (64 * 1024); n = k offset chunk in
        if n < 0 then Some (Some (IoError offset n), file)
        else write_file_loop k dat (offset + nat n)
               (pwrite file offset (slice offset (offset + nat n) dat))
      else Some (None, file))"

text \<open>
  The file is created or truncated when it is opened; after that the ring may fail to be created.
  The result is the error, if any, and what the file holds afterwards (\<open>None\<close>: it could not be opened and
  is what it was).
\<close>

datatype open_result = OpenFails | RingFails | Opened

definition write_file_io_uring ::
  "open_result \<Rightarrow> (nat \<Rightarrow> nat \<Rightarrow> int) \<Rightarrow> bytes \<Rightarrow> (io_error option \<times> bytes option) option" where
  "write_file_io_uring opening k dat =
     (case opening of
        OpenFails \<Rightarrow> Some (Some OpenFailed, None)
      | RingFails \<Rightarrow> Some (Some RingFailed, Some [])
      | Opened \<Rightarrow> map_option (\<lambda>(e, file). (e, Some file)) (write_file_loop k dat 0 []))"

text \<open>The background writer thread: the requests in order, until the shutdown signal.\<close>

fun io_uring_write_loop ::
  "(path \<Rightarrow> open_result) \<Rightarrow> (path \<Rightarrow> nat \<Rightarrow> nat \<Rightarrow> int) \<Rightarrow> (path \<times> bytes) option list \<Rightarrow> (path \<rightharpoonup> bytes) \<Rightarrow>
   (poll list \<times> (path \<rightharpoonup> bytes)) option" where
  "io_uring_write_loop opening k [] fs = Some ([], fs)"
| "io_uring_write_loop opening k (None # ms) fs = Some ([], fs)"
| "io_uring_write_loop opening k (Some (p, dat) # ms) fs =
     (case write_file_io_uring (opening p) (k p) dat of
        None \<Rightarrow> None
      | Some (err, file) \<Rightarrow>
          (case io_uring_write_loop opening k ms (case file of Some f \<Rightarrow> fs(p \<mapsto> f) | None \<Rightarrow> fs) of
             None \<Rightarrow> None
           | Some (rs, fs') \<Rightarrow> Some (Completed p (err = None) # rs, fs')))"

text \<open>The read loop fills a buffer of the size of the file.\<close>

definition READ_CHUNK :: nat where
  "READ_CHUNK = 64 * 1024"

partial_function (option) read_file_loop ::
  "(nat \<Rightarrow> nat \<Rightarrow> int) \<Rightarrow> bytes \<Rightarrow> nat \<Rightarrow> bytes \<Rightarrow> (io_error + bytes) option" where
  "read_file_loop k content offset result =
     (if offset < length result then
        let chunk = min (length result - offset) READ_CHUNK; n = k offset chunk in
        if n < 0 then Some (Inl (IoError offset n))
        else read_file_loop k content (offset + nat n)
               (pwrite result offset (slice offset (offset + nat n) content))
      else Some (Inr result))"

text \<open>
  The argument \<open>opened\<close> holds the length that \<open>metadata\<close> reported and what the file holds while it is read;
  \<open>None\<close>: it could not be opened, its length not read, or no ring created, none of which has an effect.
\<close>

definition read_file_io_uring :: "(nat \<Rightarrow> nat \<Rightarrow> int) \<Rightarrow> (nat \<times> bytes) option \<Rightarrow> (io_error + bytes) option" where
  "read_file_io_uring k opened =
     (case opened of
        None \<Rightarrow> Some (Inl OpenFailed)
      | Some (file_len, content) \<Rightarrow> read_file_loop k content 0 (replicate file_len 0))"

section \<open>Splice\<close>

text \<open>
  The loops of \<open>splice_copy\<close>: \<open>pull\<close> and \<open>push\<close> are the results of the two \<open>splice\<close> calls, given
  the bytes moved so far and the number asked for.  The result is an error of the inner loop or
  the number of bytes moved; \<open>usize\<close> subtraction of a larger number would wrap, so the
  differences are taken modulo \<open>2 ^ 64\<close>.
\<close>

definition usize_sub :: "nat \<Rightarrow> nat \<Rightarrow> nat" where
  "usize_sub a b = (if b \<le> a then a - b else 2 ^ 64 + a - b)"

partial_function (option) splice_drain ::
  "(nat \<Rightarrow> nat \<Rightarrow> int) \<Rightarrow> nat \<Rightarrow> nat \<Rightarrow> (unit + nat) option" where
  "splice_drain push to_drain done =
     (if 0 < to_drain then
        let n = push done to_drain in
        if n \<le> 0 then Some (Inl ()) else splice_drain push (usize_sub to_drain (nat n)) (done + nat n)
      else Some (Inr done))"

partial_function (option) splice_loop ::
  "(nat \<Rightarrow> nat \<Rightarrow> int) \<Rightarrow> (nat \<Rightarrow> nat \<Rightarrow> int) \<Rightarrow> nat \<Rightarrow> nat \<Rightarrow> (unit + nat) option" where
  "splice_loop pull push remaining done =
     (if 0 < remaining then
        let n = pull done remaining in
        if n \<le> 0 then Some (Inr done)
        else case splice_drain push (nat n) done of
               None \<Rightarrow> None
             | Some (Inl e) \<Rightarrow> Some (Inl e)
             | Some (Inr done') \<Rightarrow> splice_loop pull push (usize_sub remaining (nat n)) done'
      else Some (Inr done))"

definition splice_copy :: "bool \<Rightarrow> (nat \<Rightarrow> nat \<Rightarrow> int) \<Rightarrow> (nat \<Rightarrow> nat \<Rightarrow> int) \<Rightarrow> nat \<Rightarrow> (unit + nat) option" where
  "splice_copy pipe_ok pull push len = (if pipe_ok then splice_loop pull push len 0 else Some (Inl ()))"

definition sendfile_to_socket :: "(nat \<Rightarrow> int) \<Rightarrow> nat \<Rightarrow> unit + nat" where
  "sendfile_to_socket sendfile count = (let sent = sendfile count in if sent < 0 then Inl () else Inr (nat sent))"

section \<open>Putting split files together\<close>

lemma map_of_delete_other: "i \<noteq> j \<Longrightarrow> map_of (AList.delete i parts) j = map_of parts j"
  by (simp add: AList.delete_conv')

lemma assemble_parts_eq:
  assumes "distinct is" "\<forall>i\<in>set is. i < 2 ^ 32"
  shows "assemble_parts parts is = concat (map (\<lambda>i. case map_of parts (of_nat i) of None \<Rightarrow> [] | Some p \<Rightarrow> p) is)"
  using assms
proof (induction "is" arbitrary: parts)
  case (Cons i js)
  have "(of_nat i :: u32) \<noteq> of_nat j" if "j \<in> set js" for j
    using that Cons.prems by (subst of_nat_word_eq_small) auto
  then have eq: "map (\<lambda>j. case map_of (AList.delete (of_nat i) parts) (of_nat j) of None \<Rightarrow> [] | Some p \<Rightarrow> p) js =
      map (\<lambda>j. case map_of parts (of_nat j) of None \<Rightarrow> [] | Some p \<Rightarrow> p) js"
    by (intro map_cong) (simp_all add: map_of_delete_other)
  show ?case
  proof (cases "map_of parts (of_nat i :: u32)")
    case (Some p)
    then show ?thesis using Cons.IH[of "AList.delete (of_nat i) parts"] Cons.prems unfolding eq by simp
  qed (use Cons in simp)
qed simp

text \<open>The accumulator after some parts of a file, in any order and with repetitions.\<close>

definition collect_parts :: "nat \<Rightarrow> (nat \<times> bytes) list \<Rightarrow> partial_file" where
  "collect_parts n ps = \<lparr>pf_total_parts = of_nat n,
     pf_parts = fold (\<lambda>(i, c). AList.update (of_nat i) c) ps []\<rparr>"

lemma collect_parts_facts:
  assumes "\<forall>(i, c)\<in>set ps. i < length cs \<and> c = cs ! i" "length cs < 2 ^ 32"
  defines "al \<equiv> fold (\<lambda>(i, c). AList.update (of_nat i :: u32) c) ps []"
  shows "distinct (map fst al) \<and> fst ` set al = of_nat ` fst ` set ps \<and>
    (\<forall>i < length cs. map_of al (of_nat i) = (if i \<in> fst ` set ps then Some (cs ! i) else None))"
  using assms(1) unfolding al_def
proof (induction ps rule: rev_induct)
  case (snoc x ps)
  obtain i c where x: "x = (i, c)" by fastforce
  have i: "i < length cs" "c = cs ! i" using snoc.prems x by auto
  define al where "al = fold (\<lambda>(i, c). AList.update (of_nat i :: u32) c) ps []"
  have ih: "distinct (map fst al)" "fst ` set al = of_nat ` fst ` set ps"
    "\<forall>i < length cs. map_of al (of_nat i) = (if i \<in> fst ` set ps then Some (cs ! i) else None)"
    using snoc by (auto simp: al_def)
  have inj: "(of_nat a :: u32) = of_nat b \<longleftrightarrow> a = b" if "a < length cs" "b < length cs" for a b
    using that assms(2) by (intro of_nat_word_eq_small) simp_all
  have step: "fold (\<lambda>(i, c). AList.update (of_nat i :: u32) c) (ps @ [x]) [] = AList.update (of_nat i) c al"
    by (simp add: x al_def)
  have "fst ` set (AList.update (of_nat i :: u32) c al) = insert (of_nat i) (fst ` set al)"
    using AList.dom_update[of "of_nat i :: u32" c al] by simp
  moreover have "distinct (map fst (AList.update (of_nat i) c al))" using ih(1) by (rule AList.distinct_update)
  moreover have "map_of (AList.update (of_nat i) c al) (of_nat j) =
      (if j \<in> fst ` set (ps @ [x]) then Some (cs ! j) else None)" if "j < length cs" for j
    using that i ih(3) inj[OF i(1) that] by (auto simp: AList.update_conv' x)
  ultimately show ?case using ih(2) unfolding step by (auto simp: x)
qed simp


lemma collect_parts_complete:
  assumes "\<forall>(i, c)\<in>set ps. i < length cs \<and> c = cs ! i" "length cs < 2 ^ 32"
  shows "is_complete (collect_parts (length cs) ps) \<longleftrightarrow> fst ` set ps = {..<length cs}"
    and "fst ` set ps = {..<length cs} \<Longrightarrow> assemble (collect_parts (length cs) ps) = concat cs"
proof -
  define al where "al = fold (\<lambda>(i, c). AList.update (of_nat i :: u32) c) ps []"
  have al: "distinct (map fst al)" "fst ` set al = of_nat ` fst ` set ps"
    "\<forall>i < length cs. map_of al (of_nat i) = (if i \<in> fst ` set ps then Some (cs ! i) else None)"
    using collect_parts_facts[OF assms] by (simp_all add: al_def)
  have n: "unat (of_nat (length cs) :: u32) = length cs" using assms(2) by (simp add: unat_of_nat_small)
  have sub: "fst ` set ps \<subseteq> {..<length cs}" using assms(1) by auto
  have "inj_on (of_nat :: nat \<Rightarrow> u32) (fst ` set ps)"
  proof (rule inj_onI)
    fix x y assume "x \<in> fst ` set ps" "y \<in> fst ` set ps" "(of_nat x :: u32) = of_nat y"
    moreover from this sub have "x < 2 ^ LENGTH(32)" "y < 2 ^ LENGTH(32)" using assms(2) by auto
    ultimately show "x = y" by (simp add: of_nat_word_eq_small)
  qed
  then have "length al = card (fst ` set ps)"
    using distinct_card[OF al(1)] al(2) by (simp add: card_image)
  moreover have "card (fst ` set ps) = length cs \<longleftrightarrow> fst ` set ps = {..<length cs}"
    using card_subset_eq[OF finite_lessThan sub] by auto
  ultimately show "is_complete (collect_parts (length cs) ps) \<longleftrightarrow> fst ` set ps = {..<length cs}"
    by (simp add: is_complete_def collect_parts_def al_def[symmetric] n)
  assume all: "fst ` set ps = {..<length cs}"
  have "assemble (collect_parts (length cs) ps) =
      concat (map (\<lambda>i. case map_of al (of_nat i) of None \<Rightarrow> [] | Some p \<Rightarrow> p) [0..<length cs])"
    using n assms(2) by (simp add: assemble_def collect_parts_def al_def[symmetric] assemble_parts_eq)
  also have "map (\<lambda>i. case map_of al (of_nat i) of None \<Rightarrow> [] | Some p \<Rightarrow> p) [0..<length cs] = map ((!) cs) [0..<length cs]"
    using al(3) all by (intro map_cong) auto
  finally show "assemble (collect_parts (length cs) ps) = concat cs" by (simp add: map_nth)
qed

text \<open>
  Split files come back whole, in whatever order their parts arrive.  For a file cut into
  parts, after any sequence of its parts (any order, repetitions allowed) the accumulator is
  complete exactly when every part is there, and the assembled bytes are then the parts in
  their order, that is the file.
\<close>

theorem split_file_reassembles:
  assumes "\<forall>(i, c)\<in>set ps. i < length cs \<and> c = cs ! i" "length cs < 2 ^ 32"
  shows "(is_complete (collect_parts (length cs) ps) \<longleftrightarrow> fst ` set ps = {..<length cs}) \<and>
    (is_complete (collect_parts (length cs) ps) \<longrightarrow> assemble (collect_parts (length cs) ps) = concat cs)"
  using collect_parts_complete[OF assms] by blast

theorem split_file_reassembles_witness:
  "is_complete (collect_parts 3 [(2, [5]), (0, [1, 2]), (2, [5]), (1, [3, 4])]) \<and>
   assemble (collect_parts 3 [(2, [5]), (0, [1, 2]), (2, [5]), (1, [3, 4])]) = [1, 2, 3, 4, 5]"
proof -
  let ?ps = "[(2, [5]), (0, [1, 2]), (2, [5]), (1, [3, 4])] :: (nat \<times> bytes) list"
  have "\<forall>(i, c)\<in>set ?ps. i < length [[1, 2], [3, 4], [5 :: u8]] \<and> c = [[1, 2], [3, 4], [5]] ! i" by simp
  moreover have len: "length [[1, 2], [3, 4], [5 :: u8]] = 3" by simp
  moreover have "fst ` set ?ps = {..<3}" by (auto simp: numeral_3_eq_3 numeral_2_eq_2 less_Suc_eq)
  moreover have "concat [[1, 2], [3, 4], [5 :: u8]] = [1, 2, 3, 4, 5]" by simp
  ultimately show ?thesis using split_file_reassembles[of ?ps "[[1, 2], [3, 4], [5]]"] unfolding len by simp
qed

section \<open>The writer on a packed stream\<close>

text \<open>A storage that works: directories can be created, the thread runs, every write succeeds.\<close>

definition poll_ok :: "poll \<Rightarrow> bool" where
  "poll_ok p \<longleftrightarrow> (\<exists>path. p = Completed path True)"

definition env_ok :: "writer_env \<Rightarrow> bool" where
  "env_ok env \<longleftrightarrow> (\<forall>p. mkdir_ok env p) \<and> thread_open env \<and> (\<forall>k. \<forall>p\<in>set (polls env k). poll_ok p)"

lemma reap_ok: "\<forall>p\<in>set ps. poll_ok p \<Longrightarrow> \<exists>m. reap ps n = Inr m \<and> m \<le> n"
proof (induction ps n rule: reap.induct)
  case (3 p ok ps n)
  then obtain m where "reap ps n = Inr m" "m \<le> n" by (auto simp: poll_ok_def)
  then show ?case using 3 by (auto simp: poll_ok_def)
qed (auto simp: poll_ok_def)

lemma drain_ok: "\<forall>p\<in>set ps. poll_ok p \<Longrightarrow> n \<le> length ps \<Longrightarrow> drain ps n = Some (Inr ())"
  by (induction ps n rule: drain.induct) (auto simp: poll_ok_def)

lemma write_direct_ok:
  assumes "env_ok env"
  shows "write_direct env p dat st = Inr (st\<lparr>w_total_bytes := w_total_bytes st + of_nat (length dat),
    submitted := submitted st @ [(p, dat)], w_in_flight := w_in_flight st + 1\<rparr>)"
  using assms by (simp add: write_direct_def submit_write_def env_ok_def)

lemma store_entries_append:
  "store_entries env k (xs @ ys) st =
    (case store_entries env k xs st of Inl e \<Rightarrow> Inl e | Inr (k', st') \<Rightarrow> store_entries env k' ys st')"
  by (induction env k xs st rule: store_entries.induct) (auto split: sum.split)

text \<open>What storing one file does: it is submitted under its path and counted.\<close>

definition stored :: "writer_env \<Rightarrow> path \<times> bytes \<Rightarrow> writer_state \<Rightarrow> writer_state \<Rightarrow> bool" where
  "stored env f st st' \<longleftrightarrow> partial_files st' = partial_files st \<and>
     submitted st' = submitted st @ [(join (output_dir env) (fst f), snd f)] \<and>
     w_total_bytes st' = w_total_bytes st + of_nat (length (snd f)) \<and> w_in_flight st' \<le> w_in_flight st + 1"

lemma store_whole:
  assumes "env_ok env" "piece_of ed = (p, 0, 1, b)"
  shows "\<exists>st'. store_entries env k [ed] st = Inr (Suc k, st') \<and> stored env (p, b) st st'"
proof -
  obtain e d where ed: "ed = (e, d)" by fastforce
  have "unat (total_parts e) = 1" using assms(2) by (simp add: ed piece_of_def)
  then have e: "f_path e = p" "d = b" "total_parts e = 1"
    using assms(2) by (simp_all add: ed piece_of_def word_unat_eq_iff)
  obtain m where "reap (polls env k) (w_in_flight st + 1) = Inr m" "m \<le> w_in_flight st + 1"
    using reap_ok[of "polls env k" "w_in_flight st + 1"] assms(1) by (auto simp: env_ok_def)
  then show ?thesis using e write_direct_ok[OF assms(1)]
    by (simp add: ed store_entry_def stored_def)
qed


text \<open>
  The parts of a split file, in order.  After the first \<open>j\<close> of \<open>n\<close> parts, for
  \<open>0 < j < n\<close>, the accumulator of the path holds exactly them.
\<close>

lemma collect_parts_snoc: "collect_parts n (ps @ [(i, c)]) =
    (collect_parts n ps)\<lparr>pf_parts := AList.update (of_nat i) c (pf_parts (collect_parts n ps))\<rparr>"
  by (simp add: collect_parts_def)

abbreviation first_parts :: "bytes list \<Rightarrow> nat \<Rightarrow> (nat \<times> bytes) list" where
  "first_parts cs j \<equiv> enumerate 0 (take j cs)"

lemma first_parts_facts:
  assumes "j \<le> length cs"
  shows "\<forall>(i, c)\<in>set (first_parts cs j). i < length cs \<and> c = cs ! i" and "fst ` set (first_parts cs j) = {..<j}"
proof -
  have "first_parts cs j = map (\<lambda>i. (i, cs ! i)) [0..<j]"
    using assms by (intro nth_equalityI) (auto simp: nth_enumerate_eq)
  then show "\<forall>(i, c)\<in>set (first_parts cs j). i < length cs \<and> c = cs ! i" "fst ` set (first_parts cs j) = {..<j}"
    using assms by (auto simp: image_image)
qed

definition holds_parts :: "path \<Rightarrow> bytes list \<Rightarrow> nat \<Rightarrow> writer_state \<Rightarrow> writer_state \<Rightarrow> bool" where
  "holds_parts p cs j st0 st \<longleftrightarrow>
     partial_files st = (if j = 0 then partial_files st0 else (partial_files st0)(p \<mapsto> collect_parts (length cs) (first_parts cs j))) \<and>
     submitted st = submitted st0 \<and> w_total_bytes st = w_total_bytes st0 \<and> w_in_flight st \<le> w_in_flight st0"

lemma store_part:
  assumes env: "env_ok env" and n: "1 < length cs" "length cs < 2 ^ 32" and j: "j < length cs"
    and none: "partial_files st0 p = None" and st: "holds_parts p cs j st0 st"
    and ed: "piece_of ed = (p, j, length cs, cs ! j)"
  shows "\<exists>st'. store_entries env k [ed] st = Inr (Suc k, st') \<and>
    (if Suc j < length cs then holds_parts p cs (Suc j) st0 st' else stored env (p, concat cs) st0 st')"
proof -
  obtain e d where edd: "ed = (e, d)" by fastforce
  have u: "unat (total_parts e) = length cs" "unat (part_index e) = j" and e: "f_path e = p" "d = cs ! j"
    using ed by (simp_all add: edd piece_of_def)
  have tp: "total_parts e = of_nat (length cs)" "part_index e = of_nat j" "total_parts e \<noteq> 1"
    using u n(1) by (auto simp flip: u)
  define pf where "pf = (case partial_files st p of None \<Rightarrow> \<lparr>pf_total_parts = total_parts e, pf_parts = []\<rparr> | Some pf \<Rightarrow> pf)"
  have "pf = collect_parts (length cs) (first_parts cs j)"
    using st none tp(1) by (auto simp: pf_def holds_parts_def collect_parts_def split: if_splits)
  then have pf': "pf\<lparr>pf_parts := AList.update (part_index e) d (pf_parts pf)\<rparr> = collect_parts (length cs) (first_parts cs (Suc j))"
    using j e(2) tp(2) by (simp add: take_Suc_conv_app_nth enumerate_append_eq collect_parts_snoc)
  note facts = first_parts_facts[of "Suc j" cs]
  have comp: "is_complete (collect_parts (length cs) (first_parts cs (Suc j))) \<longleftrightarrow> Suc j = length cs"
    using collect_parts_complete(1)[OF facts(1) n(2)] facts(2) j by auto
  have asm: "assemble (collect_parts (length cs) (first_parts cs (Suc j))) = concat cs" if "Suc j = length cs"
    using collect_parts_complete(2)[OF facts(1) n(2)] facts(2) that by simp
  have ok: "\<forall>q\<in>set (polls env k). poll_ok q" using env by (simp add: env_ok_def)
  have se: "store_entry env ed st = (if Suc j = length cs
      then write_direct env (join (output_dir env) p) (concat cs) (st\<lparr>partial_files := (partial_files st)(p := None)\<rparr>)
      else Inr (st\<lparr>partial_files := (partial_files st)(p \<mapsto> collect_parts (length cs) (first_parts cs (Suc j)))\<rparr>))"
    using tp(3) e(1) pf' comp asm by (simp add: store_entry_def edd pf_def[symmetric] Let_def)
  show ?thesis
  proof (cases "Suc j = length cs")
    case True
    obtain m where "reap (polls env k) (w_in_flight st + 1) = Inr m" "m \<le> w_in_flight st + 1"
      using reap_ok[OF ok] by blast
    moreover have "(partial_files st)(p := None) = partial_files st0"
      using st none by (auto simp: holds_parts_def fun_eq_iff)
    ultimately show ?thesis using True se st write_direct_ok[OF env]
      by (simp add: stored_def holds_parts_def)
  next
    case False
    obtain m where "reap (polls env k) (w_in_flight st) = Inr m" "m \<le> w_in_flight st" using reap_ok[OF ok] by blast
    then show ?thesis using False se st j
      by (auto simp: holds_parts_def)
  qed
qed

lemma store_split:
  assumes env: "env_ok env" and n: "1 < length cs" "length cs < 2 ^ 32" and none: "partial_files st0 p = None"
    and "map piece_of es = map (\<lambda>(i, c). (p, i, length cs, c)) (enumerate j (drop j cs))" "j < length cs"
    "holds_parts p cs j st0 st"
  shows "\<exists>k' st'. store_entries env k es st = Inr (k', st') \<and> stored env (p, concat cs) st0 st'"
  using assms(5-)
proof (induction "length cs - j" arbitrary: j es st k)
  case (Suc d)
  have dr: "drop j cs = cs ! j # drop (Suc j) cs" using Suc.prems(2) by (simp add: Cons_nth_drop_Suc)
  then obtain ed es' where es: "es = ed # es'" "piece_of ed = (p, j, length cs, cs ! j)"
    "map piece_of es' = map (\<lambda>(i, c). (p, i, length cs, c)) (enumerate (Suc j) (drop (Suc j) cs))"
    using Suc.prems(1) by (auto simp: Cons_eq_map_conv)
  obtain st1 where st1: "store_entries env k [ed] st = Inr (Suc k, st1)"
    "if Suc j < length cs then holds_parts p cs (Suc j) st0 st1 else stored env (p, concat cs) st0 st1"
    using store_part[OF env n Suc.prems(2) none Suc.prems(3) es(2)] by blast
  have app: "store_entries env k es st = store_entries env (Suc k) es' st1"
    using store_entries_append[of env k "[ed]" es' st] st1(1) es(1) by simp
  show ?case
  proof (cases "Suc j < length cs")
    case True
    then show ?thesis using Suc.hyps(1)[OF _ es(3), of st1 "Suc k"] st1(2) Suc.hyps(2) unfolding app by simp
  next
    case False
    then have "es' = []" using es(3) by simp
    then show ?thesis using st1(2) False unfolding app by simp
  qed
qed simp

lemma store_file:
  assumes "env_ok env" "file_ok f" "map piece_of es = file_parts f" "partial_files st (fst f) = None"
  shows "\<exists>k' st'. store_entries env k es st = Inr (k', st') \<and> stored env f st st'"
proof -
  obtain p b where f: "f = (p, b)" by fastforce
  have pos: "0 < BLOCK_SIZE" by (simp add: BLOCK_SIZE_def)
  show ?thesis
  proof (cases "BLOCK_SIZE < length b")
    case True
    let ?cs = "chunks BLOCK_SIZE b"
    have len: "length ?cs = (length b + BLOCK_SIZE - 1) div BLOCK_SIZE" by (rule length_chunks[OF pos])
    have "(BLOCK_SIZE + 1 + BLOCK_SIZE - 1) div BLOCK_SIZE \<le> length ?cs"
      unfolding len using True by (intro div_le_mono) simp
    moreover have "length ?cs \<le> (2 ^ 55 + BLOCK_SIZE - 1) div BLOCK_SIZE"
      unfolding len using assms(2) f by (intro div_le_mono diff_le_mono add_le_mono) (simp_all add: file_ok_def)
    ultimately have n: "1 < length ?cs" "length ?cs < 2 ^ 32" by (simp_all add: BLOCK_SIZE_def)
    have "map piece_of es = map (\<lambda>(i, c). (p, i, length ?cs, c)) (enumerate 0 (drop 0 ?cs))"
      using assms(3) True by (simp add: file_parts_def f)
    moreover have "?cs \<noteq> []" using n(1) by auto
    ultimately show ?thesis
      using store_split[OF assms(1) n _ _ _ , of st p es 0 st k] assms(4) n(1) concat_chunks[OF pos, of b]
      by (simp add: f holds_parts_def)
  next
    case False
    then obtain ed where "es = [ed]" "piece_of ed = (p, 0, 1, b)" using assms(3) by (auto simp: file_parts_def f)
    then show ?thesis using store_whole[OF assms(1), of ed p b k st] f by blast
  qed
qed


text \<open>What storing a list of files does.\<close>

definition stored_all :: "writer_env \<Rightarrow> (path \<times> bytes) list \<Rightarrow> writer_state \<Rightarrow> writer_state \<Rightarrow> bool" where
  "stored_all env fs st st' \<longleftrightarrow> partial_files st' = partial_files st \<and>
     submitted st' = submitted st @ map (\<lambda>(p, b). (join (output_dir env) p, b)) fs \<and>
     w_total_bytes st' = w_total_bytes st + of_nat (\<Sum>(p, b)\<leftarrow>fs. length b) \<and>
     w_in_flight st' \<le> w_in_flight st + length fs"

lemma store_files:
  assumes "env_ok env" "\<forall>f\<in>set fs. file_ok f" "map piece_of es = concat (map file_parts fs)"
    "\<forall>f\<in>set fs. partial_files st (fst f) = None"
  shows "\<exists>k' st'. store_entries env k es st = Inr (k', st') \<and> stored_all env fs st st'"
  using assms(2-4)
proof (induction fs arbitrary: es st k)
  case (Cons f fs)
  obtain es1 es2 where es: "es = es1 @ es2" "map piece_of es1 = file_parts f"
    "map piece_of es2 = concat (map file_parts fs)"
    using Cons.prems(2) by (auto simp: map_eq_append_conv)
  obtain k1 st1 where st1: "store_entries env k es1 st = Inr (k1, st1)" "stored env f st st1"
    using store_file[OF assms(1) _ es(2), of st k] Cons.prems(1,3) by auto
  have "\<forall>g\<in>set fs. partial_files st1 (fst g) = None" using st1(2) Cons.prems(3) by (simp add: stored_def)
  then obtain k2 st2 where st2: "store_entries env k1 es2 st1 = Inr (k2, st2)" "stored_all env fs st1 st2"
    using Cons.IH[OF _ es(3), of st1 k1] Cons.prems(1) by auto
  have "store_entries env k es st = Inr (k2, st2)"
    using st1(1) st2(1) by (simp add: es(1) store_entries_append)
  moreover have "stored_all env (f # fs) st st2"
    using st1(2) st2(2) by (auto simp: stored_def stored_all_def split_def add.assoc)
  ultimately show ?case by blast
qed (simp add: stored_all_def)

lemma unpack_entries_id: "unpack_entries \<lparr>blk_id = i, blk_data = blk_data b\<rparr> = unpack_entries b"
  by (simp add: unpack_entries_def split: sum.split)

lemma store_blocks_flat:
  assumes "map unpack_entries bs = map (\<lambda>x. Return (Inr x)) xs"
  shows "store_blocks env k (map blk_data bs) st =
    (case store_entries env k (concat xs) st of Inl e \<Rightarrow> Return (Inl e) | Inr (k', st') \<Rightarrow> Return (Inr st'))"
  using assms
proof (induction bs arbitrary: xs k st)
  case (Cons b bs)
  then obtain x ys where "xs = x # ys" "unpack_entries b = Return (Inr x)"
    "map unpack_entries bs = map (\<lambda>x. Return (Inr x)) ys" by (auto simp: Cons_eq_map_conv)
  then show ?case using Cons.IH
    by (simp add: unpack_entries_id store_entries_append split: sum.split)
qed simp

lemma receive_packed:
  assumes "env_ok env" "\<forall>f\<in>set files. file_ok f" "length files < 2 ^ 32"
    "\<forall>p\<in>set final. poll_ok p" "length files \<le> length final"
  shows "receive_and_write env final (map blk_data (pack_files files)) =
    Some (Return (Inr (of_nat (\<Sum>(p, b)\<leftarrow>files. length b),
                       map (\<lambda>(p, b). (join (output_dir env) p, b)) files)))"
proof -
  obtain xs where xs: "map unpack_entries (pack_files files) = map (\<lambda>x. Return (Inr x)) xs"
    "map piece_of (concat xs) = concat (map file_parts files)"
    using pack_files_entries[OF assms(2,3)] unfolding blocks_read_def by metis
  obtain k st where st: "store_entries env 0 (concat xs) writer_start = Inr (k, st)" "stored_all env files writer_start st"
    using store_files[OF assms(1,2) xs(2), of writer_start 0] by (auto simp: writer_start_def)
  have "drain final (w_in_flight st) = Some (Inr ())"
    using st(2) assms(4,5) by (intro drain_ok) (auto simp: stored_all_def writer_start_def)
  then show ?thesis using st
    by (simp add: receive_and_write_def store_blocks_flat[OF xs(1)] stored_all_def writer_start_def)
qed

text \<open>
  C8: what is packed is what is written.  A writer that gets the blocks of \<open>pack_files\<close> and
  whose storage works returns the total number of bytes and has submitted exactly one write per
  file, in the order of the files, under the output directory, with the bytes of the file: small
  files as they are, split files put together from their parts.
\<close>

theorem receive_and_write_restores_files:
  assumes "env_ok env" "\<forall>f\<in>set files. file_ok f" "length files < 2 ^ 32"
    "\<forall>p\<in>set final. poll_ok p" "length files \<le> length final"
  shows "receive_and_write env final (map blk_data (pack_files files)) =
    Some (Return (Inr (of_nat (\<Sum>(p, b)\<leftarrow>files. length b),
                       map (\<lambda>(p, b). (join (output_dir env) p, b)) files)))"
  using assms by (rule receive_packed)

theorem receive_and_write_restores_files_witness:
  "let env = \<lparr>output_dir = [111], mkdir_ok = (\<lambda>_. True), thread_open = True, polls = (\<lambda>_. [])\<rparr> in
   receive_and_write env [Completed [] True, Completed [] True] (map blk_data (pack_files [([97], [1, 2, 3]), ([98], [])])) =
     Some (Return (Inr (3, [([111, 47, 97], [1, 2, 3]), ([111, 47, 98], [])])))"
proof -
  let ?env = "\<lparr>output_dir = [111], mkdir_ok = (\<lambda>_. True), thread_open = True, polls = (\<lambda>_. [])\<rparr>"
  have "env_ok ?env" by (simp add: env_ok_def)
  from receive_and_write_restores_files[OF this, of "[([97], [1, 2, 3]), ([98], [])]" "[Completed [] True, Completed [] True]"]
  show ?thesis by (simp add: file_ok_def path_ok_def from_utf8_ascii poll_ok_def join_def Let_def)
qed


section \<open>The loops over system calls\<close>

text \<open>
  A transfer call that makes progress: on a request for a positive number of bytes it moves at
  least one and at most as many as were asked for.
\<close>

definition progress :: "(nat \<Rightarrow> nat \<Rightarrow> int) \<Rightarrow> bool" where
  "progress k \<longleftrightarrow> (\<forall>off n. 0 < n \<longrightarrow> 0 < k off n \<and> k off n \<le> int n)"

lemma progressD: "progress k \<Longrightarrow> 0 < n \<Longrightarrow> \<exists>m. k off n = int m \<and> 0 < m \<and> m \<le> n"
  unfolding progress_def by (metis int_nat_eq nat_le_iff of_nat_0_less_iff order.strict_implies_order zero_less_nat_eq)

lemma pwrite_next:
  assumes "offset + m \<le> length dat" "take offset file = take offset dat" "offset \<le> length file"
  shows "take (offset + m) (pwrite file offset (slice offset (offset + m) dat)) = take (offset + m) dat"
    and "length (pwrite file offset (slice offset (offset + m) dat)) = max (length file) (offset + m)"
proof -
  define sl where "sl = slice offset (offset + m) dat"
  have sl: "length sl = m" using assms(1) by (simp add: sl_def)
  have tk: "take offset dat @ sl = take (offset + m) dat" by (simp add: sl_def slice_def take_add)
  have l: "length (take (offset + m) dat) = offset + m" using assms(1) by simp
  have eq: "pwrite file offset sl = take (offset + m) dat @ drop (offset + m) file"
    using sl by (simp add: pwrite_def assms(2) flip: tk)
  show "take (offset + m) (pwrite file offset (slice offset (offset + m) dat)) = take (offset + m) dat"
    "length (pwrite file offset (slice offset (offset + m) dat)) = max (length file) (offset + m)"
    unfolding sl_def[symmetric] eq using l by auto
qed

lemma write_file_loop_ok:
  assumes "progress k" "offset \<le> length dat"
  shows "write_file_loop k dat offset (take offset dat) = Some (None, dat)"
  using assms(2)
proof (induction "length dat - offset" arbitrary: offset rule: less_induct)
  case less
  show ?case
  proof (cases "offset < length dat")
    case True
    define c where "c = min (length dat - offset) 65536"
    obtain m where m: "k offset c = int m" "0 < m" "m \<le> c"
      using progressD[OF assms(1), of c offset] True by (auto simp: c_def)
    have fit: "offset + m \<le> length dat" using m(3) True by (auto simp: c_def)
    have len: "length (pwrite (take offset dat) offset (slice offset (offset + m) dat)) = offset + m"
      using pwrite_next(2)[OF fit, of "take offset dat"] True by simp
    have "pwrite (take offset dat) offset (slice offset (offset + m) dat) = take (offset + m) dat"
      using pwrite_next(1)[OF fit, of "take offset dat"] True len by simp
    then show ?thesis using True m fit less.hyps[of "offset + m"]
      by (subst write_file_loop.simps) (simp add: c_def[symmetric] Let_def)
  qed (use less.prems in \<open>simp add: write_file_loop.simps\<close>)
qed

lemma read_file_loop_ok:
  assumes "progress k" "offset \<le> length content" "length result = length content"
    "take offset result = take offset content"
  shows "read_file_loop k content offset result = Some (Inr content)"
  using assms(2-)
proof (induction "length content - offset" arbitrary: offset result rule: less_induct)
  case less
  show ?case
  proof (cases "offset < length content")
    case True
    define c where "c = min (length content - offset) READ_CHUNK"
    have "0 < c" using True by (simp add: c_def READ_CHUNK_def)
    then obtain m where m: "k offset c = int m" "0 < m" "m \<le> c" using progressD[OF assms(1)] by blast
    have fit: "offset + m \<le> length content" using m(3) True by (auto simp: c_def)
    note nx = pwrite_next[OF fit less.prems(3)]
    show ?thesis using True m fit nx less.prems less.hyps[of "offset + m"]
      by (subst read_file_loop.simps) (simp add: c_def[symmetric])
  qed (use less.prems in \<open>simp add: read_file_loop.simps\<close>)
qed

text \<open>A read that reports the end of the file makes the loop spin.\<close>

lemma read_file_loop_stuck:
  assumes "\<forall>n. k m n = 0" "m < length result"
  shows "read_file_loop k content m result = None"
proof -
  have "read_file_loop k' c off result' = Some r \<Longrightarrow> k' = k \<Longrightarrow> off = m \<Longrightarrow> length result' = length result \<Longrightarrow> False"
    for k' c off result' r
  proof (induction arbitrary: rule: read_file_loop.raw_induct[rotated, consumes 1, case_names step])
    case (step f k' c off result' r)
    then show ?case using assms by (simp add: Let_def pwrite_def slice_def)
  qed
  then have "read_file_loop k content m result \<noteq> Some r" for r by blast
  then show ?thesis by (cases "read_file_loop k content m result") blast+
qed


lemma read_file_shrunk:
  assumes "short < file_len" "\<forall>n. stuck short n = 0"
    "\<forall>off n. off < short \<longrightarrow> 0 < n \<longrightarrow> stuck off n = int (min n (short - off))" "length content = short"
  shows "read_file_io_uring stuck (Some (file_len, content)) = None"
proof -
  have "read_file_loop stuck content off result = None" if "off \<le> short" "length result = file_len" for off result
    using that
  proof (induction "short - off" arbitrary: off result rule: less_induct)
    case less
    show ?case
    proof (cases "off = short")
      case True
      then show ?thesis using read_file_loop_stuck[of stuck short] assms(1,2) less.prems by simp
    next
      case False
      then have off: "off < short" using less.prems by simp
      define m where "m = min (min (file_len - off) READ_CHUNK) (short - off)"
      have m: "stuck off (min (file_len - off) READ_CHUNK) = int m" "0 < m" "off + m \<le> short"
        using assms(1,3) off by (auto simp: m_def READ_CHUNK_def)
      have "length (pwrite result off (slice off (off + m) content)) = file_len"
        using m(3) assms(1,4) less.prems(2) off by (simp add: pwrite_def)
      then show ?thesis using less.hyps[of "off + m"] m off less.prems(2) assms(1)
        by (subst read_file_loop.simps) (simp add: Let_def)
    qed
  qed
  then show ?thesis by (simp add: read_file_io_uring_def)
qed

text \<open>
  Reading and writing a file through 64 KB submissions is exact and ends.  Whatever short
  counts the kernel reports, as long as every completion moves at least one byte, the write loop
  ends with exactly the data in the (truncated) file, and the read loop ends with exactly the
  content; but if the file became shorter after its length was taken, so that reads report its
  end, the read loop never ends.
\<close>

theorem file_loops_exact:
  assumes "progress k" "short < file_len" "\<forall>n. stuck short n = 0"
    "\<forall>off n. off < short \<longrightarrow> 0 < n \<longrightarrow> stuck off n = int (min n (short - off))" "length content = short"
  shows "write_file_io_uring Opened k dat = Some (None, Some dat) \<and>
    read_file_io_uring k (Some (length dat, dat)) = Some (Inr dat) \<and>
    read_file_io_uring stuck (Some (file_len, content)) = None"
proof -
  have "write_file_loop k dat 0 [] = Some (None, dat)" using write_file_loop_ok[OF assms(1), of 0 dat] by simp
  moreover have "read_file_loop k dat 0 (replicate (length dat) 0) = Some (Inr dat)"
    using assms(1) by (intro read_file_loop_ok) simp_all
  moreover have "read_file_io_uring stuck (Some (file_len, content)) = None"
    using read_file_shrunk[OF assms(2,3,4,5)] .
  ultimately show ?thesis by (simp add: write_file_io_uring_def read_file_io_uring_def)
qed

theorem file_loops_exact_witness:
  "write_file_io_uring Opened (\<lambda>_ n. int ((n + 1) div 2)) [1, 2, 3] = Some (None, Some [1, 2, 3]) \<and>
   read_file_io_uring (\<lambda>off n. if off < 2 then int (min n (2 - off)) else 0) (Some (3, [7, 8])) = None"
proof -
  have "progress (\<lambda>_ n. int ((n + 1) div 2))" by (auto simp: progress_def)
  from file_loops_exact[OF this, of 2 3 "\<lambda>off n. if off < 2 then int (min n (2 - off)) else 0" "[7, 8]" "[1, 2, 3]"]
  show ?thesis by simp
qed

text \<open>The writer thread stores what was submitted, in order.\<close>

lemma write_thread_ok:
  assumes "\<forall>p. opening p = Opened" "\<forall>p. progress (k p)"
  shows "io_uring_write_loop opening k (map Some ws @ [None]) disk =
    Some (map (\<lambda>(p, b). Completed p True) ws, fold (\<lambda>(p, b) d. d(p \<mapsto> b)) ws disk)"
proof (induction ws arbitrary: disk)
  case (Cons w ws)
  obtain p b where w: "w = (p, b)" by fastforce
  have "write_file_loop (k p) b 0 [] = Some (None, b)"
    using write_file_loop_ok[of "k p" 0 b] assms(2) by simp
  then have "write_file_io_uring (opening p) (k p) b = Some (None, Some b)"
    using assms(1) by (simp add: write_file_io_uring_def)
  then show ?case using Cons.IH by (simp add: w fun_upd_def)
qed simp

lemma splice_drain_ok:
  assumes "progress push"
  shows "splice_drain push n d = Some (Inr (d + n))"
proof (induction n arbitrary: d rule: less_induct)
  case (less n)
  show ?case
  proof (cases "0 < n")
    case True
    then obtain m where m: "push d n = int m" "0 < m" "m \<le> n" using progressD[OF assms] by blast
    then show ?thesis using True less.IH[of "n - m" "d + m"]
      by (subst splice_drain.simps) (simp add: usize_sub_def)
  qed (simp add: splice_drain.simps)
qed

text \<open>
  The splice loop moves everything up to the end of the source.  When the destination always
  takes bytes and the source delivers its \<open>avail\<close> bytes in pieces and then reports its end,
  \<open>splice_copy\<close> ends and reports exactly the bytes available, at most \<open>len\<close>; the \<open>usize\<close>
  counters never wrap, since no call moves more than was asked.
\<close>

theorem splice_copy_moves_available:
  assumes "progress push" "\<forall>d n. 0 < n \<longrightarrow> (if d < avail then 0 < pull d n \<and> pull d n \<le> int (min n (avail - d)) else pull d n = 0)"
  shows "splice_copy True pull push len = Some (Inr (min len avail))"
proof -
  have "splice_loop pull push r d = Some (Inr (min (d + r) avail))" if "d \<le> avail" for r d
    using that
  proof (induction r arbitrary: d rule: less_induct)
    case (less r)
    show ?case
    proof (cases "0 < r \<and> d < avail")
      case True
      then have "0 < pull d r" "pull d r \<le> int (min r (avail - d))" using assms(2) by auto
      then obtain m where m: "pull d r = int m" "0 < m" "m \<le> r" "d + m \<le> avail"
        using True by (metis less_diff_conv2 less_imp_le min.bounded_iff nat_less_le of_nat_0_less_iff of_nat_le_iff
            pos_int_cases le_diff_conv2 add.commute)
      have "splice_loop pull push (r - m) (d + m) = Some (Inr (min (d + m + (r - m)) avail))"
        using m less.IH[of "r - m" "d + m"] by simp
      then show ?thesis using True m splice_drain_ok[OF assms(1), of m d]
        by (subst splice_loop.simps) (simp add: usize_sub_def)
    next
      case False
      then show ?thesis using assms(2) less.prems by (subst splice_loop.simps) auto
    qed
  qed
  from this[of 0 len] show ?thesis by (simp add: splice_copy_def)
qed

theorem splice_copy_moves_available_witness:
  "splice_copy True (\<lambda>d n. if d < 5 then 1 else 0) (\<lambda>_ n. int n) 100 = Some (Inr 5)"
proof -
  have "progress (\<lambda>_ n. int n)" by (simp add: progress_def)
  then have "splice_copy True (\<lambda>d n. if d < 5 then 1 else 0) (\<lambda>_ n. int n) 100 = Some (Inr (min 100 5))"
    by (rule splice_copy_moves_available) auto
  then show ?thesis by simp
qed

end
