(* ===== verification/Channels.thy ===== *)
theory Channels
  imports Prelude
begin

text \<open>
  How the storage engine talks to its background threads.  \<^verbatim>\<open>reader.rs\<close> and \<^verbatim>\<open>writer.rs\<close>
  each connect a task to a worker thread by two bounded channels, one for requests and one for
  results, whose \<open>send\<close> blocks while the channel is full and whose \<open>recv\<close> blocks while it is
  empty.  The two protocols are step relations on the contents of the channels; the theory
  shows which of them can block forever.  A file operation of a thread is one step with a result: it
  is assumed to return (the loops over the ring need not, see \<open>Platforms\<close>), and a thread to live until it
  is told to end.
\<close>

section \<open>Machines that run to completion\<close>

text \<open>
  The interface between a protocol and the question whether it blocks: an invariant, a measure
  that every step decreases, and a step in every state that is not final.
\<close>

locale completing =
  fixes step :: "'s \<Rightarrow> 's \<Rightarrow> bool" and inv :: "'s \<Rightarrow> bool" and mea :: "'s \<Rightarrow> nat" and final :: "'s \<Rightarrow> bool"
  assumes inv_step: "inv s \<Longrightarrow> step s s' \<Longrightarrow> inv s'"
    and mea_step: "inv s \<Longrightarrow> step s s' \<Longrightarrow> mea s' < mea s"
    and progress: "inv s \<Longrightarrow> \<not> final s \<Longrightarrow> \<exists>s'. step s s'"
begin

lemma inv_steps: "step\<^sup>*\<^sup>* s s' \<Longrightarrow> inv s \<Longrightarrow> inv s'"
  by (induction rule: rtranclp_induct) (auto intro: inv_step)

lemma run_length: "(step ^^ n) s s' \<Longrightarrow> inv s \<Longrightarrow> n + mea s' \<le> mea s"
proof (induction n arbitrary: s')
  case (Suc n)
  then obtain t where t: "(step ^^ n) s t" "step t s'" by auto
  then have "inv t" using inv_steps[of s t] Suc.prems(2) relpowp_imp_rtranclp by metis
  then show ?case using Suc.IH[OF t(1) Suc.prems(2)] mea_step[OF _ t(2)] by simp
qed simp

lemma stuck_final: "step\<^sup>*\<^sup>* s s' \<Longrightarrow> inv s \<Longrightarrow> (\<nexists>t. step s' t) \<Longrightarrow> final s'"
  using inv_steps progress by blast

lemma completes: "inv s \<Longrightarrow> \<exists>s'. step\<^sup>*\<^sup>* s s' \<and> final s'"
proof (induction "mea s" arbitrary: s rule: less_induct)
  case less
  show ?case
  proof (cases "final s")
    case False
    then obtain t where t: "step s t" using progress less.prems by blast
    then obtain s' where "step\<^sup>*\<^sup>* t s'" "final s'"
      using less.hyps[OF mea_step[OF less.prems t] inv_step[OF less.prems t]] by blast
    then show ?thesis using t converse_rtranclp_into_rtranclp by metis
  qed blast
qed

end

section \<open>The worker thread\<close>

text \<open>The requests queued, the result in the thread's hands, the results queued.\<close>

record ('a, 'b) worker =
  req_chan :: "'a list"
  in_hand :: "'b option"
  res_chan :: "'b list"

text \<open>Take a request and work on it; put the result into its channel.\<close>

inductive worker_step :: "nat \<Rightarrow> ('a \<Rightarrow> 'b) \<Rightarrow> ('a, 'b) worker \<Rightarrow> ('a, 'b) worker \<Rightarrow> bool" for cap work where
  take: "worker_step cap work \<lparr>req_chan = r # rs, in_hand = None, res_chan = vs\<rparr>
           \<lparr>req_chan = rs, in_hand = Some (work r), res_chan = vs\<rparr>"
| put: "length vs < cap \<Longrightarrow> worker_step cap work \<lparr>req_chan = rs, in_hand = Some v, res_chan = vs\<rparr>
           \<lparr>req_chan = rs, in_hand = None, res_chan = vs @ [v]\<rparr>"

inductive_cases worker_stepE: "worker_step cap work w w'"

definition pending :: "('a \<Rightarrow> 'b) \<Rightarrow> ('a, 'b) worker \<Rightarrow> 'b list" where
  "pending work w = res_chan w @ (case in_hand w of None \<Rightarrow> [] | Some v \<Rightarrow> [v]) @ map work (req_chan w)"

definition weight :: "('a, 'b) worker \<Rightarrow> nat" where
  "weight w = 3 * length (req_chan w) + (case in_hand w of None \<Rightarrow> 0 | Some _ \<Rightarrow> 2) + length (res_chan w)"

lemma worker_step_facts:
  assumes "worker_step cap work w w'"
  shows "pending work w' = pending work w" "weight w' < weight w"
    "length (req_chan w') \<le> length (req_chan w)"
    "length (res_chan w) \<le> cap \<Longrightarrow> length (res_chan w') \<le> cap"
  using assms by (auto elim!: worker_stepE simp: pending_def weight_def)

text \<open>The thread can move unless it has nothing to do or its results are not collected.\<close>

lemma worker_idle:
  assumes "\<nexists>w'. worker_step cap work w w'"
  shows "in_hand w = None \<and> req_chan w = [] \<or> in_hand w \<noteq> None \<and> cap \<le> length (res_chan w)"
proof (cases w)
  case (fields rs h vs)
  show ?thesis
  proof (cases h)
    case None
    then have "rs = []" using assms fields worker_step.take[of cap work] by (cases rs) auto
    then show ?thesis using None fields by simp
  next
    case (Some v)
    then have "\<not> length vs < cap" using assms fields worker_step.put[of vs cap work rs v] by auto
    then show ?thesis using Some fields by simp
  qed
qed

section \<open>Submit everything, then collect: the reader\<close>

text \<open>
  \<open>stream_directory\<close> sends all its requests before it receives the first result; it wants as
  many results as it had requests, and returns at the first result that is an error (one that is
  not \<open>ok\<close>).  The thread goes on without it.
\<close>

record ('a, 'b) reader_sys =
  to_submit :: "'a list"
  rd_worker :: "('a, 'b) worker"
  collected :: "'b list"
  rd_error :: "'b option"

definition reader_init :: "'a list \<Rightarrow> ('a, 'b) reader_sys" where
  "reader_init xs = \<lparr>to_submit = xs, rd_worker = \<lparr>req_chan = [], in_hand = None, res_chan = []\<rparr>,
     collected = [], rd_error = None\<rparr>"

inductive reader_step ::
  "('b \<Rightarrow> bool) \<Rightarrow> nat \<Rightarrow> ('a \<Rightarrow> 'b) \<Rightarrow> ('a, 'b) reader_sys \<Rightarrow> ('a, 'b) reader_sys \<Rightarrow> bool" for ok cap work where
  submit: "to_submit s = x # xs \<Longrightarrow> length (req_chan (rd_worker s)) < cap \<Longrightarrow>
     reader_step ok cap work s (s\<lparr>to_submit := xs, rd_worker := (rd_worker s)\<lparr>req_chan := req_chan (rd_worker s) @ [x]\<rparr>\<rparr>)"
| collect: "to_submit s = [] \<Longrightarrow> rd_error s = None \<Longrightarrow> res_chan (rd_worker s) = v # vs \<Longrightarrow> ok v \<Longrightarrow>
     reader_step ok cap work s (s\<lparr>rd_worker := (rd_worker s)\<lparr>res_chan := vs\<rparr>, collected := collected s @ [v]\<rparr>)"
| give_up: "to_submit s = [] \<Longrightarrow> rd_error s = None \<Longrightarrow> res_chan (rd_worker s) = v # vs \<Longrightarrow> \<not> ok v \<Longrightarrow>
     reader_step ok cap work s (s\<lparr>rd_worker := (rd_worker s)\<lparr>res_chan := vs\<rparr>, rd_error := Some v\<rparr>)"
| work: "worker_step cap work (rd_worker s) w \<Longrightarrow> reader_step ok cap work s (s\<lparr>rd_worker := w\<rparr>)"

inductive_cases reader_stepE: "reader_step ok cap work s s'"

definition reader_done :: "nat \<Rightarrow> ('a, 'b) reader_sys \<Rightarrow> bool" where
  "reader_done n s \<longleftrightarrow> to_submit s = [] \<and> (rd_error s \<noteq> None \<or> length (collected s) = n)"

text \<open>Nothing is lost or reordered; the channels keep their bounds; and everything can have been
  submitted only if it fits into the two channels and the thread's hands.\<close>

definition reader_inv :: "('b \<Rightarrow> bool) \<Rightarrow> nat \<Rightarrow> ('a \<Rightarrow> 'b) \<Rightarrow> 'a list \<Rightarrow> ('a, 'b) reader_sys \<Rightarrow> bool" where
  "reader_inv ok cap work xs s \<longleftrightarrow>
     (collected s @ (case rd_error s of None \<Rightarrow> [] | Some v \<Rightarrow> [v])) @ pending work (rd_worker s) @ map work (to_submit s) =
       map work xs \<and>
     (\<forall>v\<in>set (collected s). ok v) \<and> (\<forall>v. rd_error s = Some v \<longrightarrow> \<not> ok v) \<and>
     length (req_chan (rd_worker s)) \<le> cap \<and> length (res_chan (rd_worker s)) \<le> cap \<and>
     (to_submit s \<noteq> [] \<longrightarrow> collected s = [] \<and> rd_error s = None) \<and>
     (to_submit s = [] \<longrightarrow> length xs \<le> 2 * cap + 1)"

lemma length_pending:
  "length (pending work w) = length (res_chan w) + (if in_hand w = None then 0 else 1) + length (req_chan w)"
  by (auto simp: pending_def split: option.splits)

lemma reader_inv_init: "0 < length xs \<or> 0 < cap \<Longrightarrow> reader_inv ok cap work xs (reader_init xs)"
  by (auto simp: reader_inv_def reader_init_def pending_def)

lemma reader_inv_step:
  assumes "reader_inv ok cap work xs s" "reader_step ok cap work s s'"
  shows "reader_inv ok cap work xs s'"
  using assms(2)
proof (cases rule: reader_step.cases)
  case (submit x ts)
  let ?w = "(rd_worker s)\<lparr>req_chan := req_chan (rd_worker s) @ [x]\<rparr>"
  have none: "collected s = []" "rd_error s = None"
    and all: "pending work (rd_worker s) @ work x # map work ts = map work xs"
    using assms(1) submit(2) by (auto simp: reader_inv_def)
  have "pending work ?w @ map work ts = map work xs" using all by (simp add: pending_def)
  moreover have "length xs \<le> 2 * cap + 1" if "ts = []"
  proof -
    have "length xs = length (pending work ?w)" using calculation that by (metis append_Nil2 length_map list.simps(8))
    also have "\<dots> \<le> cap + 1 + cap"
      using assms(1) submit(3) unfolding length_pending by (simp add: reader_inv_def)
    finally show ?thesis by simp
  qed
  ultimately show ?thesis using assms(1) submit none by (auto simp: reader_inv_def)
next
  case (collect v vs)
  then show ?thesis using assms(1) by (auto simp: reader_inv_def pending_def)
next
  case (give_up v vs)
  then show ?thesis using assms(1) by (auto simp: reader_inv_def pending_def)
next
  case (work w)
  then show ?thesis using assms(1) worker_step_facts[OF work(2)] by (auto simp: reader_inv_def)
qed

definition reader_mea :: "('a, 'b) reader_sys \<Rightarrow> nat" where
  "reader_mea s = 4 * length (to_submit s) + weight (rd_worker s)"

lemma reader_mea_step: "reader_step ok cap work s s' \<Longrightarrow> reader_mea s' < reader_mea s"
  by (erule reader_stepE) (auto simp: reader_mea_def weight_def dest: worker_step_facts(2))

lemma reader_progress:
  assumes "reader_inv ok cap work xs s" "length xs \<le> 2 * cap + 1" "0 < cap" "\<not> reader_done (length xs) s"
  shows "\<exists>s'. reader_step ok cap work s s'"
proof (rule ccontr)
  assume stuck: "\<not> ?thesis"
  then have "\<nexists>w'. worker_step cap work (rd_worker s) w'" using reader_step.work by blast
  note idle = worker_idle[OF this]
  have err: "rd_error s = None" using assms(1,4) by (auto simp: reader_inv_def reader_done_def)
  then have eq: "collected s @ pending work (rd_worker s) @ map work (to_submit s) = map work xs"
    using assms(1) by (simp add: reader_inv_def)
  have len: "length (collected s) + length (pending work (rd_worker s)) + length (to_submit s) = length xs"
    using arg_cong[OF eq, of length] by simp
  show False
  proof (cases "to_submit s")
    case Nil
    then have "res_chan (rd_worker s) = []"
      using stuck reader_step.collect[OF Nil err] reader_step.give_up[OF Nil err] by (metis list.exhaust)
    then have "pending work (rd_worker s) = []" using idle assms(3) by (auto simp: pending_def)
    then show False using len Nil assms(4) by (simp add: reader_done_def)
  next
    case (Cons x ts)
    then have full: "cap \<le> length (req_chan (rd_worker s))" using stuck reader_step.submit by (meson not_less)
    then have "in_hand (rd_worker s) \<noteq> None" "cap \<le> length (res_chan (rd_worker s))" using idle assms(3) by auto
    then have "2 * cap + 1 \<le> length (pending work (rd_worker s))" using full unfolding length_pending by auto
    then show False using len assms(2) Cons by simp
  qed
qed

interpretation rd: completing "reader_step ok cap work"
  "\<lambda>s. reader_inv ok cap work xs s \<and> length xs \<le> 2 * cap + 1 \<and> 0 < cap" reader_mea "reader_done (length xs)"
  for ok cap work xs
  by unfold_locales (use reader_inv_step reader_mea_step reader_progress in blast)+

text \<open>Without any bound on the requests the machine still cannot run forever: it ends or gets stuck.\<close>

interpretation rd_stuck: completing "reader_step ok cap work" "\<lambda>_. True" reader_mea "\<lambda>s. \<nexists>s'. reader_step ok cap work s s'"
  for ok cap work
  by unfold_locales (use reader_mea_step in blast)+

lemma reader_inv_reachable:
  assumes "(reader_step ok cap work)\<^sup>*\<^sup>* (reader_init xs) s" "0 < cap"
  shows "reader_inv ok cap work xs s"
  using assms(1)
proof (induction rule: rtranclp_induct)
  case base
  show ?case using assms(2) by (intro reader_inv_init) simp
qed (rule reader_inv_step)

text \<open>What the task has when it returns: the results up to the first error, and that error.\<close>

lemma reader_returns:
  assumes "reader_inv ok cap work xs s" "reader_done (length xs) s"
  shows "collected s = takeWhile ok (map work xs) \<and> rd_error s = List.find (\<lambda>v. \<not> ok v) (map work xs)"
proof (cases "rd_error s")
  case None
  then have "collected s @ pending work (rd_worker s) = map work xs" "length (collected s) = length xs"
    using assms by (auto simp: reader_inv_def reader_done_def)
  then have "collected s = map work xs" by (metis append_eq_conv_conj length_map take_all_iff order_refl)
  moreover from this have ok: "\<forall>v\<in>set (map work xs). ok v" using assms(1) by (auto simp: reader_inv_def)
  have "takeWhile ok (map work xs) = map work xs" using ok by (simp add: takeWhile_eq_all_conv)
  moreover have "List.find (\<lambda>v. \<not> ok v) (map work xs) = None" using ok by (simp add: find_None_iff)
  ultimately show ?thesis using None by metis
next
  case (Some v)
  then have xs: "map work xs = collected s @ v # pending work (rd_worker s)"
    and ok: "\<forall>v\<in>set (collected s). ok v" "\<not> ok v"
    using assms by (auto simp: reader_inv_def reader_done_def)
  have "List.find (\<lambda>v. \<not> ok v) (ys @ v # zs) = Some v" if "\<forall>y\<in>set ys. ok y" for ys zs
    using that ok(2) by (induction ys) auto
  then show ?thesis using Some ok unfolding xs by (simp add: takeWhile_tail)
qed

section \<open>The depth of the reader's channels\<close>

definition QUEUE_DEPTH :: nat where
  "QUEUE_DEPTH = 256"

text \<open>Both channels are created with room for \<open>QUEUE_DEPTH * 2\<close> elements.\<close>

definition reader_capacity :: nat where
  "reader_capacity = QUEUE_DEPTH * 2"

text \<open>Whether \<open>stream_directory\<close> gets past its submission loop with \<open>n\<close> files.\<close>

definition all_submitted :: "nat \<Rightarrow> bool" where
  "all_submitted n \<longleftrightarrow> n \<le> reader_capacity + 1 + reader_capacity"

text \<open>
  C12: a directory of more than 1025 files hangs the sender.  The reader submits all its
  requests before it takes the first result, while the thread stops when 512 results lie
  uncollected.  With up to 1025 files every run of task and thread ends, whatever the
  interleaving, after at most four steps per file, and the task then has the results in the order of
  the requests: all of them when every read succeeds, and otherwise those before the first
  failed read, with whose error it returns.  With more, no run ever gets all requests submitted:
  each one reaches, after finitely many steps, a state in which task and thread wait for each
  other forever.
\<close>

theorem reader_submission_blocks:
  fixes work :: "'a \<Rightarrow> 'b" and files :: "'a list"
  assumes "run = reader_step ok reader_capacity work"
  shows "(all_submitted (length files) \<longrightarrow>
      (\<forall>n s. (run ^^ n) (reader_init files) s \<longrightarrow> n \<le> 4 * length files) \<and>
      (\<forall>s. run\<^sup>*\<^sup>* (reader_init files) s \<and> (\<nexists>s'. run s s') \<longrightarrow> to_submit s = [] \<and>
        collected s = takeWhile ok (map work files) \<and> rd_error s = List.find (\<lambda>v. \<not> ok v) (map work files) \<and>
        ((\<forall>f\<in>set files. ok (work f)) \<longrightarrow> collected s = map work files))) \<and>
    (\<not> all_submitted (length files) \<longrightarrow>
      (\<forall>s. run\<^sup>*\<^sup>* (reader_init files) s \<longrightarrow> to_submit s \<noteq> [] \<and>
        (\<exists>s'. run\<^sup>*\<^sup>* s s' \<and> (\<nexists>t. run s' t))))"
proof -
  have cap: "0 < reader_capacity" by (simp add: reader_capacity_def QUEUE_DEPTH_def)
  have mea: "reader_mea (reader_init files :: ('a, 'b) reader_sys) = 4 * length files"
    by (simp add: reader_mea_def reader_init_def weight_def)
  note init = reader_inv_init[of files reader_capacity ok work]
  have finished: "to_submit s = [] \<and> collected s = takeWhile ok (map work files) \<and>
      rd_error s = List.find (\<lambda>v. \<not> ok v) (map work files)"
    if small: "all_submitted (length files)" and r: "run\<^sup>*\<^sup>* (reader_init files) s" and stuck: "\<nexists>s'. run s s'" for s
  proof -
    have fin: "reader_done (length files) s"
      by (rule rd.stuck_final[OF r[unfolded assms] _ stuck[unfolded assms]])
        (use init cap small in \<open>auto simp: all_submitted_def\<close>)
    show ?thesis using reader_returns[OF reader_inv_reachable[OF r[unfolded assms] cap] fin] fin
      by (simp add: reader_done_def)
  qed
  have bounded: "n \<le> 4 * length files" if "all_submitted (length files)" "(run ^^ n) (reader_init files) s" for n s
    using rd_stuck.run_length[OF that(2)[unfolded assms]] mea by simp
  have waiting: "to_submit s \<noteq> []" if "\<not> all_submitted (length files)" "run\<^sup>*\<^sup>* (reader_init files) s" for s
    using reader_inv_reachable[OF that(2)[unfolded assms] cap] that(1) by (auto simp: reader_inv_def all_submitted_def)
  have "\<exists>s'. run\<^sup>*\<^sup>* s s' \<and> (\<nexists>t. run s' t)" for s using rd_stuck.completes assms by blast
  moreover have "takeWhile ok (map work files) = map work files" if "\<forall>f\<in>set files. ok (work f)"
    using that by (simp add: takeWhile_eq_all_conv)
  ultimately show ?thesis using finished bounded waiting by metis
qed

theorem reader_submission_blocks_witness:
  "(\<exists>s. (reader_step (\<lambda>v. v < 4) reader_capacity Suc)\<^sup>*\<^sup>* (reader_init [1, 2]) s \<and> collected s = [2, 3]) \<and>
   (\<exists>s. (reader_step (\<lambda>v. v < 4) reader_capacity Suc)\<^sup>*\<^sup>* (reader_init [1, 3, 2]) s \<and> collected s = [2] \<and> rd_error s = Some 4) \<and>
   (\<exists>s. (reader_step (\<lambda>v. v < 4) reader_capacity Suc)\<^sup>*\<^sup>* (reader_init (replicate 1026 0)) s \<and>
      (\<nexists>s'. reader_step (\<lambda>v. v < 4) reader_capacity Suc s s') \<and> to_submit s \<noteq> [])"
proof -
  let ?run = "reader_step (\<lambda>v. v < 4) reader_capacity Suc"
  have "all_submitted (length [1 :: nat, 2])" "all_submitted (length [1 :: nat, 3, 2])"
    "\<not> all_submitted (length (replicate 1026 (0 :: nat)))"
    by (simp_all add: all_submitted_def reader_capacity_def QUEUE_DEPTH_def)
  moreover obtain s where "?run\<^sup>*\<^sup>* (reader_init [1, 2]) s" "\<nexists>s'. ?run s s'" using rd_stuck.completes by blast
  moreover obtain e where "?run\<^sup>*\<^sup>* (reader_init [1, 3, 2]) e" "\<nexists>s'. ?run e s'" using rd_stuck.completes by blast
  moreover obtain d where "?run\<^sup>*\<^sup>* (reader_init (replicate 1026 0)) d" "\<nexists>s'. ?run d s'" using rd_stuck.completes by blast
  ultimately show ?thesis using reader_submission_blocks[OF refl, where work = Suc and files = "[1, 2]"]
    reader_submission_blocks[OF refl, where work = Suc and files = "[1, 3, 2]" and ok = "\<lambda>v. v < 4"]
    reader_submission_blocks[OF refl, where work = Suc and files = "replicate 1026 0"] by auto
qed

section \<open>Submit one, then reap: the writer\<close>

text \<open>
  \<open>receive_and_write\<close> goes through the entries of the blocks; an entry completes a file and
  submits a write, or it does not (a part of a split file), or the next block does not unpack.  After
  each entry it takes results without blocking until there is none or nothing is in flight; at the
  end it waits for the rest.  It returns with an error at a block that does not unpack, at a
  directory that cannot be created (\<open>mkdir\<close>), and at the first result that is an error (one that is not \<open>ok\<close>);
  the thread goes on without it.
\<close>

datatype writer_phase = Submitting | Reaping

datatype 'a wr_entry = PartOfFile | CompleteFile 'a | BadBlock

datatype ('a, 'b) wr_failure = NoUnpack | NoDirectory 'a | BadResult 'b

record ('a, 'b) writer_sys =
  entries_left :: "'a wr_entry list"
  wr_phase :: writer_phase
  wr_in_flight :: nat
  wr_worker :: "('a, 'b) worker"
  reaped :: "'b list"
  wr_failed :: "('a, 'b) wr_failure option"

definition writer_init :: "'a wr_entry list \<Rightarrow> ('a, 'b) writer_sys" where
  "writer_init es = \<lparr>entries_left = es, wr_phase = Submitting, wr_in_flight = 0,
     wr_worker = \<lparr>req_chan = [], in_hand = None, res_chan = []\<rparr>, reaped = [], wr_failed = None\<rparr>"

text \<open>The step of a task that takes a result, and returns if it is an error.\<close>

definition take_result :: "('b \<Rightarrow> bool) \<Rightarrow> nat \<Rightarrow> 'b \<Rightarrow> 'b list \<Rightarrow> ('a, 'b) writer_sys \<Rightarrow> ('a, 'b) writer_sys" where
  "take_result ok n v vs s =
     (let s' = s\<lparr>wr_worker := (wr_worker s)\<lparr>res_chan := vs\<rparr>\<rparr>
      in if ok v then s'\<lparr>wr_in_flight := n, reaped := reaped s @ [v]\<rparr>
         else s'\<lparr>wr_failed := Some (BadResult v)\<rparr>)"

inductive writer_step ::
  "('b \<Rightarrow> bool) \<Rightarrow> ('a \<Rightarrow> bool) \<Rightarrow> nat \<Rightarrow> ('a \<Rightarrow> 'b) \<Rightarrow> ('a, 'b) writer_sys \<Rightarrow> ('a, 'b) writer_sys \<Rightarrow> bool"
  for ok mkdir cap work where
  submit: "wr_failed s = None \<Longrightarrow> wr_phase s = Submitting \<Longrightarrow> entries_left s = CompleteFile x # es \<Longrightarrow> mkdir x \<Longrightarrow>
     length (req_chan (wr_worker s)) < cap \<Longrightarrow>
     writer_step ok mkdir cap work s (s\<lparr>entries_left := es, wr_phase := Reaping, wr_in_flight := Suc (wr_in_flight s),
       wr_worker := (wr_worker s)\<lparr>req_chan := req_chan (wr_worker s) @ [x]\<rparr>\<rparr>)"
| no_directory: "wr_failed s = None \<Longrightarrow> wr_phase s = Submitting \<Longrightarrow> entries_left s = CompleteFile x # es \<Longrightarrow> \<not> mkdir x \<Longrightarrow>
     writer_step ok mkdir cap work s (s\<lparr>wr_failed := Some (NoDirectory x)\<rparr>)"
| no_unpack: "wr_failed s = None \<Longrightarrow> wr_phase s = Submitting \<Longrightarrow> entries_left s = BadBlock # es \<Longrightarrow>
     writer_step ok mkdir cap work s (s\<lparr>wr_failed := Some NoUnpack\<rparr>)"
| keep: "wr_failed s = None \<Longrightarrow> wr_phase s = Submitting \<Longrightarrow> entries_left s = PartOfFile # es \<Longrightarrow>
     writer_step ok mkdir cap work s (s\<lparr>entries_left := es, wr_phase := Reaping\<rparr>)"
| reap: "wr_failed s = None \<Longrightarrow> wr_phase s = Reaping \<Longrightarrow> wr_in_flight s = Suc n \<Longrightarrow> res_chan (wr_worker s) = v # vs \<Longrightarrow>
     writer_step ok mkdir cap work s (take_result ok n v vs s)"
| next_entry: "wr_failed s = None \<Longrightarrow> wr_phase s = Reaping \<Longrightarrow> wr_in_flight s = 0 \<or> res_chan (wr_worker s) = [] \<Longrightarrow>
     writer_step ok mkdir cap work s (s\<lparr>wr_phase := Submitting\<rparr>)"
| drain: "wr_failed s = None \<Longrightarrow> wr_phase s = Submitting \<Longrightarrow> entries_left s = [] \<Longrightarrow> wr_in_flight s = Suc n \<Longrightarrow>
     res_chan (wr_worker s) = v # vs \<Longrightarrow> writer_step ok mkdir cap work s (take_result ok n v vs s)"
| work: "worker_step cap work (wr_worker s) w \<Longrightarrow> writer_step ok mkdir cap work s (s\<lparr>wr_worker := w\<rparr>)"

definition writer_done :: "('a, 'b) writer_sys \<Rightarrow> bool" where
  "writer_done s \<longleftrightarrow> wr_failed s \<noteq> None \<or> entries_left s = [] \<and> wr_phase s = Submitting \<and> wr_in_flight s = 0"

fun write_of :: "'a wr_entry \<Rightarrow> 'a option" where
  "write_of (CompleteFile x) = Some x"
| "write_of _ = None"

definition submitted :: "'a wr_entry list \<Rightarrow> 'a list" where
  "submitted es = List.map_filter write_of es"

lemma submitted_simps [simp]:
  "submitted [] = []" "submitted (CompleteFile x # es) = x # submitted es" "submitted (PartOfFile # es) = submitted es"
  "submitted (BadBlock # es) = submitted es" "submitted (es @ es') = submitted es @ submitted es'"
  by (simp_all add: submitted_def List.map_filter_def)

definition fine :: "('a \<Rightarrow> bool) \<Rightarrow> 'a wr_entry list \<Rightarrow> bool" where
  "fine mkdir es \<longleftrightarrow> BadBlock \<notin> set es \<and> (\<forall>x\<in>set (submitted es). mkdir x)"

lemma fine_simps [simp]:
  "fine mkdir []" "fine mkdir (es @ es') \<longleftrightarrow> fine mkdir es \<and> fine mkdir es'"
  "fine mkdir (CompleteFile x # es) \<longleftrightarrow> mkdir x \<and> fine mkdir es" "fine mkdir (PartOfFile # es) \<longleftrightarrow> fine mkdir es"
  "\<not> fine mkdir (BadBlock # es)"
  by (auto simp: fine_def)

text \<open>The errors the task can have returned with, and the result it had taken last.\<close>

fun failure_ok :: "('b \<Rightarrow> bool) \<Rightarrow> ('a \<Rightarrow> bool) \<Rightarrow> 'a wr_entry list \<Rightarrow> ('a, 'b) wr_failure option \<Rightarrow> bool" where
  "failure_ok ok mkdir es None \<longleftrightarrow> True"
| "failure_ok ok mkdir es (Some (BadResult v)) \<longleftrightarrow> \<not> ok v"
| "failure_ok ok mkdir es (Some f) \<longleftrightarrow> \<not> fine mkdir es"

fun bad_result :: "('a, 'b) wr_failure option \<Rightarrow> 'b list" where
  "bad_result (Some (BadResult v)) = [v]"
| "bad_result _ = []"

text \<open>What is in flight is what the channels and the thread hold, and between two entries that is
  at most a full request channel and what the thread has in hand.\<close>

definition writer_inv :: "('b \<Rightarrow> bool) \<Rightarrow> ('a \<Rightarrow> bool) \<Rightarrow> nat \<Rightarrow> ('a \<Rightarrow> 'b) \<Rightarrow> 'a wr_entry list \<Rightarrow> ('a, 'b) writer_sys \<Rightarrow> bool" where
  "writer_inv ok mkdir cap work es s \<longleftrightarrow>
     (\<exists>past. es = past @ entries_left s \<and> fine mkdir past \<and>
        reaped s @ bad_result (wr_failed s) @ pending work (wr_worker s) = map work (submitted past)) \<and>
     (\<forall>v\<in>set (reaped s). ok v) \<and> failure_ok ok mkdir (entries_left s) (wr_failed s) \<and>
     wr_in_flight s = length (bad_result (wr_failed s)) + length (pending work (wr_worker s)) \<and>
     length (req_chan (wr_worker s)) \<le> cap \<and>
     (wr_phase s = Submitting \<longrightarrow> wr_in_flight s \<le> cap + 1)"

lemma writer_inv_init: "writer_inv ok mkdir cap work es (writer_init es)"
  by (simp add: writer_inv_def writer_init_def pending_def)

lemma take_result_inv:
  assumes "writer_inv ok mkdir cap work es s" "wr_failed s = None" "wr_in_flight s = Suc n" "res_chan (wr_worker s) = v # vs"
  shows "writer_inv ok mkdir cap work es (take_result ok n v vs s)"
  using assms by (auto simp: writer_inv_def take_result_def pending_def Let_def)

lemma writer_inv_step:
  assumes "writer_inv ok mkdir cap work es s" "writer_step ok mkdir cap work s s'"
  shows "writer_inv ok mkdir cap work es s'"
  using assms(2)
proof (cases rule: writer_step.cases)
  case (submit x ts)
  obtain past where "es = past @ entries_left s" "fine mkdir past" "reaped s @ pending work (wr_worker s) = map work (submitted past)"
    using assms(1) submit(2) by (auto simp: writer_inv_def)
  then have "es = (past @ [CompleteFile x]) @ ts" "fine mkdir (past @ [CompleteFile x])"
    "reaped s @ pending work ((wr_worker s)\<lparr>req_chan := req_chan (wr_worker s) @ [x]\<rparr>) = map work (submitted (past @ [CompleteFile x]))"
    using submit(4,5) by (simp_all add: pending_def)
  then show ?thesis using assms(1) submit unfolding writer_inv_def length_pending
    by (intro conjI exI[of _ "past @ [CompleteFile x]"]) simp_all
next
  case (keep ts)
  obtain past where "es = past @ entries_left s" "fine mkdir past" "reaped s @ pending work (wr_worker s) = map work (submitted past)"
    using assms(1) keep(2) by (auto simp: writer_inv_def)
  then have "es = (past @ [PartOfFile]) @ ts" "fine mkdir (past @ [PartOfFile])"
    "reaped s @ pending work (wr_worker s) = map work (submitted (past @ [PartOfFile]))"
    using keep(4) by simp_all
  then show ?thesis using assms(1) keep unfolding writer_inv_def
    by (intro conjI exI[of _ "past @ [PartOfFile]"]) simp_all
next
  case next_entry
  have "wr_in_flight s \<le> cap + 1"
    using assms(1) next_entry(2,4) unfolding writer_inv_def length_pending by auto
  then show ?thesis using assms(1) next_entry(1) by (simp add: writer_inv_def)
next
  case (work w)
  then show ?thesis using assms(1) worker_step_facts(1,3)[OF work(2)] by (auto simp: writer_inv_def)
next
  case (no_directory x ts)
  then show ?thesis using assms(1) by (auto simp: writer_inv_def)
next
  case (no_unpack ts)
  then show ?thesis using assms(1) by (auto simp: writer_inv_def)
next
  case (reap n v vs)
  then show ?thesis using take_result_inv[OF assms(1)] by blast
next
  case (drain n v vs)
  then show ?thesis using take_result_inv[OF assms(1)] by blast
qed

definition writer_mea :: "('a, 'b) writer_sys \<Rightarrow> nat" where
  "writer_mea s = 6 * length (entries_left s) - (if wr_failed s = None then 0 else 1) + weight (wr_worker s) +
     (if wr_phase s = Reaping then 1 else 0)"

lemma writer_mea_step:
  assumes "writer_step ok mkdir cap work s s'"
  shows "writer_mea s' < writer_mea s"
  using assms
proof (cases rule: writer_step.cases)
  case (work w)
  then show ?thesis using worker_step_facts(2)[OF work(2)] by (simp add: writer_mea_def)
qed (auto simp: writer_mea_def weight_def take_result_def Let_def)

lemma writer_progress:
  assumes "writer_inv ok mkdir cap work es s" "0 < cap" "\<not> writer_done s"
  shows "\<exists>s'. writer_step ok mkdir cap work s s'"
proof (rule ccontr)
  assume stuck: "\<not> ?thesis"
  then have "\<nexists>w'. worker_step cap work (wr_worker s) w'" using writer_step.work by blast
  note idle = worker_idle[OF this]
  have none: "wr_failed s = None" using assms(3) by (auto simp: writer_done_def)
  then have fl: "wr_in_flight s = length (pending work (wr_worker s))" using assms(1) by (simp add: writer_inv_def)
  show False
  proof (cases "wr_phase s")
    case Reaping
    then obtain v vs where v: "res_chan (wr_worker s) = v # vs" "wr_in_flight s \<noteq> 0"
      using stuck writer_step.next_entry[OF none Reaping] by (meson list.exhaust)
    then obtain n where "wr_in_flight s = Suc n" by (metis not0_implies_Suc)
    then show False using stuck writer_step.reap[OF none Reaping _ v(1)] by blast
  next
    case Submitting
    show False
    proof (cases "entries_left s")
      case Nil
      then obtain n where n: "wr_in_flight s = Suc n" using Submitting assms(3) by (metis not0_implies_Suc writer_done_def)
      then have "res_chan (wr_worker s) = []"
        using stuck writer_step.drain[OF none Submitting Nil n] by (metis list.exhaust)
      then show False using idle assms(2) fl n by (auto simp: pending_def)
    next
      case (Cons e ts)
      then obtain x where e: "e = CompleteFile x"
        using stuck writer_step.keep[OF none Submitting] writer_step.no_unpack[OF none Submitting] by (cases e) blast+
      then have "mkdir x" using stuck writer_step.no_directory[OF none Submitting] Cons by blast
      then have full: "cap \<le> length (req_chan (wr_worker s))"
        using stuck writer_step.submit[OF none Submitting] Cons e by (meson not_less)
      then have "in_hand (wr_worker s) \<noteq> None" "cap \<le> length (res_chan (wr_worker s))" using idle assms(2) by auto
      then have "2 * cap + 1 \<le> wr_in_flight s" using full unfolding fl length_pending by auto
      then show False using assms(1,2) Submitting by (simp add: writer_inv_def)
    qed
  qed
qed

interpretation wr: completing "writer_step ok mkdir cap work" "\<lambda>s. writer_inv ok mkdir cap work es s \<and> 0 < cap"
  writer_mea writer_done for ok mkdir cap work es
  by unfold_locales (use writer_inv_step writer_mea_step writer_progress in blast)+

interpretation wr_stuck: completing "writer_step ok mkdir cap work" "\<lambda>_. True" writer_mea
  "\<lambda>s. \<nexists>s'. writer_step ok mkdir cap work s s'" for ok mkdir cap work
  by unfold_locales (use writer_mea_step in blast)+

text \<open>What the task has when it returns, without and with an error.\<close>

lemma writer_returns:
  assumes "writer_inv ok mkdir cap work es s" "writer_done s"
  shows "wr_failed s = None \<Longrightarrow> entries_left s = [] \<and> wr_in_flight s = 0 \<and> reaped s = map work (submitted es)"
    and "wr_failed s = None \<longleftrightarrow> fine mkdir es \<and> (\<forall>x\<in>set (submitted es). ok (work x))"
    and "\<exists>rest. map work (submitted es) = reaped s @ bad_result (wr_failed s) @ rest"
proof -
  obtain past where past: "es = past @ entries_left s" "fine mkdir past"
    "reaped s @ bad_result (wr_failed s) @ pending work (wr_worker s) = map work (submitted past)"
    using assms(1) by (auto simp: writer_inv_def)
  have all: "map work (submitted es) = (reaped s @ bad_result (wr_failed s) @ pending work (wr_worker s)) @ map work (submitted (entries_left s))"
    unfolding past(3) by (simp add: past(1))
  then show "\<exists>rest. map work (submitted es) = reaped s @ bad_result (wr_failed s) @ rest" by simp
  show none: "entries_left s = [] \<and> wr_in_flight s = 0 \<and> reaped s = map work (submitted es)" if "wr_failed s = None"
    using that assms past by (auto simp: writer_done_def writer_inv_def)
  show "wr_failed s = None \<longleftrightarrow> fine mkdir es \<and> (\<forall>x\<in>set (submitted es). ok (work x))"
  proof
    assume f: "wr_failed s = None"
    have "\<forall>v\<in>set (map work (submitted es)). ok v" using none[OF f] assms(1) by (simp add: writer_inv_def)
    then show "fine mkdir es \<and> (\<forall>x\<in>set (submitted es). ok (work x))" using none[OF f] past(1,2) by simp
  next
    assume good: "fine mkdir es \<and> (\<forall>x\<in>set (submitted es). ok (work x))"
    show "wr_failed s = None"
    proof (rule ccontr)
      assume "wr_failed s \<noteq> None"
      then obtain f where f: "wr_failed s = Some f" by blast
      have "failure_ok ok mkdir (entries_left s) (Some f)" using assms(1) f by (simp add: writer_inv_def)
      moreover have "fine mkdir (entries_left s)" using good past(1) fine_simps(2) by metis
      ultimately obtain v where v: "f = BadResult v" "\<not> ok v" by (cases f) auto
      have "v \<in> set (map work (submitted es))" unfolding all f v(1) by simp
      then show False using good v(2) by auto
    qed
  qed
qed

definition WRITE_QUEUE_DEPTH :: nat where
  "WRITE_QUEUE_DEPTH = 128"

definition writer_capacity :: nat where
  "writer_capacity = WRITE_QUEUE_DEPTH * 2"

text \<open>
  C22: the writer never hangs on its channels.  However many files arrive, whole or in parts,
  and however task and thread interleave, every run of the writer ends, after at most six steps
  per entry.  It ends without an error exactly when every block unpacks, every directory can be
  created and every write succeeds, and then the completions of all submitted writes were collected
  in order; with an error, the completions collected are the first ones, all of them successful, and a
  failed write is the one after them.  Because results are reaped after each entry, the request
  channel and the result channel are never full at the same time.
\<close>

theorem writer_never_blocks:
  fixes work :: "'a \<Rightarrow> 'b" and es :: "'a wr_entry list"
  assumes "run = writer_step ok mkdir writer_capacity work"
  shows "(\<forall>n s. (run ^^ n) (writer_init es) s \<longrightarrow> n \<le> 6 * length es) \<and>
    (\<forall>s. run\<^sup>*\<^sup>* (writer_init es) s \<and> (\<nexists>s'. run s s') \<longrightarrow>
      (wr_failed s = None \<longleftrightarrow> BadBlock \<notin> set es \<and> (\<forall>x\<in>set (submitted es). mkdir x \<and> ok (work x))) \<and>
      (wr_failed s = None \<longrightarrow> entries_left s = [] \<and> wr_in_flight s = 0 \<and> reaped s = map work (submitted es)) \<and>
      (\<forall>v\<in>set (reaped s). ok v) \<and>
      (\<exists>rest. map work (submitted es) = reaped s @ bad_result (wr_failed s) @ rest))"
proof -
  have start: "writer_inv ok mkdir writer_capacity work es (writer_init es) \<and> 0 < writer_capacity"
    using writer_inv_init by (simp add: writer_capacity_def WRITE_QUEUE_DEPTH_def)
  have "n \<le> 6 * length es" if "(run ^^ n) (writer_init es) s" for n s
    using wr.run_length[OF that[unfolded assms] start] by (simp add: writer_mea_def writer_init_def weight_def)
  moreover have "(wr_failed s = None \<longleftrightarrow> BadBlock \<notin> set es \<and> (\<forall>x\<in>set (submitted es). mkdir x \<and> ok (work x))) \<and>
      (wr_failed s = None \<longrightarrow> entries_left s = [] \<and> wr_in_flight s = 0 \<and> reaped s = map work (submitted es)) \<and>
      (\<forall>v\<in>set (reaped s). ok v) \<and> (\<exists>rest. map work (submitted es) = reaped s @ bad_result (wr_failed s) @ rest)"
    if r: "run\<^sup>*\<^sup>* (writer_init es) s" and stuck: "\<nexists>s'. run s s'" for s
  proof -
    have fin: "writer_done s" by (rule wr.stuck_final[OF r[unfolded assms] start stuck[unfolded assms]])
    have inv: "writer_inv ok mkdir writer_capacity work es s" using wr.inv_steps[OF r[unfolded assms] start] by blast
    show ?thesis using writer_returns[OF inv fin] inv by (auto simp: fine_def writer_inv_def)
  qed
  ultimately show ?thesis by blast
qed

theorem writer_never_blocks_witness:
  "\<exists>s t. (writer_step (\<lambda>v. v < 9) (\<lambda>_. True) writer_capacity Suc)\<^sup>*\<^sup>* (writer_init [CompleteFile 4, PartOfFile, CompleteFile 6]) s \<and>
     reaped s = [5, 7] \<and> wr_failed s = None \<and>
     (writer_step (\<lambda>v. v < 9) (\<lambda>_. True) writer_capacity Suc)\<^sup>*\<^sup>* (writer_init [CompleteFile 8, CompleteFile 6]) t \<and>
     wr_failed t \<noteq> None"
proof -
  let ?run = "writer_step (\<lambda>v. v < 9) (\<lambda>_. True) writer_capacity Suc"
  obtain s where s: "?run\<^sup>*\<^sup>* (writer_init [CompleteFile 4, PartOfFile, CompleteFile 6]) s" "\<nexists>s'. ?run s s'"
    using wr_stuck.completes by blast
  obtain t where t: "?run\<^sup>*\<^sup>* (writer_init [CompleteFile 8, CompleteFile 6]) t" "\<nexists>s'. ?run t s'"
    using wr_stuck.completes by blast
  note end_s = writer_never_blocks[OF refl, THEN conjunct2, rule_format, OF conjI[OF s]]
  note end_t = writer_never_blocks[OF refl, THEN conjunct2, rule_format, OF conjI[OF t]]
  have ok: "wr_failed s = None" using end_s by simp
  moreover from this have "reaped s = [5, 7]" using end_s by simp
  moreover have "wr_failed t \<noteq> None" using end_t by simp
  ultimately show ?thesis using s(1) t(1) by blast
qed

end
