(* ===== verification/Reader.thy ===== *)
theory Reader
  imports IoEngine Sender Channels
begin

text \<open>
  The sending side of the storage engine (\<^verbatim>\<open>crates/ioengine/src/reader.rs\<close> and the
  coordinator in \<^verbatim>\<open>lib.rs\<close>): the recursive directory walk, the background reader thread,
  the packing of what was read and the commands for the sender task.  A directory is the list of
  its entries in the order \<open>read_dir\<close> yields them.
\<close>

section \<open>The directory walk\<close>

datatype node = RegFile bytes | Directory "(path \<times> node) list" | Unreadable | OtherNode | BadEntry

datatype walk_error = ReadDirFailed path | EntryFailed

text \<open>The entries of one directory; \<open>out\<close> collects the paths of regular files.\<close>

fun collect_recursive :: "path \<Rightarrow> (path \<times> node) list \<Rightarrow> path list \<Rightarrow> walk_error + path list" where
  "collect_recursive dir [] out = Inr out"
| "collect_recursive dir ((name, n) # es) out =
     (let p = join dir name in
      case n of
        RegFile _ \<Rightarrow> collect_recursive dir es (out @ [p])
      | Directory sub \<Rightarrow>
          (case collect_recursive p sub out of
             Inl e \<Rightarrow> Inl e
           | Inr out' \<Rightarrow> collect_recursive dir es out')
      | Unreadable \<Rightarrow> Inl (ReadDirFailed p)
      | OtherNode \<Rightarrow> collect_recursive dir es out
      | BadEntry \<Rightarrow> Inl EntryFailed)"

definition collect_files :: "path \<Rightarrow> node \<Rightarrow> walk_error + path list" where
  "collect_files root_dir n = (case n of Directory es \<Rightarrow> collect_recursive root_dir es [] | _ \<Rightarrow> Inl (ReadDirFailed root_dir))"

section \<open>Reading and packing\<close>

text \<open>\<open>Path::strip_prefix\<close>, on whole components.\<close>

definition strip_prefix :: "path \<Rightarrow> path \<Rightarrow> path option" where
  "strip_prefix base p =
     (let r = drop (length base) p in
      if take (length base) p = base \<and> (base = [] \<or> last base = 47 \<or> r = [] \<or> hd r = 47)
      then Some (dropWhile (\<lambda>c. c = 47) r) else None)"

text \<open>\<open>Path::file_name\<close>: the last component.\<close>

definition file_name :: "path \<Rightarrow> path option" where
  "file_name p = (let q = rev (takeWhile (\<lambda>c. c \<noteq> 47) (dropWhile (\<lambda>c. c = 47) (rev p)))
                  in if q = [] \<or> q = [46, 46] then None else Some q)"

datatype read_request = ReadFile path | ReaderShutdown

datatype stream_error = WalkFailed walk_error | ReadFailed path io_error | ChannelClosed

text \<open>The background reader thread: the requests in order; \<open>None\<close> when a read never ends.\<close>

fun io_uring_read_loop ::
  "(path \<Rightarrow> nat \<Rightarrow> nat \<Rightarrow> int) \<Rightarrow> (path \<rightharpoonup> nat \<times> bytes) \<Rightarrow> read_request list \<Rightarrow> (path \<times> (io_error + bytes)) list option" where
  "io_uring_read_loop k fs [] = Some []"
| "io_uring_read_loop k fs (ReaderShutdown # rs) = Some []"
| "io_uring_read_loop k fs (ReadFile p # rs) =
     (case read_file_io_uring (k p) (fs p) of
        None \<Rightarrow> None
      | Some r \<Rightarrow> map_option ((#) (p, r)) (io_uring_read_loop k fs rs))"

text \<open>The loop over the completions: strip the root_dir, count the bytes, stop at the first error.\<close>

fun gather :: "path \<Rightarrow> (path \<times> (io_error + bytes)) list \<Rightarrow> u64 \<Rightarrow> (path \<times> bytes) list \<Rightarrow>
    stream_error + u64 \<times> (path \<times> bytes) list" where
  "gather root_dir [] total_bytes acc = Inr (total_bytes, acc)"
| "gather root_dir ((p, r) # rs) total_bytes acc =
     (case r of
        Inl e \<Rightarrow> Inl (ReadFailed p e)
      | Inr dat \<Rightarrow>
          let rel = (case strip_prefix root_dir p of Some q \<Rightarrow> q | None \<Rightarrow> p)
          in gather root_dir rs (total_bytes + of_nat (length dat)) (acc @ [(rel, dat)]))"

definition ship :: "bool \<Rightarrow> pack_block list \<Rightarrow> stream_error + sender_command list" where
  "ship chan_open blocks =
     (if chan_open \<or> blocks = [] then Inr (map (\<lambda>b. SendChunk (blk_data b)) blocks) else Inl ChannelClosed)"

text \<open>
  All requests are submitted before the first result is taken: with more files than the two
  channels and the thread can hold the submission never ends, as theory \<open>Channels\<close>
  shows, and neither does \<open>stream_directory\<close>.
\<close>

definition stream_directory ::
  "(path \<Rightarrow> nat \<Rightarrow> nat \<Rightarrow> int) \<Rightarrow> (path \<rightharpoonup> nat \<times> bytes) \<Rightarrow> bool \<Rightarrow> path \<Rightarrow> node \<Rightarrow>
   (stream_error + u64 \<times> sender_command list) option" where
  "stream_directory k fs chan_open root_dir n =
     (case collect_files root_dir n of
        Inl e \<Rightarrow> Some (Inl (WalkFailed e))
      | Inr paths \<Rightarrow>
          if \<not> all_submitted (length paths) then None
          else
          (case io_uring_read_loop k fs (map ReadFile paths) of
             None \<Rightarrow> None
           | Some results \<Rightarrow>
               (case gather root_dir results 0 [] of
                  Inl e \<Rightarrow> Some (Inl e)
                | Inr (total_bytes, file_data) \<Rightarrow>
                    (case ship chan_open (pack_files file_data) of
                       Inl e \<Rightarrow> Some (Inl e)
                     | Inr cmds \<Rightarrow> Some (Inr (total_bytes, cmds))))))"

definition read_large_file ::
  "(path \<Rightarrow> nat \<Rightarrow> nat \<Rightarrow> int) \<Rightarrow> (path \<rightharpoonup> nat \<times> bytes) \<Rightarrow> bool \<Rightarrow> path \<Rightarrow> (stream_error + u64 \<times> sender_command list) option" where
  "read_large_file k fs chan_open p =
     (case read_file_io_uring (k p) (fs p) of
        None \<Rightarrow> None
      | Some (Inl e) \<Rightarrow> Some (Inl (ReadFailed p e))
      | Some (Inr dat) \<Rightarrow>
          let rel = (case file_name p of Some q \<Rightarrow> q | None \<Rightarrow> p) in
          (case ship chan_open (pack_files [(rel, dat)]) of
             Inl e \<Rightarrow> Some (Inl e)
           | Inr cmds \<Rightarrow> Some (Inr (of_nat (length dat), cmds))))"

section \<open>The coordinator\<close>

definition send_directory ::
  "(path \<Rightarrow> nat \<Rightarrow> nat \<Rightarrow> int) \<Rightarrow> (path \<rightharpoonup> nat \<times> bytes) \<Rightarrow> bool \<Rightarrow> path \<Rightarrow> node \<Rightarrow>
   (stream_error + sender_command list) option" where
  "send_directory k fs chan_open root_dir n =
     (case stream_directory k fs chan_open root_dir n of
        None \<Rightarrow> None
      | Some (Inl e) \<Rightarrow> Some (Inl e)
      | Some (Inr (total_bytes, cmds)) \<Rightarrow>
          Some (if chan_open then Inr (cmds @ [Shutdown]) else Inl ChannelClosed))"

definition receive_files :: "writer_env \<Rightarrow> poll list \<Rightarrow> bytes list \<Rightarrow> (write_error + (path \<times> bytes) list) outcome option" where
  "receive_files env final data_rx =
     (case receive_and_write env final data_rx of
        None \<Rightarrow> None
      | Some Panic \<Rightarrow> Some Panic
      | Some (Return (Inl e)) \<Rightarrow> Some (Return (Inl e))
      | Some (Return (Inr (total_bytes, writes))) \<Rightarrow> Some (Return (Inr writes)))"


section \<open>What the walk finds\<close>

text \<open>The regular files below a directory, with their paths, in the order of the walk.\<close>

fun tree_files :: "path \<Rightarrow> (path \<times> node) list \<Rightarrow> (path \<times> bytes) list" where
  "tree_files dir [] = []"
| "tree_files dir ((name, n) # es) =
     (case n of
        RegFile b \<Rightarrow> [(join dir name, b)]
      | Directory sub \<Rightarrow> tree_files (join dir name) sub
      | _ \<Rightarrow> []) @ tree_files dir es"

definition name_ok :: "path \<Rightarrow> bool" where
  "name_ok n \<longleftrightarrow> n \<noteq> [] \<and> 47 \<notin> set n"

fun tree_ok :: "(path \<times> node) list \<Rightarrow> bool" where
  "tree_ok [] = True"
| "tree_ok ((name, n) # es) =
     (name_ok name \<and> tree_ok es \<and>
      (case n of Directory sub \<Rightarrow> tree_ok sub | Unreadable \<Rightarrow> False | BadEntry \<Rightarrow> False | _ \<Rightarrow> True))"

lemma collect_recursive_ok: "tree_ok es \<Longrightarrow> collect_recursive dir es out = Inr (out @ map fst (tree_files dir es))"
  by (induction dir es out rule: collect_recursive.induct) (auto simp: Let_def split: node.splits)

lemma name_okD: "name_ok n \<Longrightarrow> n \<noteq> [] \<and> hd n \<noteq> 47 \<and> last n \<noteq> 47"
  by (metis hd_in_set last_in_set name_ok_def)

lemma join_name: "name_ok n \<Longrightarrow> join d n \<noteq> [] \<and> last (join d n) \<noteq> 47"
  by (auto simp: join_def dest: name_okD)

lemma join_join:
  assumes "q \<noteq> []" "last q \<noteq> 47" "name_ok m"
  shows "join (join d q) m = join d (join q m)"
proof -
  have "join d q \<noteq> []" "last (join d q) \<noteq> 47" using assms(1,2) by (auto simp: join_def)
  then show ?thesis using assms name_okD[OF assms(3)] by (auto simp: join_def)
qed

lemma tree_files_join:
  assumes "tree_ok es" "\<forall>n. name_ok n \<longrightarrow> join dir n = join d (join rel n)"
  shows "tree_files dir es = map (\<lambda>(p, b). (join d p, b)) (tree_files rel es)"
  using assms
proof (induction dir es arbitrary: rel rule: tree_files.induct)
  case (2 dir name n es)
  have name: "name_ok name" "join dir name = join d (join rel name)" using "2.prems" by auto
  have "\<forall>m. name_ok m \<longrightarrow> join (join dir name) m = join d (join (join rel name) m)"
    using join_join[of "join rel name"] join_name[OF name(1), of rel] name(2) by simp
  then have sub: "tree_files (join dir name) sub = map (\<lambda>(p, b). (join d p, b)) (tree_files (join rel name) sub)"
    if "n = Directory sub" for sub using "2.IH"(1)[OF that, of "join rel name"] "2.prems"(1) that by simp
  have "tree_files dir es = map (\<lambda>(p, b). (join d p, b)) (tree_files rel es)"
    using "2.IH"(2)[of rel] "2.prems" by auto
  then show ?case using sub name(2) by (cases n) auto
qed simp

lemma tree_files_relative:
  assumes "tree_ok es" "rel = [] \<or> hd rel \<noteq> 47" "(p, b) \<in> set (tree_files rel es)"
  shows "p \<noteq> [] \<and> hd p \<noteq> 47"
  using assms
proof (induction rel es rule: tree_files.induct)
  case (2 rel name n es)
  have "join rel name \<noteq> [] \<and> hd (join rel name) \<noteq> 47"
    using "2.prems"(1,2) name_okD[of name] by (auto simp: join_def hd_append)
  then show ?case using 2 by (auto split: node.splits)
qed simp

lemma strip_prefix_join:
  assumes "p \<noteq> []" "hd p \<noteq> 47"
  shows "strip_prefix d (join d p) = Some p"
proof -
  have "dropWhile (\<lambda>c. c = 47) p = p" using assms by (cases p) auto
  then show ?thesis using assms by (auto simp: strip_prefix_def join_def Let_def)
qed

lemma io_uring_read_loop_ok:
  assumes "\<forall>p. progress (k p)" "\<forall>(p, b)\<in>set files. fs p = Some (length b, b)"
  shows "io_uring_read_loop k fs (map ReadFile (map fst files)) = Some (map (\<lambda>(p, b). (p, Inr b)) files)"
  using assms(2)
proof (induction files)
  case (Cons f files)
  obtain p b where f: "f = (p, b)" by fastforce
  have "read_file_io_uring (k p) (Some (length b, b)) = Some (Inr b)"
    using read_file_loop_ok[of "k p" 0 b "replicate (length b) 0"] assms(1) by (simp add: read_file_io_uring_def)
  then show ?case using Cons f by simp
qed simp

lemma gather_ok:
  assumes "\<forall>(p, b)\<in>set files. p \<noteq> [] \<and> hd p \<noteq> 47"
  shows "gather d (map (\<lambda>(p, b). (join d p, Inr b)) files) t acc =
    Inr (t + of_nat (\<Sum>(p, b)\<leftarrow>files. length b), acc @ files)"
  using assms
proof (induction files arbitrary: t acc)
  case (Cons f files)
  obtain p b where "f = (p, b)" by fastforce
  then show ?case using Cons by (simp add: strip_prefix_join add.assoc)
qed simp

lemma all_submitted_small: "all_submitted n \<Longrightarrow> n < 2 ^ 32"
  by (simp add: all_submitted_def reader_capacity_def QUEUE_DEPTH_def)

lemma submitted_few [simp]: "n \<le> 1025 \<Longrightarrow> all_submitted n"
  by (simp add: all_submitted_def reader_capacity_def QUEUE_DEPTH_def)

lemma stream_directory_ok:
  assumes "tree_ok es" "\<forall>p. progress (k p)" "\<forall>(p, b)\<in>set (tree_files root_dir es). fs p = Some (length b, b)"
    "all_submitted (length (tree_files [] es))"
  shows "stream_directory k fs True root_dir (Directory es) =
    Some (Inr (of_nat (\<Sum>(p, b)\<leftarrow>tree_files [] es. length b),
               map (\<lambda>b. SendChunk (blk_data b)) (pack_files (tree_files [] es))))"
proof -
  have join: "tree_files root_dir es = map (\<lambda>(p, b). (join root_dir p, b)) (tree_files [] es)"
    using assms(1) by (intro tree_files_join) (auto simp: join_def dest: name_okD)
  have "collect_files root_dir (Directory es) = Inr (map fst (tree_files root_dir es))"
    using assms(1) by (simp add: collect_files_def collect_recursive_ok)
  moreover have "io_uring_read_loop k fs (map ReadFile (map fst (tree_files root_dir es))) =
      Some (map (\<lambda>(p, b). (join root_dir p, Inr b)) (tree_files [] es))"
    using io_uring_read_loop_ok[OF assms(2,3)] by (simp add: join split_def comp_def)
  moreover have "\<forall>(p, b)\<in>set (tree_files [] es). p \<noteq> [] \<and> hd p \<noteq> 47"
    using tree_files_relative[OF assms(1), of "[]"] by blast
  moreover have "length (tree_files root_dir es) = length (tree_files [] es)" by (simp add: join)
  ultimately show ?thesis using assms(4) by (simp add: stream_directory_def gather_ok ship_def)
qed

fun command_data :: "sender_command \<Rightarrow> bytes list" where
  "command_data (SendChunk d) = [d]"
| "command_data Shutdown = []"

lemma send_directory_ok:
  assumes "tree_ok es" "\<forall>p. progress (k p)" "\<forall>(p, b)\<in>set (tree_files root_dir es). fs p = Some (length b, b)"
    "all_submitted (length (tree_files [] es))"
  shows "send_directory k fs True root_dir (Directory es) =
    Some (Inr (map SendChunk (map blk_data (pack_files (tree_files [] es))) @ [Shutdown]))"
  using stream_directory_ok[OF assms] by (simp add: send_directory_def comp_def)

text \<open>
  C20: a directory survives the storage engine.  Sending a readable directory tree walks every
  regular file, reads it whole, and hands the packed blocks and then the shutdown to the sender;
  when the receiving engine gets exactly these blocks and its storage works, it writes one file
  per regular file of the tree, at the same relative path below its output directory, with the
  same bytes.  The tree has at most 1025 files, which is what the reader's channels can take.  A
  path that names a single file instead of a directory is rejected.
\<close>

theorem directory_transfer_restores_tree:
  assumes "tree_ok es" "\<forall>p. progress (k p)" "\<forall>(p, b)\<in>set (tree_files root_dir es). fs p = Some (length b, b)"
    "\<forall>f\<in>set (tree_files [] es). file_ok f" "all_submitted (length (tree_files [] es))"
    "env_ok env" "\<forall>p\<in>set final. poll_ok p" "length (tree_files [] es) \<le> length final"
  shows "(\<exists>cmds. send_directory k fs True root_dir (Directory es) = Some (Inr (cmds @ [Shutdown])) \<and>
      receive_files env final (concat (map command_data cmds)) =
        Some (Return (Inr (map (\<lambda>(p, b). (join (output_dir env) p, b)) (tree_files [] es))))) \<and>
    (\<exists>e. send_directory k fs True root_dir (RegFile b) = Some (Inl e))"
proof -
  define cmds where "cmds = map (\<lambda>b. SendChunk (blk_data b)) (pack_files (tree_files [] es))"
  have "send_directory k fs True root_dir (Directory es) = Some (Inr (cmds @ [Shutdown]))"
    using stream_directory_ok[OF assms(1-3,5)] by (simp add: send_directory_def cmds_def)
  moreover have "concat (map command_data cmds) = map blk_data (pack_files (tree_files [] es))"
    by (simp add: cmds_def comp_def)
  ultimately show ?thesis
    using receive_packed[OF assms(6,4) all_submitted_small[OF assms(5)] assms(7,8)]
    by (auto simp: receive_files_def send_directory_def stream_directory_def collect_files_def)
qed


theorem directory_transfer_restores_tree_witness:
  "let es = [([97], RegFile [1, 2]), ([100], Directory [([98], RegFile [3])])];
       fs = [[115, 47, 97] \<mapsto> (2, [1, 2]), [115, 47, 100, 47, 98] \<mapsto> (1, [3])];
       env = \<lparr>output_dir = [111], mkdir_ok = (\<lambda>_. True), thread_open = True, polls = (\<lambda>_. [])\<rparr> in
   \<exists>cmds. send_directory (\<lambda>_ _ n. int n) fs True [115] (Directory es) = Some (Inr (cmds @ [Shutdown])) \<and>
     receive_files env [Completed [] True, Completed [] True] (concat (map command_data cmds)) =
       Some (Return (Inr [([111, 47, 97], [1, 2]), ([111, 47, 100, 47, 98], [3])]))"
proof -
  let ?es = "[([97], RegFile [1, 2]), ([100], Directory [([98], RegFile [3])])]"
  let ?fs = "[[115, 47, 97] \<mapsto> (2, [1, 2]), [115, 47, 100, 47, 98] \<mapsto> (1, [3])]"
  let ?env = "\<lparr>output_dir = [111], mkdir_ok = (\<lambda>_. True), thread_open = True, polls = (\<lambda>_. [])\<rparr>"
  have files: "tree_files [] ?es = [([97], [1, 2]), ([100, 47, 98], [3])]"
    "tree_files [115] ?es = [([115, 47, 97], [1, 2]), ([115, 47, 100, 47, 98], [3])]"
    by (simp_all add: join_def)
  have "tree_ok ?es" by (simp add: name_ok_def)
  from directory_transfer_restores_tree[OF this, of "\<lambda>_ _ n. int n" "[115]" ?fs ?env "[Completed [] True, Completed [] True]"]
  show ?thesis unfolding Let_def files
    by (simp add: progress_def env_ok_def poll_ok_def file_ok_def path_ok_def from_utf8_ascii join_def submitted_few)
qed

end
