(* ===== verification/Direct.thy ===== *)
theory Direct
  imports Reader Receiver
begin

text \<open>
  Direct mode of the command line program (\<^verbatim>\<open>crates/cli/src/send.rs\<close> and \<^verbatim>\<open>receive.rs\<close>): the
  sender prefixes every block with its length, cuts it into DATA datagrams and ends with five FIN
  datagrams; the receiver's reassembly task puts the blocks together again from the payloads
  that the receiver delivers.
\<close>

section \<open>The sending task\<close>

definition frame :: "bytes \<Rightarrow> bytes" where
  "frame data = le_bytes (of_nat (length data) :: u64) @ data"

text \<open>\<open>now_us seq\<close> is the clock reading for the packet with this sequence number.\<close>

fun packetize :: "(u64 \<Rightarrow> u64) \<Rightarrow> u64 \<Rightarrow> bytes list \<Rightarrow> bytes list" where
  "packetize now_us seq [] = []"
| "packetize now_us seq (chunk # cs) =
     datagram (new_data 1 seq (now_us seq) (of_nat (length chunk))) chunk # packetize now_us (seq + 1) cs"

text \<open>The loop over the commands: the datagrams sent, the next sequence number, the bytes counted.\<close>

fun direct_task :: "(u64 \<Rightarrow> u64) \<Rightarrow> sender_command list \<Rightarrow> u64 \<Rightarrow> u64 \<Rightarrow> bytes list \<times> u64 \<times> u64" where
  "direct_task now_us [] seq sent = ([], seq, sent)"
| "direct_task now_us (Shutdown # cmds) seq sent = ([], seq, sent)"
| "direct_task now_us (SendChunk data # cmds) seq sent =
     (let cs = chunks MAX_PAYLOAD (frame data);
          (pkts, seq', sent') = direct_task now_us cmds (seq + of_nat (length cs)) (sent + of_nat (sum_list (map length cs)))
      in (packetize now_us seq cs @ pkts, seq', sent'))"

definition run_direct_send :: "(u64 \<Rightarrow> u64) \<Rightarrow> u64 \<Rightarrow> sender_command list \<Rightarrow> bytes list \<times> u64" where
  "run_direct_send now_us fin_us cmds =
     (let (pkts, seq, sent) = direct_task now_us cmds 0 0
      in (pkts @ replicate 5 (datagram (new_fin 1 seq fin_us) []), sent))"

section \<open>The reassembly task\<close>

text \<open>
  How the task stands: it waits for more input (or has ended with it), it returned because the
  storage engine no longer takes blocks, or it panicked.
\<close>

datatype task_end = Drained | SinkClosed | TaskPanicked

text \<open>
  The inner loop: complete blocks are cut off the front of the accumulator.  \<open>alive n\<close> says
  whether the storage engine still takes the block after \<open>n\<close> blocks; the sum \<open>8 + block_len\<close> is
  \<open>usize\<close> arithmetic and wraps.  A panic ends the task only: the blocks sent before it stay sent.
\<close>

function extract_blocks :: "(nat \<Rightarrow> bool) \<Rightarrow> bytes \<Rightarrow> bytes list \<Rightarrow> task_end \<times> bytes \<times> bytes list" where
  "extract_blocks alive accum sent =
     (if length accum < 8 then (Drained, accum, sent)
      else let stop = unat (8 + of_le_bytes (take 8 accum) :: u64) in
        if length accum < stop then (Drained, accum, sent)
        else if stop < 8 then (TaskPanicked, accum, sent)
        else if alive (length sent) then extract_blocks alive (drop stop accum) (sent @ [slice 8 stop accum])
        else (SinkClosed, drop stop accum, sent))"
  by pat_completeness auto
termination
  by (relation "measure (\<lambda>(alive, accum, sent). length accum)") auto

declare extract_blocks.simps [simp del]

fun reassemble :: "(nat \<Rightarrow> bool) \<Rightarrow> bytes list \<Rightarrow> bytes \<Rightarrow> bytes list \<Rightarrow> task_end \<times> bytes list" where
  "reassemble alive [] accum sent = (Drained, sent)"
| "reassemble alive (chunk # cs) accum sent =
     (case extract_blocks alive (accum @ chunk) sent of
        (Drained, accum', sent') \<Rightarrow> reassemble alive cs accum' sent'
      | (stopped, accum', sent') \<Rightarrow> (stopped, sent'))"

section \<open>Framing\<close>

definition frame_ok :: "bytes \<Rightarrow> bool" where
  "frame_ok data \<longleftrightarrow> length data + 8 < 2 ^ 64"

text \<open>Reading one frame off the front of a buffer.\<close>

definition unframe :: "bytes \<Rightarrow> bytes option" where
  "unframe buf = (if length buf < 8 then None
     else let stop = 8 + unat (of_le_bytes (take 8 buf) :: u64)
          in if length buf < stop then None else Some (slice 8 stop buf))"

lemma length_frame [simp]: "length (frame b) = 8 + length b"
  by (simp add: frame_def)

lemma frame_stop:
  assumes "frame_ok b" "take 8 buf = le_bytes (of_nat (length b) :: u64)"
  shows "unat (8 + of_le_bytes (take 8 buf) :: u64) = 8 + length b"
proof -
  have "unat (of_nat (length b) :: u64) = length b" using assms(1) by (simp add: frame_ok_def unat_of_nat_small)
  then show ?thesis using assms by (subst unat_word_ariths) (simp add: frame_ok_def)
qed

lemma unframe_frame: "frame_ok b \<Longrightarrow> unframe (frame b @ rest) = Some b"
proof -
  assume ok: "frame_ok b"
  have "unat (of_nat (length b) :: u64) = length b" using ok by (simp add: frame_ok_def unat_of_nat_small)
  then show ?thesis by (simp add: unframe_def frame_def slice_def Let_def)
qed

interpretation fr: prefix_codec frame unframe frame_ok
  by unfold_locales (rule unframe_frame)

lemma extract_frame:
  assumes "frame_ok b"
  shows "extract_blocks (\<lambda>_. True) (frame b @ rest) sent = extract_blocks (\<lambda>_. True) rest (sent @ [b])"
proof -
  have tk: "take 8 (frame b @ rest) = le_bytes (of_nat (length b) :: u64)" by (simp add: frame_def)
  note stop = frame_stop[OF assms tk]
  have "slice 8 (8 + length b) (frame b @ rest) = b" by (simp add: frame_def slice_def)
  then show ?thesis unfolding extract_blocks.simps[of _ "frame b @ rest"] Let_def stop by simp
qed

lemma extract_short:
  assumes "frame_ok b" "accum @ rest = frame b @ rest2" "length accum < length (frame b)"
  shows "extract_blocks (\<lambda>_. True) accum sent = (Drained, accum, sent)"
proof (cases "length accum < 8")
  case False
  have "take 8 accum = take 8 (accum @ rest)" using False by simp
  also have "\<dots> = le_bytes (of_nat (length b) :: u64)" unfolding assms(2) by (simp add: frame_def)
  finally have "unat (8 + of_le_bytes (take 8 accum) :: u64) = 8 + length b" by (rule frame_stop[OF assms(1)])
  then show ?thesis using assms(3) by (simp add: extract_blocks.simps[of _ accum] Let_def)
qed (simp add: extract_blocks.simps[of _ accum])

lemma extract_prefix:
  assumes "accum @ rest = concat (map frame bs)" "\<forall>b\<in>set bs. frame_ok b"
  shows "\<exists>k accum'. k \<le> length bs \<and> extract_blocks (\<lambda>_. True) accum sent = (Drained, accum', sent @ take k bs) \<and>
    accum' @ rest = concat (map frame (drop k bs)) \<and> (k < length bs \<longrightarrow> length accum' < length (frame (bs ! k)))"
  using assms
proof (induction bs arbitrary: accum sent)
  case Nil
  then show ?case by (simp add: extract_blocks.simps[of _ "[]"])
next
  case (Cons b bs)
  have ok: "frame_ok b" using Cons.prems(2) by simp
  have eq: "accum @ rest = frame b @ concat (map frame bs)" using Cons.prems(1) by simp
  show ?case
  proof (cases "length accum < length (frame b)")
    case True
    then show ?thesis using extract_short[OF ok eq True] Cons.prems(1) by (intro exI[of _ 0]) simp
  next
    case False
    define acc1 where "acc1 = drop (length (frame b)) accum"
    have "take (length (frame b)) accum = take (length (frame b)) (accum @ rest)" using False by simp
    then have "take (length (frame b)) accum = frame b" unfolding eq by simp
    then have acc1: "accum = frame b @ acc1" unfolding acc1_def by (metis append_take_drop_id)
    then have acc: "accum = frame b @ acc1" "acc1 @ rest = concat (map frame bs)" using eq by simp_all
    from Cons.IH[OF acc(2), of "sent @ [b]"] Cons.prems(2) obtain k acc' where
      "k \<le> length bs" "extract_blocks (\<lambda>_. True) acc1 (sent @ [b]) = (Drained, acc', (sent @ [b]) @ take k bs)"
      "acc' @ rest = concat (map frame (drop k bs))" "k < length bs \<longrightarrow> length acc' < length (frame (bs ! k))" by auto
    then show ?thesis using extract_frame[OF ok, of acc1 sent] acc(1)
      by (intro exI[of _ "Suc k"] exI[of _ acc']) simp
  qed
qed

text \<open>
  A prefix of the stream of frames, wherever it is cut into payloads: the complete blocks come
  out, and the rest of the accumulator is shorter than the next frame.
\<close>

lemma reassemble_prefix:
  assumes "accum @ concat cs @ rest = concat (map frame bs)" "\<forall>b\<in>set bs. frame_ok b"
    "bs \<noteq> [] \<longrightarrow> length accum < length (frame (hd bs))"
  shows "\<exists>k\<le>length bs. reassemble (\<lambda>_. True) cs accum sent = (Drained, sent @ take k bs) \<and>
    length (concat (map frame (take k bs))) \<le> length (accum @ concat cs) \<and>
    (k < length bs \<longrightarrow> length (accum @ concat cs) < length (concat (map frame (take (Suc k) bs))))"
  using assms
proof (induction cs arbitrary: accum sent bs)
  case Nil
  then show ?case by (cases bs) (auto intro!: exI[of _ 0])
next
  case (Cons c cs)
  obtain k acc where k: "k \<le> length bs" "extract_blocks (\<lambda>_. True) (accum @ c) sent = (Drained, acc, sent @ take k bs)"
    "acc @ concat cs @ rest = concat (map frame (drop k bs))" "k < length bs \<longrightarrow> length acc < length (frame (bs ! k))"
    using extract_prefix[of "accum @ c" "concat cs @ rest" bs sent] Cons.prems by auto
  have "\<forall>b\<in>set (drop k bs). frame_ok b" using Cons.prems(2) by (auto dest: in_set_dropD)
  moreover have "drop k bs \<noteq> [] \<longrightarrow> length acc < length (frame (hd (drop k bs)))"
    using k(4) by (auto simp: hd_drop_conv_nth)
  ultimately obtain j where j: "j \<le> length bs - k"
    "reassemble (\<lambda>_. True) cs acc (sent @ take k bs) = (Drained, (sent @ take k bs) @ take j (drop k bs))"
    "length (concat (map frame (take j (drop k bs)))) \<le> length (acc @ concat cs)"
    "j < length bs - k \<longrightarrow> length (acc @ concat cs) < length (concat (map frame (take (Suc j) (drop k bs))))"
    using Cons.IH[OF k(3), of "sent @ take k bs"] by auto
  have split: "concat (map frame (take (k + m) bs)) = concat (map frame (take k bs)) @ concat (map frame (take m (drop k bs)))"
    for m by (simp add: take_add)
  have "(accum @ c) @ concat cs @ rest = concat (map frame (take k bs)) @ acc @ concat cs @ rest"
    using Cons.prems(1) k(3) by (metis append.assoc append_take_drop_id concat.simps(2) concat_append map_append)
  then have "length (accum @ concat (c # cs)) = length (concat (map frame (take k bs))) + length (acc @ concat cs)"
    by (drule_tac arg_cong[of _ _ length]) simp
  then show ?case using k(1,2) j split[of j] split[of "Suc j"]
    by (intro exI[of _ "k + j"]) (auto simp: take_add)
qed

lemma reassemble_stream:
  assumes "concat cs = concat (map frame bs)" "\<forall>b\<in>set bs. frame_ok b"
  shows "reassemble (\<lambda>_. True) cs [] sent = (Drained, sent @ bs)"
proof -
  obtain k where k: "k \<le> length bs" "reassemble (\<lambda>_. True) cs [] sent = (Drained, sent @ take k bs)"
    "k < length bs \<longrightarrow> length (concat (map frame bs)) < length (concat (map frame (take (Suc k) bs)))"
    using reassemble_prefix[of "[]" cs "[]" bs sent] assms by auto
  have "length (concat (map frame (take (Suc k) bs))) \<le> length (concat (map frame bs))"
    by (metis append_take_drop_id concat_append le_add1 length_append map_append)
  then show ?thesis using k by (cases "k < length bs") auto
qed

text \<open>
  Framing does not depend on where the stream is cut.  For every list of blocks and every way
  to cut the concatenation of their frames into payloads (inside a length prefix, across blocks,
  with empty payloads), the reassembly task sends out exactly the blocks, in order.
\<close>

theorem reassembly_independent_of_cuts:
  assumes "concat payloads = concat (map frame blocks)" "\<forall>b\<in>set blocks. frame_ok b"
  shows "reassemble (\<lambda>_. True) payloads [] [] = (Drained, blocks)"
  using reassemble_stream[OF assms, of "[]"] by simp

theorem reassembly_independent_of_cuts_witness:
  "reassemble (\<lambda>_. True) [[2, 0, 0], [], [0, 0, 0, 0, 0, 7], [8, 0], replicate 7 0] [] [] = (Drained, [[7, 8], []])"
proof (rule reassembly_independent_of_cuts)
  show "concat [[2, 0, 0], [], [0, 0, 0, 0, 0, 7], [8, 0], replicate 7 0] = concat (map frame [[7, 8], []])"
    by code_simp
qed (simp add: frame_ok_def)

section \<open>The direct stream\<close>

lemma packetize_append:
  "packetize now_us seq (xs @ ys) = packetize now_us seq xs @ packetize now_us (seq + of_nat (length xs)) ys"
  by (induction now_us seq xs rule: packetize.induct) (simp_all add: algebra_simps)

abbreviation direct_chunks :: "bytes list \<Rightarrow> bytes list" where
  "direct_chunks blocks \<equiv> concat (map (\<lambda>b. chunks MAX_PAYLOAD (frame b)) blocks)"

lemma direct_task_eq:
  "\<exists>seq' sent'. direct_task now_us (map SendChunk blocks @ [Shutdown]) seq sent =
     (packetize now_us seq (direct_chunks blocks), seq', sent')"
proof (induction blocks arbitrary: seq sent)
  case (Cons b blocks)
  let ?cs = "chunks MAX_PAYLOAD (frame b)"
  obtain seq' sent' where "direct_task now_us (map SendChunk blocks @ [Shutdown]) (seq + of_nat (length ?cs))
      (sent + of_nat (sum_list (map length ?cs))) =
      (packetize now_us (seq + of_nat (length ?cs)) (direct_chunks blocks), seq', sent')" using Cons.IH by blast
  then show ?case by (simp add: packetize_append Let_def)
qed simp

lemma direct_chunks_facts:
  "concat (direct_chunks blocks) = concat (map frame blocks)"
  "\<forall>c\<in>set (direct_chunks blocks). length c \<le> MAX_PAYLOAD"
proof -
  show "concat (direct_chunks blocks) = concat (map frame blocks)"
    by (induction blocks) (simp_all add: MAX_PAYLOAD_def)
  show "\<forall>c\<in>set (direct_chunks blocks). length c \<le> MAX_PAYLOAD"
    using chunks_length[of _ MAX_PAYLOAD] by auto
qed

lemma arrivals_packetize:
  assumes "\<forall>c\<in>set cs. length c \<le> MAX_PAYLOAD"
  shows "arrivals 1 (packetize now_us (of_nat n) cs @ dgs) =
    map (\<lambda>(i, c). (of_nat i, c)) (enumerate n cs) @ arrivals 1 dgs"
  using assms
proof (induction cs arbitrary: n)
  case (Cons c cs)
  let ?dg = "datagram (new_data 1 (of_nat n) (now_us (of_nat n)) (of_nat (length c))) c"
  have "length c < 2 ^ 16" using Cons.prems by (simp add: MAX_PAYLOAD_def)
  then have d: "data_of 1 ?dg = Some (of_nat n, c)" by (rule data_of_datagram)
  then have "\<not> ends_session 1 ?dg" by (auto simp: data_of_def ends_session_def split: option.splits if_splits)
  moreover have "(of_nat n + 1 :: u64) = of_nat (Suc n)" by simp
  ultimately show ?case using d Cons.IH[of "Suc n"] Cons.prems
    by (simp only: packetize.simps append_Cons until_end.simps) (simp add: List.map_filter_simps del: of_nat_Suc)
qed simp

lemma fin_ends: "ends_session 1 (datagram (new_fin 1 q t) []) \<and> data_of 1 (datagram (new_fin 1 q t) []) = None"
proof -
  have "read_from (datagram (new_fin 1 q t) []) = Some (new_fin 1 q t)"
    using hdr.dec_enc[of "new_fin 1 q t" "[]"] by (simp add: datagram_eq)
  moreover have "\<not> is_ping (new_fin 1 q t)" "\<not> is_pong (new_fin 1 q t)" "is_fin (new_fin 1 q t)" "\<not> is_data (new_fin 1 q t)"
    by simp_all
  ultimately show ?thesis by (simp add: ends_session_def data_of_def)
qed

lemma direct_arrivals:
  "arrivals 1 (fst (run_direct_send now_us fin_us (map SendChunk blocks @ [Shutdown]))) =
     map (\<lambda>(i, c). (of_nat i, c)) (enumerate 0 (direct_chunks blocks))" (is ?A)
  "\<exists>dg\<in>set (fst (run_direct_send now_us fin_us (map SendChunk blocks @ [Shutdown]))). ends_session 1 dg" (is ?B)
proof -
  obtain seq' sent' where t: "direct_task now_us (map SendChunk blocks @ [Shutdown]) 0 0 =
      (packetize now_us 0 (direct_chunks blocks), seq', sent')" using direct_task_eq by blast
  let ?fin = "datagram (new_fin 1 seq' fin_us) []"
  have send: "fst (run_direct_send now_us fin_us (map SendChunk blocks @ [Shutdown])) =
      packetize now_us (of_nat 0) (direct_chunks blocks) @ ?fin # replicate 4 ?fin"
    by (simp add: run_direct_send_def t numeral_eq_Suc)
  have "arrivals 1 (?fin # replicate 4 ?fin) = []" using fin_ends[of seq' fin_us] by (simp add: List.map_filter_simps)
  then show ?A unfolding send arrivals_packetize[OF direct_chunks_facts(2)] by simp
  show ?B unfolding send using fin_ends[of seq' fin_us] by simp
qed

lemma map_snd_enumerate_of_nat: "map snd (map (\<lambda>(i, c). (of_nat i :: u64, c)) (enumerate n xs)) = xs"
  by (rule nth_equalityI) (auto simp: nth_enumerate_eq)

lemma direct_stream_ok:
  assumes "\<forall>b\<in>set blocks. frame_ok b" "length (direct_chunks blocks) + 1024 < 2 ^ 64"
  shows "\<exists>r' acts. process_stream clock 0
      (fst (run_direct_send now_us fin_us (map SendChunk blocks @ [Shutdown]))) (receiver_new 1 0 st) [] =
      Some (Return (True, r', acts)) \<and>
    reassemble (\<lambda>_. True) (deliveries acts) [] [] = (Drained, blocks)"
proof -
  let ?dgs = "fst (run_direct_send now_us fin_us (map SendChunk blocks @ [Shutdown]))"
  let ?N = "length (direct_chunks blocks)"
  have inv: "receiver_inv 1 ?N (receiver_new 1 0 st)"
    by (simp add: receiver_inv_def receiver_new_def manager_inv_new pool_new_def is_received_manager_new)
  have "unat q < ?N" if qp: "(q, p) \<in> set (arrivals 1 ?dgs)" for q p
  proof -
    obtain i where "q = of_nat i" "i < ?N" using qp unfolding direct_arrivals(1) by (auto simp: in_set_enumerate_eq)
    then show ?thesis using assms(2) by (simp add: unat_of_nat_small)
  qed
  then have "\<forall>(q, p)\<in>set (arrivals 1 ?dgs). unat q < ?N" by blast
  from process_stream_effect[OF inv assms(2) this, of clock 0 "[]"] obtain fin r' acts where
    ps: "process_stream clock 0 ?dgs (receiver_new 1 0 st) [] = Some (Return (fin, r', acts))"
    and eff: "stream_effect 1 ?N ?dgs (receiver_new 1 0 st) [] (fin, r', acts)" by auto
  have "fin" using eff direct_arrivals(2) by (simp add: stream_effect_def)
  have "deliveries acts = map snd (arrivals 1 ?dgs)" using eff by (simp add: stream_effect_def)
  then have "deliveries acts = direct_chunks blocks" unfolding direct_arrivals(1) map_snd_enumerate_of_nat .
  then have "reassemble (\<lambda>_. True) (deliveries acts) [] [] = (Drained, blocks)"
    using reassemble_stream[OF direct_chunks_facts(1) assms(1), of "[]"] by simp
  then show ?thesis using ps \<open>fin\<close> by auto
qed

text \<open>
  Direct mode delivers the blocks over a lossless, ordered path.  When the datagrams of the
  sending task reach a fresh receiver of session 1 in order, the receiver handles every one of
  them without a panic, stops at the FIN, and the reassembly task sends out exactly the blocks that
  the sending task was given.
\<close>

theorem direct_stream_delivers_blocks:
  assumes "\<forall>b\<in>set blocks. frame_ok b" "length (direct_chunks blocks) + 1024 < 2 ^ 64"
  shows "\<exists>r' acts. process_stream clock 0
      (fst (run_direct_send now_us fin_us (map SendChunk blocks @ [Shutdown]))) (receiver_new 1 0 st) [] =
      Some (Return (True, r', acts)) \<and>
    reassemble (\<lambda>_. True) (deliveries acts) [] [] = (Drained, blocks)"
  using assms by (rule direct_stream_ok)

theorem direct_stream_delivers_blocks_witness:
  "\<exists>r' acts. process_stream (\<lambda>_. 0) 0 (fst (run_direct_send (\<lambda>q. q) 9 (map SendChunk [[1, 2, 3], [4]] @ [Shutdown])))
      (receiver_new 1 0 stats_new) [] = Some (Return (True, r', acts)) \<and>
    reassemble (\<lambda>_. True) (deliveries acts) [] [] = (Drained, [[1, 2, 3], [4]])"
proof (rule direct_stream_delivers_blocks)
  have "length (chunks MAX_PAYLOAD (frame [1, 2, 3])) \<le> 11" "length (chunks MAX_PAYLOAD (frame [4])) \<le> 9"
    by (simp_all add: length_chunks MAX_PAYLOAD_def)
  then show "length (direct_chunks [[1, 2, 3], [4]]) + 1024 < 2 ^ 64" by simp
qed (simp add: frame_ok_def)

end
