(* ===== verification/SessionMgr.thy ===== *)
theory SessionMgr
  imports Prelude "HOL-Library.Finite_Map"
begin

text \<open>
  The session table of the control plane (\<^verbatim>\<open>crates/controlplane/src/session_mgr.rs\<close>):
  \<open>SessionInfo\<close>, \<open>SessionManager\<close> and its operations.  The \<open>HashMap\<close> behind the lock
  is a finite map.  An operation is one step: it holds the lock from its first access to the
  table to its last; only \<open>create\<close> draws its number before it takes the lock, and the theory
  \<open>Concurrent\<close> takes it apart there.  What \<open>create\<close> takes from outside (the random bytes, the UUID
  and the clock) is an argument, and so is the clock of \<open>heartbeat\<close> and \<open>reap_expired\<close>.

  The interface \<open>session_store\<close> states what a client may rely on; from its laws alone
  every session evolves on its own, as a small automaton over the operations that concern it.
\<close>

section \<open>The model\<close>

record session_info =
  session_uuid :: bytes
  numeric_id :: u32
  session_user :: bytes
  session_key :: bytes
  session_nonce :: bytes
  max_bps :: u64
  created_at :: instant
  last_heartbeat :: instant

definition session_clone :: "session_info \<Rightarrow> session_info" where
  "session_clone s =
     \<lparr>session_uuid = session_uuid s, numeric_id = numeric_id s, session_user = session_user s,
      session_key = session_key s, session_nonce = session_nonce s, max_bps = max_bps s,
      created_at = created_at s, last_heartbeat = last_heartbeat s\<rparr>"

lemma session_clone_id [simp]: "session_clone s = s"
  by (simp add: session_clone_def)

record session_manager =
  sessions :: "(bytes, session_info) fmap"
  next_id :: u32
  session_ttl :: duration

text \<open>One call's worth of outside input: 32 and 12 random bytes, a fresh UUID, the time.\<close>

record entropy =
  key_bytes :: bytes
  nonce_bytes :: bytes
  new_uuid :: bytes
  instant_now :: instant

definition session_manager_new :: "duration \<Rightarrow> session_manager" where
  "session_manager_new ttl = \<lparr>sessions = fmempty, next_id = 1, session_ttl = ttl\<rparr>"

definition create_session ::
  "entropy \<Rightarrow> bytes \<Rightarrow> u64 \<Rightarrow> session_manager \<Rightarrow> session_info \<times> session_manager" where
  "create_session e user bps m =
     (let info = \<lparr>session_uuid = new_uuid e, numeric_id = next_id m, session_user = user,
                  session_key = key_bytes e, session_nonce = nonce_bytes e, max_bps = bps,
                  created_at = instant_now e, last_heartbeat = instant_now e\<rparr>
      in (info, m\<lparr>sessions := fmupd (new_uuid e) (session_clone info) (sessions m), next_id := next_id m + 1\<rparr>))"

definition get_clone :: "session_manager \<Rightarrow> bytes \<Rightarrow> session_info option" where
  "get_clone m uuid = map_option session_clone (fmlookup (sessions m) uuid)"

lemma session_clone_fun [simp]: "session_clone = id" "map_option session_clone x = x"
  by (auto simp: fun_eq_iff option.map_id[unfolded id_def] intro: option.map_ident_strong)

definition heartbeat_session :: "instant \<Rightarrow> bytes \<Rightarrow> session_manager \<Rightarrow> bool \<times> session_manager" where
  "heartbeat_session now uuid m =
     (case fmlookup (sessions m) uuid of
        Some s \<Rightarrow> (True, m\<lparr>sessions := fmupd uuid (s\<lparr>last_heartbeat := now\<rparr>) (sessions m)\<rparr>)
      | None \<Rightarrow> (False, m))"

definition terminate_session :: "bytes \<Rightarrow> session_manager \<Rightarrow> bool \<times> session_manager" where
  "terminate_session uuid m =
     (fmlookup (sessions m) uuid \<noteq> None, m\<lparr>sessions := fmdrop uuid (sessions m)\<rparr>)"

definition alive :: "instant \<Rightarrow> duration \<Rightarrow> session_info \<Rightarrow> bool" where
  "alive now ttl s \<longleftrightarrow> duration_since now (last_heartbeat s) < ttl"

definition reap_expired :: "instant \<Rightarrow> session_manager \<Rightarrow> nat \<times> session_manager" where
  "reap_expired now m =
     (let kept = fmfilter (\<lambda>u. case fmlookup (sessions m) u of
                    Some s \<Rightarrow> alive now (session_ttl m) s | None \<Rightarrow> False) (sessions m)
      in (fcard (fmdom (sessions m)) - fcard (fmdom kept), m\<lparr>sessions := kept\<rparr>))"

section \<open>The interface of a session store\<close>

text \<open>The calls a client makes, as a sequence of operations.\<close>

datatype mgr_op =
    Create entropy bytes u64
  | Heartbeat instant bytes
  | Terminate bytes
  | Reap instant

text \<open>What happens to one session, seen on its own: the time it was last heard of.\<close>

fun life :: "duration \<Rightarrow> bytes \<Rightarrow> mgr_op \<Rightarrow> instant option \<Rightarrow> instant option" where
  "life ttl k (Create e user bps) x = (if new_uuid e = k then Some (instant_now e) else x)"
| "life ttl k (Heartbeat t u) x = (if u = k then map_option (\<lambda>_. t) x else x)"
| "life ttl k (Terminate u) x = (if u = k then None else x)"
| "life ttl k (Reap t) x =
     (case x of Some h \<Rightarrow> if duration_since t h < ttl then Some h else None | None \<Rightarrow> None)"

text \<open>The operations that can change what is known of session \<open>k\<close>.\<close>

fun concerns :: "bytes \<Rightarrow> mgr_op \<Rightarrow> bool" where
  "concerns k (Create e user bps) \<longleftrightarrow> new_uuid e = k"
| "concerns k (Heartbeat t u) \<longleftrightarrow> u = k"
| "concerns k (Terminate u) \<longleftrightarrow> u = k"
| "concerns k (Reap t) \<longleftrightarrow> True"

locale session_store =
  fixes seen :: "'s \<Rightarrow> bytes \<Rightarrow> instant option"
    and apply_op :: "mgr_op \<Rightarrow> 's \<Rightarrow> 's"
    and ttl_of :: "'s \<Rightarrow> duration"
  assumes seen_op: "seen (apply_op op s) k = life (ttl_of s) k op (seen s k)"
    and ttl_op: "ttl_of (apply_op op s) = ttl_of s"
begin

lemma ttl_ops: "ttl_of (fold apply_op ops s) = ttl_of s"
  by (induction ops arbitrary: s) (simp_all add: ttl_op)

lemma seen_ops: "seen (fold apply_op ops s) k = fold (life (ttl_of s) k) ops (seen s k)"
  by (induction ops arbitrary: s) (simp_all add: seen_op ttl_op)

text \<open>Operations on other sessions do not disturb a session.\<close>

lemma seen_filter:
  "seen (fold apply_op (filter (concerns k) ops) s) k = seen (fold apply_op ops s) k"
proof -
  have "fold (life t k) (filter (concerns k) ops) x = fold (life t k) ops x" for t x
  proof (induction ops arbitrary: x)
    case (Cons op ops)
    then show ?case by (cases op) auto
  qed simp
  then show ?thesis by (simp add: seen_ops)
qed

text \<open>Without terminations and reaping a session stays, whatever happens to the others.\<close>

lemma seen_stays:
  assumes "seen s k \<noteq> None" "\<forall>op\<in>set ops. op \<noteq> Terminate k" "\<forall>t. Reap t \<notin> set ops"
  shows "seen (fold apply_op ops s) k \<noteq> None"
  using assms
proof (induction ops arbitrary: s)
  case (Cons op ops)
  have "seen (apply_op op s) k \<noteq> None" using Cons.prems by (cases op) (auto simp: seen_op)
  then have "seen (fold apply_op ops (apply_op op s)) k \<noteq> None"
    by (rule Cons.IH) (use Cons.prems in auto)
  then show ?case by simp
qed simp

text \<open>A session that is never terminated and heard of within every window of \<open>ttl\<close> stays.\<close>

lemma seen_survives:
  assumes "seen s k = Some h" "\<forall>op\<in>set ops. op \<noteq> Terminate k"
    "\<forall>t. Reap t \<in> set ops \<longrightarrow> duration_since t h < ttl_of s" "\<forall>t. Heartbeat t k \<in> set ops \<longrightarrow> h \<le> t"
    "\<forall>e user bps. Create e user bps \<in> set ops \<longrightarrow> new_uuid e \<noteq> k"
  shows "\<exists>h' \<ge> h. seen (fold apply_op ops s) k = Some h'"
proof -
  have "\<exists>h' \<ge> h. fold (life (ttl_of s) k) ops (Some h0) = Some h'" if "h \<le> h0" for h0
    using that assms(2-)
  proof (induction ops arbitrary: h0)
    case (Cons op ops)
    have IH: "\<And>h1. h \<le> h1 \<Longrightarrow> \<exists>h' \<ge> h. fold (life (ttl_of s) k) ops (Some h1) = Some h'"
      by (rule Cons.IH) (use Cons.prems(2-) in auto)
    show ?case
    proof (cases op)
      case (Reap t)
      have "duration_since t h < ttl_of s" using Cons.prems(3) Reap by simp
      then have "duration_since t h0 < ttl_of s"
        using Cons.prems(1) by (simp add: duration_since_def)
      then show ?thesis using IH[OF Cons.prems(1)] Reap by simp
    next
      case (Heartbeat t u)
      show ?thesis
      proof (cases "u = k")
        case True
        then have "h \<le> t" using Cons.prems(4) Heartbeat by simp
        then show ?thesis using IH[of t] Heartbeat True by simp
      qed (use IH[OF Cons.prems(1)] Heartbeat in simp)
    next
      case (Create e user bps)
      then show ?thesis using IH[OF Cons.prems(1)] Cons.prems(5) by simp
    next
      case (Terminate u)
      then show ?thesis using IH[OF Cons.prems(1)] Cons.prems(2) by simp
    qed
  qed simp
  then show ?thesis using assms(1) by (simp add: seen_ops)
qed

end

section \<open>The manager implements the interface\<close>

fun apply_op :: "mgr_op \<Rightarrow> session_manager \<Rightarrow> session_manager" where
  "apply_op (Create e user bps) m = snd (create_session e user bps m)"
| "apply_op (Heartbeat t u) m = snd (heartbeat_session t u m)"
| "apply_op (Terminate u) m = snd (terminate_session u m)"
| "apply_op (Reap t) m = snd (reap_expired t m)"

definition last_seen :: "session_manager \<Rightarrow> bytes \<Rightarrow> instant option" where
  "last_seen m k = map_option last_heartbeat (get_clone m k)"

lemmas manager_defs = create_session_def heartbeat_session_def terminate_session_def
  reap_expired_def get_clone_def

interpretation mgr: session_store last_seen apply_op session_ttl
proof
  fix op m k
  show "last_seen (apply_op op m) k = life (session_ttl m) k op (last_seen m k)"
    by (cases op) (auto simp: last_seen_def manager_defs alive_def Let_def split: option.splits)
  show "session_ttl (apply_op op m) = session_ttl m"
    by (cases op) (auto simp: manager_defs Let_def split: option.splits)
qed

section \<open>What the manager guarantees\<close>

text \<open>
  The numeric identifiers are handed out by a wrapping counter that starts at 1; after \<open>n\<close>
  creations the counter stands at \<open>n + 1\<close> and the sessions in the table hold distinct
  earlier values.
\<close>

definition ids_ok :: "nat \<Rightarrow> session_manager \<Rightarrow> bool" where
  "ids_ok n m \<longleftrightarrow> next_id m = of_nat (n + 1) \<and>
     (\<forall>k s. get_clone m k = Some s \<longrightarrow> session_uuid s = k \<and>
        (\<exists>i. 0 < i \<and> i \<le> n \<and> numeric_id s = of_nat i)) \<and>
     (\<forall>k k' s s'. get_clone m k = Some s \<longrightarrow> get_clone m k' = Some s' \<longrightarrow>
        numeric_id s = numeric_id s' \<longrightarrow> k = k')"

fun is_create :: "mgr_op \<Rightarrow> bool" where
  "is_create (Create e user bps) = True"
| "is_create _ = False"

text \<open>Every operation but \<open>create\<close> keeps the identifiers of the sessions it leaves.\<close>

lemma ids_ok_mono:
  assumes "ids_ok n m" "next_id m' = next_id m"
    "\<And>k s'. get_clone m' k = Some s' \<Longrightarrow> \<exists>s. get_clone m k = Some s \<and>
       session_uuid s' = session_uuid s \<and> numeric_id s' = numeric_id s"
  shows "ids_ok n m'"
  unfolding ids_ok_def
proof (intro conjI allI impI)
  show "next_id m' = of_nat (n + 1)" using assms(1,2) by (simp add: ids_ok_def)
next
  fix k s' assume "get_clone m' k = Some s'"
  then obtain s where "get_clone m k = Some s" "session_uuid s' = session_uuid s" "numeric_id s' = numeric_id s"
    using assms(3) by blast
  then show "session_uuid s' = k" "\<exists>i. 0 < i \<and> i \<le> n \<and> numeric_id s' = of_nat i"
    using assms(1) by (simp_all add: ids_ok_def)
next
  fix k k' s s'
  assume a: "get_clone m' k = Some s" "get_clone m' k' = Some s'" "numeric_id s = numeric_id s'"
  obtain s1 where "get_clone m k = Some s1" "numeric_id s = numeric_id s1" using assms(3)[OF a(1)] by blast
  moreover obtain s2 where "get_clone m k' = Some s2" "numeric_id s' = numeric_id s2"
    using assms(3)[OF a(2)] by blast
  ultimately show "k = k'" using assms(1) a(3) unfolding ids_ok_def by force
qed

lemma ids_ok_create:
  assumes "ids_ok n m" "n + 1 < 2 ^ 32"
  shows "ids_ok (Suc n) (snd (create_session e user bps m))"
proof -
  have id: "next_id m = of_nat (n + 1)" using assms(1) by (simp add: ids_ok_def)
  have old: "session_uuid s = k \<and> (\<exists>i. 0 < i \<and> i \<le> n \<and> numeric_id s = of_nat i)"
    if g: "get_clone m k = Some s" for k s using assms(1) g by (simp add: ids_ok_def)
  have fresh: "numeric_id s \<noteq> next_id m" if g: "get_clone m k = Some s" for k s
  proof -
    obtain i where i: "i \<le> n" "numeric_id s = of_nat i" using old[OF g] by blast
    then show ?thesis using assms(2) unfolding id i(2) by (subst of_nat_word_eq_small) auto
  qed
  let ?m = "snd (create_session e user bps m)"
  have new: "get_clone ?m k = Some s \<longleftrightarrow>
      (if k = new_uuid e then s = fst (create_session e user bps m) else get_clone m k = Some s)" for k s
    by (auto simp: create_session_def get_clone_def Let_def)
  have fst_id: "numeric_id (fst (create_session e user bps m)) = next_id m"
    "session_uuid (fst (create_session e user bps m)) = new_uuid e"
    by (simp_all add: create_session_def Let_def)
  show ?thesis unfolding ids_ok_def
  proof (intro conjI allI impI)
    show "next_id ?m = of_nat (Suc n + 1)" by (simp add: create_session_def Let_def id add_ac)
  next
    fix k s assume g: "get_clone ?m k = Some s"
    show "session_uuid s = k" using g old fst_id by (auto simp: new split: if_splits)
    show "\<exists>i. 0 < i \<and> i \<le> Suc n \<and> numeric_id s = of_nat i"
    proof (cases "k = new_uuid e")
      case True
      then show ?thesis using g fst_id id by (intro exI[of _ "n + 1"]) (simp add: new)
    next
      case False
      then show ?thesis using g old[of k s] le_SucI by (auto simp: new)
    qed
  next
    fix k k' s s'
    assume g: "get_clone ?m k = Some s" "get_clone ?m k' = Some s'" "numeric_id s = numeric_id s'"
    have "k = k'" if "k \<noteq> new_uuid e" "k' \<noteq> new_uuid e"
    proof -
      have "get_clone m k = Some s" "get_clone m k' = Some s'" using that g(1,2) by (simp_all add: new)
      then show ?thesis using g(3) assms(1) unfolding ids_ok_def by blast
    qed
    moreover have "numeric_id s = next_id m \<longleftrightarrow> k = new_uuid e" "numeric_id s' = next_id m \<longleftrightarrow> k' = new_uuid e"
      using g(1,2) fresh[of k s] fresh[of k' s'] fst_id(1) unfolding new by (cases "k = new_uuid e"; cases "k' = new_uuid e"; simp)+
    ultimately show "k = k'" using g(3) by (cases "k = new_uuid e") simp_all
  qed
qed

lemma ids_ok_op:
  assumes "ids_ok n m" "n + 1 < 2 ^ 32 \<or> \<not> is_create op"
  shows "ids_ok (if is_create op then Suc n else n) (apply_op op m)"
proof (cases op)
  case (Create e user bps)
  then show ?thesis using ids_ok_create assms by simp
next
  case (Heartbeat t u)
  have "ids_ok n (apply_op op m)"
    by (rule ids_ok_mono[OF assms(1)]) (auto simp: Heartbeat manager_defs split: option.splits if_splits)
  then show ?thesis using Heartbeat by simp
next
  case (Terminate u)
  have "ids_ok n (apply_op op m)"
    by (rule ids_ok_mono[OF assms(1)]) (auto simp: Terminate manager_defs split: if_splits)
  then show ?thesis using Terminate by simp
next
  case (Reap t)
  have "ids_ok n (apply_op op m)"
    by (rule ids_ok_mono[OF assms(1)]) (auto simp: Reap manager_defs Let_def split: if_splits)
  then show ?thesis using Reap by simp
qed

lemma ids_ok_ops:
  assumes "ids_ok n m" "n + length (filter is_create ops) < 2 ^ 32"
  shows "ids_ok (n + length (filter is_create ops)) (fold apply_op ops m)"
  using assms
proof (induction ops arbitrary: n m)
  case (Cons op ops)
  have "ids_ok (if is_create op then Suc n else n) (apply_op op m)"
    using Cons.prems by (intro ids_ok_op) (auto split: if_splits)
  from Cons.IH[OF this] Cons.prems(2) show ?case by (auto split: if_splits)
qed simp

lemma ids_ok_new: "ids_ok 0 (session_manager_new ttl)"
  by (simp add: ids_ok_def session_manager_new_def get_clone_def)

text \<open>Every session in the table was put there by a \<open>create\<close>, whose values it keeps.\<close>

text \<open>Where a session in the table comes from: one operation, and a sequence of them.\<close>

lemma session_before:
  assumes "get_clone (apply_op op m) k = Some s"
  shows "(\<exists>e user bps. op = Create e user bps \<and> k = new_uuid e \<and> s = fst (create_session e user bps m)) \<or>
    (\<exists>s0. get_clone m k = Some s0 \<and> s = s0\<lparr>last_heartbeat := last_heartbeat s\<rparr>)"
proof (cases op)
  case (Heartbeat t u)
  then show ?thesis using assms by (cases "u = k") (auto simp: manager_defs split: option.splits)
qed (use assms in \<open>auto simp: manager_defs Let_def split: if_splits\<close>)

lemma session_origin:
  assumes "get_clone (fold apply_op ops m) k = Some s"
  shows "(\<exists>e user bps. Create e user bps \<in> set ops \<and> k = new_uuid e \<and> session_uuid s = k \<and> session_user s = user \<and> max_bps s = bps \<and>
      session_key s = key_bytes e \<and> session_nonce s = nonce_bytes e \<and> created_at s = instant_now e) \<or>
    (\<exists>s0. get_clone m k = Some s0 \<and> s = s0\<lparr>last_heartbeat := last_heartbeat s\<rparr>)"
  using assms
proof (induction ops arbitrary: m)
  case (Cons op ops)
  then have "get_clone (fold apply_op ops (apply_op op m)) k = Some s" by simp
  from Cons.IH[OF this] show ?case
  proof (elim disjE exE conjE)
    fix s1 assume s1: "get_clone (apply_op op m) k = Some s1" "s = s1\<lparr>last_heartbeat := last_heartbeat s\<rparr>"
    have eq: "session_uuid s = session_uuid s1" "session_user s = session_user s1" "max_bps s = max_bps s1" "session_key s = session_key s1"
      "session_nonce s = session_nonce s1" "created_at s = created_at s1" by (subst s1(2), simp)+
    from session_before[OF s1(1)] show ?thesis
    proof (elim disjE exE conjE)
      fix e user bps assume "op = Create e user bps" "k = new_uuid e" "s1 = fst (create_session e user bps m)"
      then show ?thesis using eq by (intro disjI1 exI[of _ e]) (auto simp: create_session_def Let_def)
    next
      fix s0 assume s0: "get_clone m k = Some s0" "s1 = s0\<lparr>last_heartbeat := last_heartbeat s1\<rparr>"
      have "s = s0\<lparr>last_heartbeat := last_heartbeat s\<rparr>" by (subst s1(2), subst s0(2)) simp
      then show ?thesis using s0(1) by blast
    qed
  qed auto
qed simp

text \<open>The number that \<open>reap_expired\<close> reports counts the sessions it removed.\<close>

lemma reap_count:
  "fst (reap_expired now m) =
     card {k. last_seen m k \<noteq> None \<and> last_seen (snd (reap_expired now m)) k = None}"
proof -
  let ?kept = "sessions (snd (reap_expired now m))"
  have sub: "fset (fmdom ?kept) \<subseteq> fset (fmdom (sessions m))"
    by (auto simp: reap_expired_def Let_def fmlookup_dom_iff split: if_splits)
  have "fst (reap_expired now m) = card (fset (fmdom (sessions m))) - card (fset (fmdom ?kept))"
    by (simp add: reap_expired_def Let_def fcard.rep_eq)
  also have "\<dots> = card (fset (fmdom (sessions m)) - fset (fmdom ?kept))"
    using sub by (simp add: card_Diff_subset finite_subset)
  also have "fset (fmdom (sessions m)) - fset (fmdom ?kept) =
      {k. last_seen m k \<noteq> None \<and> last_seen (snd (reap_expired now m)) k = None}"
    by (auto simp: last_seen_def get_clone_def fmlookup_dom_iff)
  finally show ?thesis .
qed

text \<open>
  C26: the session table.  After any sequence of calls the manager knows of each session
  exactly what the session's own automaton says: it is there from its creation until a
  \<open>terminate\<close> of it or a \<open>reap_expired\<close> more than the TTL after it was last heard of, with
  that time as its last heartbeat.  \<open>heartbeat\<close> and \<open>terminate\<close> report whether it was
  there, \<open>reap_expired\<close> counts the sessions whose automaton it ends, and as long as fewer
  than \<open>2 ^ 32\<close> sessions were created no two sessions share the numeric identifier that goes
  into packet headers.
\<close>

theorem session_table_refines_lives:
  assumes "m = fold apply_op ops (session_manager_new ttl)" "\<And>k. x k = fold (life ttl k) ops None"
  shows "last_seen m k = x k \<and>
    fst (heartbeat_session now k m) = (x k \<noteq> None) \<and> fst (terminate_session k m) = (x k \<noteq> None) \<and>
    fst (reap_expired now m) = card {u. x u \<noteq> None \<and> life ttl u (Reap now) (x u) = None} \<and>
    (length (filter is_create ops) < 2 ^ 32 \<longrightarrow>
      get_clone m k = Some s \<longrightarrow> get_clone m k' = Some s' \<longrightarrow> numeric_id s = numeric_id s' \<longrightarrow> k = k')"
proof -
  have ttl: "session_ttl m = ttl" using assms(1) mgr.ttl_ops by (simp add: session_manager_new_def)
  have "last_seen (session_manager_new ttl) u = None" for u
    by (simp add: last_seen_def get_clone_def session_manager_new_def)
  then have seen: "last_seen m u = x u" for u
    using assms mgr.seen_ops[of ops "session_manager_new ttl" u] by (simp add: session_manager_new_def)
  then have there: "x k \<noteq> None \<longleftrightarrow> get_clone m k \<noteq> None" by (metis last_seen_def map_option_is_None)
  have "last_seen (snd (reap_expired now m)) u = life ttl u (Reap now) (x u)" for u
    using mgr.seen_op[of "Reap now" m u] seen ttl by simp
  then have "fst (reap_expired now m) = card {u. x u \<noteq> None \<and> life ttl u (Reap now) (x u) = None}"
    using reap_count[of now m] seen by simp
  moreover have "k = k'" if "length (filter is_create ops) < 2 ^ 32"
    "get_clone m k = Some s" "get_clone m k' = Some s'" "numeric_id s = numeric_id s'"
    using ids_ok_ops[OF ids_ok_new] that assms(1) unfolding ids_ok_def by simp
  ultimately show ?thesis using seen there
    by (auto simp: heartbeat_session_def terminate_session_def get_clone_def split: option.splits)
qed

text \<open>Two sessions, the first kept by a heartbeat, the second reaped 60 seconds after its creation.\<close>

definition example_ops :: "mgr_op list" where
  "example_ops = [Create \<lparr>key_bytes = [], nonce_bytes = [], new_uuid = [1], instant_now = 0\<rparr> [97] 5,
     Create \<lparr>key_bytes = [], nonce_bytes = [], new_uuid = [2], instant_now = 10\<rparr> [98] 6,
     Heartbeat 50 [1], Reap 70]"

theorem session_table_refines_lives_witness:
  "last_seen (fold apply_op example_ops (session_manager_new 60)) [1] = Some 50 \<and>
   last_seen (fold apply_op example_ops (session_manager_new 60)) [2] = None \<and>
   fst (heartbeat_session 80 [1] (fold apply_op example_ops (session_manager_new 60)))"
  using session_table_refines_lives[OF refl refl, where ops = example_ops and ttl = 60 and k = "[1]" and now = 80]
    session_table_refines_lives[OF refl refl, where ops = example_ops and ttl = 60 and k = "[2]" and now = 80]
  by (simp add: example_ops_def duration_since_def)

end
