(* ===== verification/Control.thy ===== *)
theory Control
  imports SessionMgr F64
begin

text \<open>
  The control plane: the user database and tokens (\<^verbatim>\<open>crates/controlplane/src/auth.rs\<close>),
  the bandwidth policies (\<^verbatim>\<open>policy.rs\<close>), the three gRPC handlers (\<^verbatim>\<open>server.rs\<close>) and
  the set-up of \<^verbatim>\<open>crates/cli/src/server.rs\<close>.  PBKDF2 and the JWT library are arguments,
  gathered in a \<open>crypto_lib\<close>; what the code relies on is \<open>lib_ok\<close>.  Random bytes, UUIDs
  and clocks are arguments.  Strings are their UTF-8 bytes.
\<close>

section \<open>Users and tokens\<close>

definition PBKDF2_ITERATIONS :: nat where "PBKDF2_ITERATIONS = 100000"
definition SALT_LEN :: nat where "SALT_LEN = 32"
definition HASH_LEN :: nat where "HASH_LEN = 32"

record stored_user =
  user_hash :: bytes
  user_salt :: bytes

record claims =
  claim_sub :: bytes
  claim_sid :: bytes
  exp_at :: u64

record auth_engine =
  users :: "bytes \<rightharpoonup> stored_user"
  jwt_secret :: bytes
  token_ttl_secs :: u64

text \<open>
  The libraries: \<open>pbkdf2_hmac::<Sha256>\<close> into a buffer of \<open>HASH_LEN\<close> bytes, \<open>encode\<close>
  and \<open>decode\<close> of the JWT crate with the default header and validation (HS256, expiry checked)
  and no leeway.  \<open>decode\<close> reads the wall clock, in seconds.
\<close>

record crypto_lib =
  pbkdf2_hmac :: "bytes \<Rightarrow> bytes \<Rightarrow> nat \<Rightarrow> bytes"
  jwt_encode :: "bytes \<Rightarrow> claims \<Rightarrow> bytes option"
  jwt_decode :: "bytes \<Rightarrow> u64 \<Rightarrow> bytes \<Rightarrow> claims option"

datatype auth_error = ClockError | JwtEncodeFailed | JwtVerificationFailed

definition error_text :: "auth_error \<Rightarrow> string" where
  "error_text e = (case e of
       ClockError \<Rightarrow> ''system clock error''
     | JwtEncodeFailed \<Rightarrow> ''JWT encode failed''
     | JwtVerificationFailed \<Rightarrow> ''JWT verification failed'')"

definition auth_engine_new :: "bytes \<Rightarrow> u64 \<Rightarrow> auth_engine" where
  "auth_engine_new secret ttl = \<lparr>users = Map.empty, jwt_secret = secret, token_ttl_secs = ttl\<rparr>"

definition add_user :: "crypto_lib \<Rightarrow> bytes \<Rightarrow> bytes \<Rightarrow> bytes \<Rightarrow> auth_engine \<Rightarrow> auth_engine" where
  "add_user lib salt user password a =
     a\<lparr>users := (users a)(user \<mapsto>
        \<lparr>user_hash = pbkdf2_hmac lib password salt PBKDF2_ITERATIONS, user_salt = salt\<rparr>)\<rparr>"

definition xor_diff :: "bytes \<Rightarrow> bytes \<Rightarrow> u8" where
  "xor_diff xs ys = fold (\<lambda>(a, b) acc. acc OR (a XOR b)) (zip xs ys) 0"

definition authenticate :: "crypto_lib \<Rightarrow> auth_engine \<Rightarrow> bytes \<Rightarrow> bytes \<Rightarrow> bool" where
  "authenticate lib a user password =
     (case users a user of
        None \<Rightarrow> False
      | Some u \<Rightarrow>
          xor_diff (pbkdf2_hmac lib password (user_salt u) PBKDF2_ITERATIONS) (user_hash u) = 0)"

text \<open>\<open>wall\<close> is the number of seconds since the epoch, or \<open>None\<close> when the clock stands before it.\<close>

definition issue_token ::
  "crypto_lib \<Rightarrow> auth_engine \<Rightarrow> u64 option \<Rightarrow> bytes \<Rightarrow> bytes \<Rightarrow> auth_error + bytes" where
  "issue_token lib a wall user session =
     (case wall of
        None \<Rightarrow> Inl ClockError
      | Some now \<Rightarrow>
          (case jwt_encode lib (jwt_secret a)
                  \<lparr>claim_sub = user, claim_sid = session, exp_at = saturating_add now (token_ttl_secs a)\<rparr> of
             None \<Rightarrow> Inl JwtEncodeFailed
           | Some token \<Rightarrow> Inr token))"

definition verify_token :: "crypto_lib \<Rightarrow> auth_engine \<Rightarrow> u64 \<Rightarrow> bytes \<Rightarrow> auth_error + claims" where
  "verify_token lib a now token =
     (case jwt_decode lib (jwt_secret a) now token of
        None \<Rightarrow> Inl JwtVerificationFailed
      | Some c \<Rightarrow> Inr c)"

section \<open>Bandwidth policies\<close>

record bandwidth_policy =
  policy_max_bps :: u64
  burst_factor :: f64

record policy_engine =
  default_policy :: bandwidth_policy
  per_user :: "bytes \<rightharpoonup> bandwidth_policy"

definition policy_engine_new :: "u64 \<Rightarrow> policy_engine" where
  "policy_engine_new bps =
     \<lparr>default_policy = \<lparr>policy_max_bps = bps, burst_factor = 3 / 2\<rparr>, per_user = Map.empty\<rparr>"

definition resolve :: "policy_engine \<Rightarrow> bytes \<Rightarrow> bandwidth_policy" where
  "resolve p user = (case per_user p user of Some b \<Rightarrow> b | None \<Rightarrow> default_policy p)"

definition set_user_policy :: "bytes \<Rightarrow> u64 \<Rightarrow> f64 \<Rightarrow> policy_engine \<Rightarrow> policy_engine" where
  "set_user_policy user bps burst p =
     p\<lparr>per_user := (per_user p)(user \<mapsto> \<lparr>policy_max_bps = bps, burst_factor = burst\<rparr>)\<rparr>"

section \<open>The service\<close>

record control_service =
  svc_auth :: auth_engine
  svc_sessions :: session_manager
  svc_policies :: policy_engine

datatype status = Unauthenticated string | Internal string

record auth_request =
  req_username :: bytes
  req_password :: bytes

record auth_response =
  resp_session_id :: bytes
  resp_jwt_token :: bytes
  resp_session_key :: bytes
  resp_session_nonce :: bytes
  resp_max_bps :: u64

text \<open>\<open>HeartbeatRequest\<close> and \<open>TerminateRequest\<close> have the same two fields.\<close>

record session_request =
  req_session_id :: bytes
  req_jwt_token :: bytes

definition svc_authenticate :: "crypto_lib \<Rightarrow> entropy \<Rightarrow> u64 option \<Rightarrow> auth_request \<Rightarrow> control_service \<Rightarrow>
    (status + auth_response) \<times> control_service" where
  "svc_authenticate lib e wall req s =
     (if \<not> authenticate lib (svc_auth s) (req_username req) (req_password req)
      then (Inl (Unauthenticated ''invalid credentials''), s)
      else
        let policy = resolve (svc_policies s) (req_username req);
            (info, m) = create_session e (req_username req) (policy_max_bps policy) (svc_sessions s);
            s' = s\<lparr>svc_sessions := m\<rparr>
        in case issue_token lib (svc_auth s) wall (req_username req) (session_uuid info) of
             Inl err \<Rightarrow> (Inl (Internal (error_text err)), s')
           | Inr jwt \<Rightarrow>
               (Inr \<lparr>resp_session_id = session_uuid info, resp_jwt_token = jwt,
                     resp_session_key = session_key info, resp_session_nonce = session_nonce info,
                     resp_max_bps = max_bps info\<rparr>, s'))"

definition svc_heartbeat :: "crypto_lib \<Rightarrow> u64 \<Rightarrow> instant \<Rightarrow> session_request \<Rightarrow> control_service \<Rightarrow>
    (status + bool) \<times> control_service" where
  "svc_heartbeat lib wall now req s =
     (case verify_token lib (svc_auth s) wall (req_jwt_token req) of
        Inl _ \<Rightarrow> (Inl (Unauthenticated ''invalid token''), s)
      | Inr _ \<Rightarrow>
          (let (ok, m) = heartbeat_session now (req_session_id req) (svc_sessions s)
           in (Inr ok, s\<lparr>svc_sessions := m\<rparr>)))"

definition svc_terminate :: "crypto_lib \<Rightarrow> u64 \<Rightarrow> session_request \<Rightarrow> control_service \<Rightarrow>
    (status + bool) \<times> control_service" where
  "svc_terminate lib wall req s =
     (case verify_token lib (svc_auth s) wall (req_jwt_token req) of
        Inl _ \<Rightarrow> (Inl (Unauthenticated ''invalid token''), s)
      | Inr _ \<Rightarrow>
          (let (ok, m) = terminate_session (req_session_id req) (svc_sessions s)
           in (Inr ok, s\<lparr>svc_sessions := m\<rparr>)))"

text \<open>The service as the \<open>server\<close> command sets it up: one user, a TTL of 300 seconds for
  sessions and of an hour for tokens.\<close>

definition server_setup :: "crypto_lib \<Rightarrow> bytes \<Rightarrow> bytes \<Rightarrow> bytes \<Rightarrow> bytes \<Rightarrow> u64 \<Rightarrow> control_service" where
  "server_setup lib secret salt admin_user admin_pass default_max_bps =
     \<lparr>svc_auth = add_user lib salt admin_user admin_pass (auth_engine_new secret 3600),
      svc_sessions = session_manager_new (from_millis 300000),
      svc_policies = policy_engine_new default_max_bps\<rparr>"

section \<open>Passwords\<close>

text \<open>
  What the code relies on: PBKDF2 fills the buffer it is given; the JWT crate decodes a token it
  encoded with the same secret as long as the token has not expired, and the time only decides
  whether a token has expired: an expired one is never accepted, and one accepted at some time
  is accepted with the same claims at every time up to its expiry.
\<close>

definition lib_ok :: "crypto_lib \<Rightarrow> bool" where
  "lib_ok lib \<longleftrightarrow> (\<forall>p s n. length (pbkdf2_hmac lib p s n) = HASH_LEN) \<and>
     (\<forall>k c t now. jwt_encode lib k c = Some t \<longrightarrow> now \<le> exp_at c \<longrightarrow> jwt_decode lib k now t = Some c) \<and>
     (\<forall>k t now c. jwt_decode lib k now t = Some c \<longrightarrow>
        now \<le> exp_at c \<and> (\<forall>now' \<le> exp_at c. jwt_decode lib k now' t = Some c))"

lemma word_or_eq_0: "(a :: 'a::len word) OR b = 0 \<longleftrightarrow> a = 0 \<and> b = 0"
  by (auto simp: bit_eq_iff bit_or_iff)

lemma word_xor_eq_0: "(a :: 'a::len word) XOR b = 0 \<longleftrightarrow> a = b"
  by (auto simp: bit_eq_iff bit_xor_iff)

lemma xor_fold_zero:
  "fold (\<lambda>(a, b) acc. acc OR (a XOR b)) ps (x :: u8) = 0 \<longleftrightarrow> x = 0 \<and> (\<forall>(a, b)\<in>set ps. a = b)"
  by (induction ps arbitrary: x) (auto simp: word_or_eq_0 word_xor_eq_0)

lemma xor_diff_zero: "length xs = length ys \<Longrightarrow> xor_diff xs ys = 0 \<longleftrightarrow> xs = ys"
  unfolding xor_diff_def xor_fold_zero list_eq_iff_zip_eq by simp

fun add_users :: "crypto_lib \<Rightarrow> (bytes \<times> bytes \<times> bytes) list \<Rightarrow> auth_engine \<Rightarrow> auth_engine" where
  "add_users lib [] a = a"
| "add_users lib ((user, password, salt) # us) a = add_users lib us (add_user lib salt user password a)"

text \<open>The entry of a user is the one of the last \<open>add_user\<close> under that name.\<close>

lemma users_add_users:
  "users (add_users lib us a) user =
     (case map_of (rev us) user of
        Some (password, salt) \<Rightarrow>
          Some \<lparr>user_hash = pbkdf2_hmac lib password salt PBKDF2_ITERATIONS, user_salt = salt\<rparr>
      | None \<Rightarrow> users a user)"
  by (induction lib us a rule: add_users.induct)
    (auto simp: add_user_def map_add_def split: option.splits)

text \<open>
  Password checks.  After any sequence of \<open>add_user\<close> calls, \<open>authenticate\<close> accepts a
  user name and a password exactly when the user was added and the password has the same PBKDF2
  hash, under the stored salt, as the password of the last call for that name: the comparison by
  a running OR of XORs is equality.  So the right password is always accepted, an unknown user
  never, and an earlier password only on a hash collision.
\<close>

theorem authenticate_exact:
  assumes "\<And>p s n. length (pbkdf2_hmac lib p s n) = HASH_LEN"
  shows "authenticate lib (add_users lib us (auth_engine_new secret ttl)) user password \<longleftrightarrow>
    (\<exists>stored salt. map_of (rev us) user = Some (stored, salt) \<and>
      pbkdf2_hmac lib password salt PBKDF2_ITERATIONS = pbkdf2_hmac lib stored salt PBKDF2_ITERATIONS)"
  by (auto simp: authenticate_def users_add_users auth_engine_new_def xor_diff_zero assms
      split: option.splits prod.splits)

section \<open>A library that satisfies the assumptions\<close>

text \<open>
  A concrete \<open>crypto_lib\<close> for the witnesses: the hash is a prefix of password and salt, a token
  is the secret followed by the claims.
\<close>

definition example_lib :: crypto_lib where
  "example_lib = \<lparr>pbkdf2_hmac = (\<lambda>p s n. take HASH_LEN (p @ s @ replicate HASH_LEN 0)),
     jwt_encode = (\<lambda>k c. if length (claim_sub c) < 256
       then Some (k @ be_bytes (exp_at c) @ [of_nat (length (claim_sub c))] @ claim_sub c @ claim_sid c) else None),
     jwt_decode = (\<lambda>k now t. if take (length k) t = k \<and> length k + 9 \<le> length t \<and>
         now \<le> of_be_bytes (slice (length k) (length k + 8) t)
       then Some \<lparr>claim_sub = take (unat (t ! (length k + 8))) (drop (length k + 9) t),
                  claim_sid = drop (unat (t ! (length k + 8))) (drop (length k + 9) t),
                  exp_at = of_be_bytes (slice (length k) (length k + 8) t)\<rparr>
       else None)\<rparr>"

lemma example_lib_ok: "lib_ok example_lib"
proof -
  have "length (pbkdf2_hmac example_lib p s n) = HASH_LEN" for p s n by (simp add: example_lib_def)
  moreover have "jwt_decode example_lib k now t = Some c" if e: "jwt_encode example_lib k c = Some t"
    and n: "now \<le> exp_at c" for k c t now
  proof -
    have len: "length (claim_sub c) < 256" and t: "t = k @ be_bytes (exp_at c) @ [of_nat (length (claim_sub c))] @ claim_sub c @ claim_sid c"
      using e by (auto simp: example_lib_def split: if_splits)
    have sl: "slice (length k) (length k + 8) t = be_bytes (exp_at c)"
      unfolding t by (rule slice_append_left) simp_all
    have u: "unat (of_nat (length (claim_sub c)) :: u8) = length (claim_sub c)" using len by (simp add: unat_of_nat_small)
    have nth: "t ! (length k + 8) = of_nat (length (claim_sub c))" by (simp add: t nth_append)
    have dr: "drop (length k + 9) t = claim_sub c @ claim_sid c" by (simp add: t)
    have "take (length k) t = k" "length k + 9 \<le> length t" by (simp_all add: t)
    then show ?thesis using n by (simp add: example_lib_def sl nth dr u)
  qed
  moreover have "now \<le> exp_at c \<and> (\<forall>now' \<le> exp_at c. jwt_decode example_lib k now' t = Some c)"
    if "jwt_decode example_lib k now t = Some c" for k t now c
    using that by (auto simp: example_lib_def split: if_splits)
  ultimately show ?thesis unfolding lib_ok_def by blast
qed

theorem authenticate_exact_witness:
  "let lib = example_lib; a = add_users lib [([1], [2], [3]), ([1], [4], [5])] (auth_engine_new [9] 60)
   in authenticate lib a [1] [4] \<and> \<not> authenticate lib a [1] [2] \<and> \<not> authenticate lib a [7] [4]"
proof -
  have len: "\<And>p s n. length (pbkdf2_hmac example_lib p s n) = HASH_LEN"
    using example_lib_ok by (simp add: lib_ok_def)
  show ?thesis unfolding Let_def authenticate_exact[OF len]
    by (simp add: example_lib_def HASH_LEN_def)
qed

section \<open>Runs of the service\<close>

datatype svc_call =
    AuthCall entropy "u64 option" auth_request
  | HeartbeatCall u64 instant session_request
  | TerminateCall u64 session_request

fun svc_step :: "crypto_lib \<Rightarrow> svc_call \<Rightarrow> control_service \<Rightarrow> control_service" where
  "svc_step lib (AuthCall e wall req) s = snd (svc_authenticate lib e wall req s)"
| "svc_step lib (HeartbeatCall wall now req) s = snd (svc_heartbeat lib wall now req s)"
| "svc_step lib (TerminateCall wall req) s = snd (svc_terminate lib wall req s)"

text \<open>What a call does to the session table.\<close>

fun ops_of :: "crypto_lib \<Rightarrow> auth_engine \<Rightarrow> policy_engine \<Rightarrow> svc_call \<Rightarrow> mgr_op list" where
  "ops_of lib a p (AuthCall e wall req) =
     (if authenticate lib a (req_username req) (req_password req)
      then [Create e (req_username req) (policy_max_bps (resolve p (req_username req)))] else [])"
| "ops_of lib a p (HeartbeatCall wall now req) =
     (case verify_token lib a wall (req_jwt_token req) of
        Inl _ \<Rightarrow> [] | Inr _ \<Rightarrow> [Heartbeat now (req_session_id req)])"
| "ops_of lib a p (TerminateCall wall req) =
     (case verify_token lib a wall (req_jwt_token req) of
        Inl _ \<Rightarrow> [] | Inr _ \<Rightarrow> [Terminate (req_session_id req)])"

lemmas svc_defs = svc_authenticate_def svc_heartbeat_def svc_terminate_def

lemma svc_step_ops:
  "svc_auth (svc_step lib c s) = svc_auth s" "svc_policies (svc_step lib c s) = svc_policies s"
  "svc_sessions (svc_step lib c s) =
     fold apply_op (ops_of lib (svc_auth s) (svc_policies s) c) (svc_sessions s)"
  by (cases c; simp add: svc_defs Let_def case_prod_unfold split: sum.splits)+

lemma svc_run_ops:
  "svc_auth (fold (svc_step lib) cs s) = svc_auth s"
  "svc_sessions (fold (svc_step lib) cs s) =
     fold apply_op (concat (map (ops_of lib (svc_auth s) (svc_policies s)) cs)) (svc_sessions s)"
  by (induction cs arbitrary: s) (simp_all add: svc_step_ops)

text \<open>Every session in the table comes from a login.\<close>

lemma session_from_login:
  assumes "get_clone (svc_sessions (fold (svc_step lib) calls s)) k = Some info"
    "svc_sessions s = session_manager_new ttl"
  shows "\<exists>e wall req. AuthCall e wall req \<in> set calls \<and>
    authenticate lib (svc_auth s) (req_username req) (req_password req) \<and>
    k = new_uuid e \<and> session_uuid info = k \<and> session_user info = req_username req \<and>
    max_bps info = policy_max_bps (resolve (svc_policies s) (req_username req)) \<and>
    session_key info = key_bytes e \<and> session_nonce info = nonce_bytes e"
proof -
  let ?ops = "concat (map (ops_of lib (svc_auth s) (svc_policies s)) calls)"
  have "get_clone (fold apply_op ?ops (session_manager_new ttl)) k = Some info"
    using assms by (simp add: svc_run_ops)
  from session_origin[OF this] obtain e user bps where c: "Create e user bps \<in> set ?ops" "k = new_uuid e" "session_uuid info = k"
    "session_user info = user" "max_bps info = bps" "session_key info = key_bytes e"
    "session_nonce info = nonce_bytes e"
    by (auto simp: session_manager_new_def get_clone_def)
  from c(1) obtain call where call: "call \<in> set calls"
    "Create e user bps \<in> set (ops_of lib (svc_auth s) (svc_policies s) call)" by auto
  show ?thesis
  proof (cases call)
    case (AuthCall e' wall req)
    then have "e' = e" "authenticate lib (svc_auth s) (req_username req) (req_password req)"
      "user = req_username req" "bps = policy_max_bps (resolve (svc_policies s) (req_username req))"
      using call(2) by (auto split: if_splits)
    then show ?thesis using AuthCall call(1) c
      by (intro exI[of _ e] exI[of _ wall] exI[of _ req]) simp
  qed (use call(2) in \<open>auto split: sum.splits\<close>)
qed

lemma login_reply:
  "svc_authenticate lib e wall req s = (Inr r, s') \<Longrightarrow>
   resp_session_id r = new_uuid e \<and> resp_session_key r = key_bytes e \<and> resp_session_nonce r = nonce_bytes e \<and>
   resp_max_bps r = policy_max_bps (resolve (svc_policies s) (req_username req))"
  by (auto simp: svc_authenticate_def create_session_def Let_def split: sum.splits if_splits)

text \<open>
  C14: sessions need credentials.  In every run of the service, whatever calls arrive in
  whatever order with whatever tokens, each session in the table was opened by an \<open>Authenticate\<close>
  call whose user name and password the user database accepts; it carries that user's name and
  bandwidth ceiling and the key and nonce drawn in that call, and the service hands the same
  values out in the reply.
\<close>

theorem sessions_need_credentials:
  assumes "get_clone (svc_sessions (fold (svc_step lib) calls s)) k = Some info"
    "svc_sessions s = session_manager_new ttl"
  shows "\<exists>e wall req. AuthCall e wall req \<in> set calls \<and>
    authenticate lib (svc_auth s) (req_username req) (req_password req) \<and>
    k = new_uuid e \<and> session_user info = req_username req \<and>
    max_bps info = policy_max_bps (resolve (svc_policies s) (req_username req)) \<and>
    session_key info = key_bytes e \<and> session_nonce info = nonce_bytes e \<and>
    (\<forall>r s'. svc_authenticate lib e wall req s = (Inr r, s') \<longrightarrow>
      resp_session_id r = k \<and> resp_session_key r = session_key info \<and>
      resp_session_nonce r = session_nonce info \<and> resp_max_bps r = max_bps info)"
proof -
  obtain e wall req where login: "AuthCall e wall req \<in> set calls"
    "authenticate lib (svc_auth s) (req_username req) (req_password req)"
    "k = new_uuid e" "session_user info = req_username req"
    "max_bps info = policy_max_bps (resolve (svc_policies s) (req_username req))"
    "session_key info = key_bytes e" "session_nonce info = nonce_bytes e"
    using session_from_login[OF assms] by blast
  then show ?thesis using login_reply[of lib e wall req s] by (intro exI[of _ e] exI[of _ wall] exI[of _ req]) simp
qed

text \<open>One authenticated call opens a session, a heartbeat with its token keeps it.\<close>

definition example_service :: control_service where
  "example_service = server_setup example_lib [9] [3] [1] [2] 1000"

definition example_entropy :: entropy where
  "example_entropy = \<lparr>key_bytes = [5], nonce_bytes = [6], new_uuid = [7], instant_now = 10\<rparr>"

definition example_login :: auth_request where
  "example_login = \<lparr>req_username = [1], req_password = [2]\<rparr>"

lemma example_authenticates:
  "authenticate example_lib (svc_auth example_service) [1] [2]"
  by (simp add: example_service_def server_setup_def add_user_def authenticate_def auth_engine_new_def
      xor_diff_zero)

lemma example_session:
  "get_clone (svc_sessions (snd (svc_authenticate example_lib example_entropy wall example_login example_service))) [7] \<noteq> None"
  by (simp add: svc_authenticate_def example_login_def example_authenticates Let_def case_prod_unfold
      create_session_def get_clone_def example_entropy_def split: sum.splits)

theorem sessions_need_credentials_witness:
  "let s = fold (svc_step example_lib) [AuthCall example_entropy (Some 100) example_login] example_service
   in \<exists>info. get_clone (svc_sessions s) [7] = Some info \<and> session_user info = [1] \<and> max_bps info = 1000"
proof -
  have "get_clone (svc_sessions (fold (svc_step example_lib)
      [AuthCall example_entropy (Some 100) example_login] example_service)) [7] \<noteq> None"
    using example_session[of "Some 100"] by simp
  then obtain info where info: "get_clone (svc_sessions (fold (svc_step example_lib)
      [AuthCall example_entropy (Some 100) example_login] example_service)) [7] = Some info" by blast
  moreover have "svc_sessions example_service = session_manager_new (from_millis 300000)"
    by (simp add: example_service_def server_setup_def)
  from sessions_need_credentials[OF info this]
  have "session_user info = [1] \<and> max_bps info = 1000"
    by (auto simp: example_login_def example_service_def server_setup_def policy_engine_new_def resolve_def)
  ultimately show ?thesis unfolding Let_def by blast
qed

section \<open>The life of a session\<close>

lemma issue_verify:
  assumes "lib_ok lib" "issue_token lib a (Some w) user k = Inr token"
  shows "now \<le> saturating_add w (token_ttl_secs a) \<Longrightarrow>
      verify_token lib a now token = Inr \<lparr>claim_sub = user, claim_sid = k, exp_at = saturating_add w (token_ttl_secs a)\<rparr>"
    and "saturating_add w (token_ttl_secs a) < now \<Longrightarrow> \<exists>e. verify_token lib a now token = Inl e"
proof -
  let ?c = "\<lparr>claim_sub = user, claim_sid = k, exp_at = saturating_add w (token_ttl_secs a)\<rparr>"
  have enc: "jwt_encode lib (jwt_secret a) ?c = Some token"
    using assms(2) by (simp add: issue_token_def split: option.splits)
  have ok: "jwt_decode lib (jwt_secret a) t token = Some ?c" if "t \<le> exp_at ?c" for t
    using assms(1) enc that unfolding lib_ok_def by blast
  then show "now \<le> saturating_add w (token_ttl_secs a) \<Longrightarrow> verify_token lib a now token = Inr ?c"
    by (simp add: verify_token_def)
  assume late: "saturating_add w (token_ttl_secs a) < now"
  show "\<exists>e. verify_token lib a now token = Inl e"
  proof (cases "jwt_decode lib (jwt_secret a) now token")
    case (Some c)
    then have c: "now \<le> exp_at c \<and> (\<forall>now' \<le> exp_at c. jwt_decode lib (jwt_secret a) now' token = Some c)"
      using assms(1) unfolding lib_ok_def by blast
    then have "jwt_decode lib (jwt_secret a) 0 token = Some c" by simp
    then show ?thesis using c late ok[of 0] by (auto dest: leD)
  qed (simp add: verify_token_def)
qed

lemma table_facts:
  "get_clone (snd (heartbeat_session now k m)) k = map_option (\<lambda>i. i\<lparr>last_heartbeat := now\<rparr>) (get_clone m k)"
  "fst (heartbeat_session now k m) \<longleftrightarrow> get_clone m k \<noteq> None"
  "get_clone (snd (terminate_session k m)) k = None"
  "fst (terminate_session k m) \<longleftrightarrow> get_clone m k \<noteq> None"
  by (auto simp: manager_defs split: option.splits)

text \<open>A valid token acts on the session named in the request, whichever session it was issued for.\<close>

lemma valid_token_acts_on_any_session:
  assumes "verify_token lib (svc_auth s) wall (req_jwt_token req) = Inr c"
  shows "svc_heartbeat lib wall now req s = (Inr (get_clone (svc_sessions s) (req_session_id req) \<noteq> None),
      s\<lparr>svc_sessions := snd (heartbeat_session now (req_session_id req) (svc_sessions s))\<rparr>)"
    and "svc_terminate lib wall req s = (Inr (get_clone (svc_sessions s) (req_session_id req) \<noteq> None),
      s\<lparr>svc_sessions := snd (terminate_session (req_session_id req) (svc_sessions s))\<rparr>)"
  using assms table_facts(2)[of now "req_session_id req" "svc_sessions s"]
    table_facts(4)[of "req_session_id req" "svc_sessions s"]
  by (simp_all add: svc_defs case_prod_unfold)

text \<open>When no token can be issued the call fails but the session it created stays in the table.\<close>

lemma failed_token_leaves_session:
  assumes "authenticate lib (svc_auth s) (req_username req) (req_password req)"
  shows "svc_authenticate lib e None req s = (Inl (Internal ''system clock error''),
      s\<lparr>svc_sessions := snd (create_session e (req_username req)
        (policy_max_bps (resolve (svc_policies s) (req_username req))) (svc_sessions s))\<rparr>)"
  using assms by (simp add: svc_authenticate_def issue_token_def error_text_def Let_def case_prod_unfold)

lemma login_opens_session:
  assumes "svc_authenticate lib e wall req s = (Inr r, s')"
  shows "resp_session_id r = new_uuid e" "get_clone (svc_sessions s') (new_uuid e) \<noteq> None"
    "svc_auth s' = svc_auth s" "\<exists>w. wall = Some w"
    "issue_token lib (svc_auth s) wall (req_username req) (new_uuid e) = Inr (resp_jwt_token r)"
  using assms
  by (auto simp: svc_authenticate_def create_session_def get_clone_def Let_def issue_token_def
      split: if_splits sum.splits option.splits)

text \<open>A session stays in the table while nobody terminates it.\<close>

lemma session_survives_calls:
  assumes "get_clone (svc_sessions s) k \<noteq> None"
    "\<forall>wall q. TerminateCall wall q \<in> set calls \<longrightarrow> req_session_id q \<noteq> k"
  shows "get_clone (svc_sessions (fold (svc_step lib) calls s)) k \<noteq> None"
proof -
  let ?ops = "concat (map (ops_of lib (svc_auth s) (svc_policies s)) calls)"
  have "\<forall>op\<in>set ?ops. op \<noteq> Terminate k \<and> (\<forall>t. op \<noteq> Reap t)"
  proof (intro ballI conjI allI notI)
    fix op assume "op \<in> set ?ops"
    then obtain c where c: "c \<in> set calls" "op \<in> set (ops_of lib (svc_auth s) (svc_policies s) c)" by auto
    show False if "op = Terminate k"
    proof (cases c)
      case (TerminateCall x1 q1)
      then have "req_session_id q1 = k" using c(2) that by (auto split: sum.splits)
      then show False using c(1) assms(2) TerminateCall by blast
    qed (use c(2) that in \<open>auto split: if_splits sum.splits\<close>)
    show False if "op = Reap t" for t using c(2) that by (cases c) (auto split: if_splits sum.splits)
  qed
  then have "last_seen (fold apply_op ?ops (svc_sessions s)) k \<noteq> None"
    using assms(1) by (intro mgr.seen_stays) (auto simp: last_seen_def)
  then show ?thesis by (simp add: svc_run_ops last_seen_def)
qed

text \<open>What a valid token does to its session: it is kept alive, and it can be terminated once.\<close>

lemma valid_token_lifecycle:
  assumes "verify_token lib (svc_auth s) wall (req_jwt_token q) = Inr c" "get_clone (svc_sessions s) (req_session_id q) \<noteq> None"
  shows "fst (svc_heartbeat lib wall now q s) = Inr True \<and> fst (svc_terminate lib wall q s) = Inr True \<and>
    fst (svc_heartbeat lib wall now q (snd (svc_terminate lib wall q s))) = Inr False \<and>
    fst (svc_terminate lib wall q (snd (svc_terminate lib wall q s))) = Inr False"
proof -
  note v = valid_token_acts_on_any_session[OF assms(1)]
  let ?s = "snd (svc_terminate lib wall q s)"
  have s: "svc_auth ?s = svc_auth s" "get_clone (svc_sessions ?s) (req_session_id q) = None"
    using v(2) table_facts(3) by simp_all
  have "verify_token lib (svc_auth ?s) wall (req_jwt_token q) = Inr c" using assms(1) s(1) by simp
  note v' = valid_token_acts_on_any_session[OF this]
  show ?thesis using v v' s(2) assms(2) by simp
qed

text \<open>
  C15: the life of a session.  The reply to a successful \<open>Authenticate\<close> names a session and
  holds a token.  However many calls about other sessions and heartbeats come in between, until
  the token expires a heartbeat with it is accepted and reports the session alive, and a
  \<open>Terminate\<close> with it removes the session and reports that it existed, after which both report
  that it is gone.  From the second after its expiry on, the token is refused and nothing changes.
\<close>

theorem session_lifecycle:
  assumes "lib_ok lib" "svc_authenticate lib e (Some w) req s = (Inr r, s1)"
    "\<forall>wall q. TerminateCall wall q \<in> set calls \<longrightarrow> req_session_id q \<noteq> resp_session_id r"
    "s2 = fold (svc_step lib) calls s1"
    "q = \<lparr>req_session_id = resp_session_id r, req_jwt_token = resp_jwt_token r\<rparr>"
    "expiry = saturating_add w (token_ttl_secs (svc_auth s))"
  shows "(wall \<le> expiry \<longrightarrow>
      fst (svc_heartbeat lib wall now q s2) = Inr True \<and>
      fst (svc_terminate lib wall q s2) = Inr True \<and>
      fst (svc_heartbeat lib wall now q (snd (svc_terminate lib wall q s2))) = Inr False \<and>
      fst (svc_terminate lib wall q (snd (svc_terminate lib wall q s2))) = Inr False) \<and>
    (expiry < wall \<longrightarrow>
      svc_heartbeat lib wall now q s2 = (Inl (Unauthenticated ''invalid token''), s2) \<and>
      svc_terminate lib wall q s2 = (Inl (Unauthenticated ''invalid token''), s2))"
proof -
  note lg = login_opens_session[OF assms(2)]
  have auth: "svc_auth s2 = svc_auth s" using assms(4) lg(3) by (simp add: svc_run_ops)
  have q: "req_session_id q = new_uuid e" "req_jwt_token q = resp_jwt_token r" using assms(5) lg(1) by simp_all
  have "get_clone (svc_sessions s2) (req_session_id q) \<noteq> None"
    unfolding assms(4) q(1) using lg(1,2) assms(3) by (intro session_survives_calls) simp_all
  moreover have "verify_token lib (svc_auth s2) wall (req_jwt_token q) =
      Inr \<lparr>claim_sub = req_username req, claim_sid = new_uuid e, exp_at = expiry\<rparr>" if "wall \<le> expiry"
    using issue_verify(1)[OF assms(1) lg(5)] that assms(6) auth q by simp
  moreover have "\<exists>x. verify_token lib (svc_auth s2) wall (req_jwt_token q) = Inl x" if "expiry < wall"
    using issue_verify(2)[OF assms(1) lg(5)] that assms(6) auth q by simp
  then have "svc_heartbeat lib wall now q s2 = (Inl (Unauthenticated ''invalid token''), s2) \<and>
      svc_terminate lib wall q s2 = (Inl (Unauthenticated ''invalid token''), s2)" if "expiry < wall"
    using that by (auto simp: svc_defs)
  ultimately show ?thesis using valid_token_lifecycle[of lib s2 wall q _ now] by blast
qed

lemma example_encodes: "length (claim_sub c) < 256 \<Longrightarrow> \<exists>token. jwt_encode example_lib k c = Some token"
  by (simp add: example_lib_def)

lemma example_login_reply:
  "\<exists>r s1. svc_authenticate example_lib example_entropy (Some 100) example_login example_service = (Inr r, s1) \<and>
     resp_session_id r = [7]"
proof -
  obtain token where "issue_token example_lib (svc_auth example_service) (Some 100) [1] [7] = Inr token"
    using example_encodes[of "\<lparr>claim_sub = [1], claim_sid = [7],
      exp_at = saturating_add 100 (token_ttl_secs (svc_auth example_service))\<rparr>"
      "jwt_secret (svc_auth example_service)"] by (auto simp: issue_token_def)
  then show ?thesis
    by (simp add: svc_authenticate_def example_login_def example_authenticates Let_def
      create_session_def example_entropy_def)
qed

theorem session_lifecycle_witness:
  "\<exists>r s1. svc_authenticate example_lib example_entropy (Some 100) example_login example_service = (Inr r, s1) \<and>
     (let q = \<lparr>req_session_id = [7], req_jwt_token = resp_jwt_token r\<rparr>
      in fst (svc_terminate example_lib 3700 q s1) = Inr True \<and>
         svc_terminate example_lib 3701 q s1 = (Inl (Unauthenticated ''invalid token''), s1))"
proof -
  obtain r s1 where r: "svc_authenticate example_lib example_entropy (Some 100) example_login example_service = (Inr r, s1)"
    "resp_session_id r = [7]" using example_login_reply by blast
  have ttl: "saturating_add 100 (token_ttl_secs (svc_auth example_service)) = 3700"
    by (simp add: example_service_def server_setup_def add_user_def auth_engine_new_def saturating_add_def)
  note life = session_lifecycle[OF example_lib_ok r(1), where calls = "[]", simplified, OF refl refl refl]
  show ?thesis using r life[of 3700] life[of 3701] unfolding Let_def ttl by auto
qed

end
