(* ===== verification/Stun.thy ===== *)
theory Stun
  imports Prelude
begin

text \<open>
  The STUN client (\<^verbatim>\<open>crates/traversal/src/stun.rs\<close>): socket addresses, the message format,
  its parser, the decoding of mapped addresses and the exchange of one Binding Request.  The
  random transaction identifier and the network are arguments: \<open>net\<close> maps a target and a
  datagram to what the socket reports.
\<close>

section \<open>Addresses and the network\<close>

datatype ip_addr = V4 u32 | V6 "128 word"

record socket_addr =
  ip :: ip_addr
  port :: u16

definition is_ipv4 :: "socket_addr \<Rightarrow> bool" where
  "is_ipv4 a = (case ip a of V4 _ \<Rightarrow> True | V6 _ \<Rightarrow> False)"

text \<open>What sending a datagram and waiting for the answer with a time limit can report.\<close>

datatype net_reply = Reply bytes | SendFailed | TimedOut | RecvFailed

section \<open>Messages\<close>

definition MAGIC_COOKIE :: u32 where "MAGIC_COOKIE = 0x2112A442"
definition BINDING_REQUEST :: u16 where "BINDING_REQUEST = 0x0001"
definition BINDING_SUCCESS :: u16 where "BINDING_SUCCESS = 0x0101"
definition BINDING_ERROR :: u16 where "BINDING_ERROR = 0x0111"
definition ATTR_MAPPED :: u16 where "ATTR_MAPPED = 0x0001"
definition ATTR_XOR_MAPPED :: u16 where "ATTR_XOR_MAPPED = 0x0020"
definition HEADER_LEN :: nat where "HEADER_LEN = 20"
definition ATTR_HDR_LEN :: nat where [simp]: "ATTR_HDR_LEN = 4"

datatype stun_attribute =
    XorMappedAddress socket_addr
  | MappedAddress socket_addr
  | UnknownAttr u16 bytes

record stun_message =
  msg_type :: u16
  transaction_id :: bytes
  attributes :: "stun_attribute list"

datatype stun_error =
    MessageTooShort nat
  | CookieMismatch u32
  | BufferTooShort
  | AttributeOverflow
  | XorMappedTooShort
  | XorMappedV4TooShort
  | XorMappedV6TooShort
  | XorMappedFamily u8
  | MappedTooShort
  | MappedV4TooShort
  | MappedV6NotImplemented

definition new_binding_request :: "bytes \<Rightarrow> stun_message" where
  "new_binding_request tid = \<lparr>msg_type = BINDING_REQUEST, transaction_id = tid, attributes = []\<rparr>"

text \<open>An attribute on the wire: type, length, value, zeros up to a multiple of four.\<close>

definition tlv :: "u16 \<Rightarrow> bytes \<Rightarrow> bytes" where
  "tlv t v = be_bytes t @ be_bytes (of_nat (length v) :: u16) @ v @ replicate ((4 - length v mod 4) mod 4) 0"

definition serialise_attribute :: "stun_attribute \<Rightarrow> bytes" where
  "serialise_attribute a = (case a of UnknownAttr t d \<Rightarrow> tlv t d | _ \<Rightarrow> [])"

definition serialise_stun :: "stun_message \<Rightarrow> bytes" where
  "serialise_stun m =
     (let attrs = concat (map serialise_attribute (attributes m))
      in be_bytes (msg_type m) @ be_bytes (of_nat (length attrs) :: u16) @ be_bytes MAGIC_COOKIE @
         transaction_id m @ attrs)"

section \<open>Parsing\<close>

definition xor_bytes :: "bytes \<Rightarrow> bytes \<Rightarrow> bytes" where
  "xor_bytes xs ys = map2 (XOR) xs ys"

definition cookie_port :: u16 where
  "cookie_port = ucast (drop_bit 16 MAGIC_COOKIE)"

definition decode_xor_mapped :: "bytes \<Rightarrow> bytes \<Rightarrow> stun_error + socket_addr" where
  "decode_xor_mapped val tid =
     (if length val < 4 then Inl XorMappedTooShort
      else
        let family = val ! 1;
            p = of_be_bytes (slice 2 4 val) XOR cookie_port
        in if family = 1 then
             (if length val < 8 then Inl XorMappedV4TooShort
              else Inr \<lparr>ip = V4 (of_be_bytes (slice 4 8 val) XOR MAGIC_COOKIE), port = p\<rparr>)
           else if family = 2 then
             (if length val < 20 then Inl XorMappedV6TooShort
              else Inr \<lparr>ip = V6 (of_be_bytes (xor_bytes (slice 4 20 val) (be_bytes MAGIC_COOKIE @ tid))),
                        port = p\<rparr>)
           else Inl (XorMappedFamily family))"

definition decode_mapped :: "bytes \<Rightarrow> stun_error + socket_addr" where
  "decode_mapped val =
     (if length val < 4 then Inl MappedTooShort
      else
        let family = val ! 1;
            p = of_be_bytes (slice 2 4 val)
        in if family = 1 then
             (if length val < 8 then Inl MappedV4TooShort
              else Inr \<lparr>ip = V4 (of_be_bytes (slice 4 8 val)), port = p\<rparr>)
           else Inl MappedV6NotImplemented)"

definition parse_attribute :: "bytes \<Rightarrow> u16 \<Rightarrow> bytes \<Rightarrow> stun_error + stun_attribute" where
  "parse_attribute tid attr_type val =
     (if attr_type = ATTR_XOR_MAPPED then map_sum id XorMappedAddress (decode_xor_mapped val tid)
      else if attr_type = ATTR_MAPPED then map_sum id MappedAddress (decode_mapped val)
      else Inr (UnknownAttr attr_type val))"

function parse_attributes :: "bytes \<Rightarrow> bytes \<Rightarrow> nat \<Rightarrow> stun_error + stun_attribute list" where
  "parse_attributes buf tid pos =
     (if length buf < pos + ATTR_HDR_LEN then Inr []
      else
        let attr_type = of_be_bytes (slice pos (pos + 2) buf);
            attr_len = unat (of_be_bytes (slice (pos + 2) (pos + 4) buf) :: u16)
        in if length buf < pos + ATTR_HDR_LEN + attr_len then Inl AttributeOverflow
           else
             case parse_attribute tid attr_type
                    (slice (pos + ATTR_HDR_LEN) (pos + ATTR_HDR_LEN + attr_len) buf) of
               Inl e \<Rightarrow> Inl e
             | Inr attr \<Rightarrow>
                 (case parse_attributes buf tid (pos + ATTR_HDR_LEN + (attr_len + (4 - attr_len mod 4) mod 4)) of
                    Inl e \<Rightarrow> Inl e
                  | Inr attrs \<Rightarrow> Inr (attr # attrs)))"
  by pat_completeness auto
termination
  by (relation "measure (\<lambda>(buf, tid, pos). length buf - pos)") auto

declare parse_attributes.simps [simp del]

definition parse_stun :: "bytes \<Rightarrow> stun_error + stun_message" where
  "parse_stun buf =
     (if length buf < HEADER_LEN then Inl (MessageTooShort (length buf))
      else
        let t = of_be_bytes (slice 0 2 buf);
            attr_len = unat (of_be_bytes (slice 2 4 buf) :: u16);
            cookie = of_be_bytes (slice 4 8 buf);
            tid = slice 8 20 buf
        in if cookie \<noteq> MAGIC_COOKIE then Inl (CookieMismatch cookie)
           else if length buf < HEADER_LEN + attr_len then Inl BufferTooShort
           else
             case parse_attributes (slice HEADER_LEN (HEADER_LEN + attr_len) buf) tid 0 of
               Inl e \<Rightarrow> Inl e
             | Inr attrs \<Rightarrow> Inr \<lparr>msg_type = t, transaction_id = tid, attributes = attrs\<rparr>)"

fun mapped_addr_loop :: "stun_attribute list \<Rightarrow> socket_addr option \<Rightarrow> socket_addr option" where
  "mapped_addr_loop [] fallback = fallback"
| "mapped_addr_loop (XorMappedAddress a # as) fallback = Some a"
| "mapped_addr_loop (MappedAddress a # as) fallback = mapped_addr_loop as (Some a)"
| "mapped_addr_loop (UnknownAttr t d # as) fallback = mapped_addr_loop as fallback"

definition mapped_addr :: "stun_message \<Rightarrow> socket_addr option" where
  "mapped_addr m = mapped_addr_loop (attributes m) None"

section \<open>The exchange\<close>

datatype discover_error =
    StunSend
  | StunTimeout
  | StunRecv
  | StunParse stun_error
  | NotBindingSuccess u16
  | NoMappedAddress
  | BindFailed

definition discover_with_socket ::
  "(socket_addr \<Rightarrow> bytes \<Rightarrow> net_reply) \<Rightarrow> bytes \<Rightarrow> socket_addr \<Rightarrow> discover_error + socket_addr" where
  "discover_with_socket net tid stun_addr =
     (case net stun_addr (serialise_stun (new_binding_request tid)) of
        SendFailed \<Rightarrow> Inl StunSend
      | TimedOut \<Rightarrow> Inl StunTimeout
      | RecvFailed \<Rightarrow> Inl StunRecv
      | Reply datagram \<Rightarrow>
          (case parse_stun (take 512 datagram) of
             Inl e \<Rightarrow> Inl (StunParse e)
           | Inr resp \<Rightarrow>
               if msg_type resp \<noteq> BINDING_SUCCESS then Inl (NotBindingSuccess (msg_type resp))
               else case mapped_addr resp of
                      None \<Rightarrow> Inl NoMappedAddress
                    | Some a \<Rightarrow> Inr a))"

definition discover_public_addr ::
  "bool \<Rightarrow> (socket_addr \<Rightarrow> bytes \<Rightarrow> net_reply) \<Rightarrow> bytes \<Rightarrow> socket_addr \<Rightarrow> discover_error + socket_addr" where
  "discover_public_addr bind_ok net tid stun_addr =
     (if bind_ok then discover_with_socket net tid stun_addr else Inl BindFailed)"

section \<open>Attributes as a sequence of type-length-value records\<close>

lemma length_tlv [simp]: "length (tlv t v) = 4 + (length v + (4 - length v mod 4) mod 4)"
  by (simp add: tlv_def)

lemma slice_at: "length pre = a \<Longrightarrow> b = a + length mid \<Longrightarrow> slice a b (pre @ mid @ post) = mid"
  by (simp add: slice_def)

text \<open>What a parser reads at the start of an attribute.\<close>

lemma tlv_read:
  assumes "length v < 2 ^ 16" "buf = pre @ tlv t v @ post" "pos = length pre"
  shows "of_be_bytes (slice pos (pos + 2) buf) = t"
    "unat (of_be_bytes (slice (pos + 2) (pos + 4) buf) :: u16) = length v"
    "slice (pos + 4) (pos + 4 + length v) buf = v"
    "pos + 4 + length v \<le> length buf"
proof -
  let ?l = "of_nat (length v) :: u16" and ?pad = "replicate ((4 - length v mod 4) mod 4) 0"
  have "slice pos (pos + 2) buf = be_bytes t" unfolding assms(2,3) tlv_def append_assoc
    by (rule slice_at) simp_all
  then show "of_be_bytes (slice pos (pos + 2) buf) = t" by simp
  have "slice (pos + 2) (pos + 4) ((pre @ be_bytes t) @ be_bytes ?l @ (v @ ?pad @ post)) = be_bytes ?l"
    by (rule slice_at) (simp_all add: assms(3))
  then show "unat (of_be_bytes (slice (pos + 2) (pos + 4) buf) :: u16) = length v"
    using assms(1,2) by (simp add: tlv_def unat_of_nat_small)
  have "slice (pos + 4) (pos + 4 + length v) ((pre @ be_bytes t @ be_bytes ?l) @ v @ (?pad @ post)) = v"
    by (rule slice_at) (simp_all add: assms(3))
  then show "slice (pos + 4) (pos + 4 + length v) buf = v" using assms(2) by (simp add: tlv_def)
  show "pos + 4 + length v \<le> length buf" by (simp add: assms(2,3))
qed

definition tlvs :: "(u16 \<times> bytes) list \<Rightarrow> bytes" where
  "tlvs tvs = concat (map (\<lambda>(t, v). tlv t v) tvs)"

lemma tlvs_simps [simp]: "tlvs [] = []" "tlvs ((t, v) # tvs) = tlv t v @ tlvs tvs"
  by (simp_all add: tlvs_def)

text \<open>Attributes decoded one after the other, up to the first that does not decode.\<close>

fun decode_all :: "bytes \<Rightarrow> (u16 \<times> bytes) list \<Rightarrow> stun_error + stun_attribute list" where
  "decode_all tid [] = Inr []"
| "decode_all tid ((t, v) # tvs) = (case parse_attribute tid t v of
     Inl e \<Rightarrow> Inl e
   | Inr a \<Rightarrow> map_sum id ((#) a) (decode_all tid tvs))"

lemma parse_attributes_decode:
  assumes "\<forall>(t, v)\<in>set tvs. length v < 2 ^ 16"
  shows "parse_attributes (pre @ tlvs tvs) tid (length pre) = decode_all tid tvs"
  using assms
proof (induction tvs arbitrary: pre)
  case Nil
  then show ?case by (simp add: parse_attributes.simps)
next
  case (Cons tv tvs)
  obtain t v where tv: "tv = (t, v)" by (cases tv)
  let ?buf = "pre @ tlv t v @ tlvs tvs"
  have len: "length v < 2 ^ 16" using Cons.prems tv by auto
  note rd = tlv_read[OF len refl refl, of pre t "tlvs tvs"]
  have "parse_attributes ((pre @ tlv t v) @ tlvs tvs) tid (length (pre @ tlv t v)) = decode_all tid tvs"
    by (rule Cons.IH) (use Cons.prems in auto)
  then have "parse_attributes ?buf tid (length pre + 4 + (length v + (4 - length v mod 4) mod 4)) =
      decode_all tid tvs" by (simp add: ac_simps)
  then have "parse_attributes ?buf tid (length pre) = decode_all tid ((t, v) # tvs)"
    by (subst parse_attributes.simps) (use rd in \<open>simp add: Let_def split: sum.split\<close>)
  then show ?case by (simp add: tv)
qed

lemma decode_all_ok:
  "\<forall>(t, v)\<in>set tvs. parse_attribute tid t v = Inr (f t v) \<Longrightarrow> decode_all tid tvs = Inr (map (\<lambda>(t, v). f t v) tvs)"
  by (induction tid tvs rule: decode_all.induct) auto

text \<open>A whole message: the 20-byte header and the attributes.\<close>

definition stun_packet :: "u16 \<Rightarrow> bytes \<Rightarrow> (u16 \<times> bytes) list \<Rightarrow> bytes" where
  "stun_packet t tid tvs =
     be_bytes t @ be_bytes (of_nat (length (tlvs tvs)) :: u16) @ be_bytes MAGIC_COOKIE @ tid @ tlvs tvs"

lemma length_stun_packet [simp]: "length tid = 12 \<Longrightarrow> length (stun_packet t tid tvs) = 20 + length (tlvs tvs)"
  by (simp add: stun_packet_def)

lemma stun_packet_read:
  assumes "length tid = 12" "length (tlvs tvs) < 2 ^ 16" "buf = stun_packet t tid tvs @ rest"
  shows "of_be_bytes (slice 0 2 buf) = t" "unat (of_be_bytes (slice 2 4 buf) :: u16) = length (tlvs tvs)"
    "of_be_bytes (slice 4 8 buf) = MAGIC_COOKIE" "slice 8 20 buf = tid"
    "slice 20 (20 + length (tlvs tvs)) buf = tlvs tvs"
proof -
  let ?l = "of_nat (length (tlvs tvs)) :: u16" and ?c = "be_bytes MAGIC_COOKIE"
  have buf: "buf = [] @ be_bytes t @ (be_bytes ?l @ ?c @ tid @ tlvs tvs @ rest)"
    "buf = be_bytes t @ be_bytes ?l @ (?c @ tid @ tlvs tvs @ rest)"
    "buf = (be_bytes t @ be_bytes ?l) @ ?c @ (tid @ tlvs tvs @ rest)"
    "buf = (be_bytes t @ be_bytes ?l @ ?c) @ tid @ (tlvs tvs @ rest)"
    "buf = (be_bytes t @ be_bytes ?l @ ?c @ tid) @ tlvs tvs @ rest"
    by (simp_all add: assms(3) stun_packet_def)
  have "slice 0 2 buf = be_bytes t" by (subst buf(1), rule slice_at) simp_all
  then show "of_be_bytes (slice 0 2 buf) = t" by simp
  have "slice 2 4 buf = be_bytes ?l" by (subst buf(2), rule slice_at) simp_all
  then show "unat (of_be_bytes (slice 2 4 buf) :: u16) = length (tlvs tvs)"
    using assms(2) by (simp add: unat_of_nat_small)
  have "slice 4 8 buf = ?c" by (subst buf(3), rule slice_at) simp_all
  then show "of_be_bytes (slice 4 8 buf) = MAGIC_COOKIE" by simp
  show "slice 8 20 buf = tid" by (subst buf(4), rule slice_at) (simp_all add: assms(1))
  show "slice 20 (20 + length (tlvs tvs)) buf = tlvs tvs"
    by (subst buf(5), rule slice_at) (simp_all add: assms(1))
qed

lemma parse_stun_decode:
  assumes "length tid = 12" "length (tlvs tvs) < 2 ^ 16" "\<forall>(t, v)\<in>set tvs. length v < 2 ^ 16"
  shows "parse_stun (stun_packet t tid tvs @ rest) =
    map_sum id (\<lambda>as. \<lparr>msg_type = t, transaction_id = tid, attributes = as\<rparr>) (decode_all tid tvs)"
proof -
  note rd = stun_packet_read[OF assms(1,2) refl, of t rest]
  have "parse_attributes (tlvs tvs) tid 0 = decode_all tid tvs"
    using parse_attributes_decode[OF assms(3), of "[]"] by simp
  then show ?thesis unfolding parse_stun_def HEADER_LEN_def Let_def rd
    by (simp add: assms(1) split: sum.split)
qed

lemma parse_stun_packet:
  assumes "length tid = 12" "length (tlvs tvs) < 2 ^ 16"
    "\<forall>(t, v)\<in>set tvs. length v < 2 ^ 16 \<and> parse_attribute tid t v = Inr (f t v)"
  shows "parse_stun (stun_packet t tid tvs @ rest) =
    Inr \<lparr>msg_type = t, transaction_id = tid, attributes = map (\<lambda>(t, v). f t v) tvs\<rparr>"
proof -
  have ok: "\<forall>(t, v)\<in>set tvs. length v < 2 ^ 16" "\<forall>(t, v)\<in>set tvs. parse_attribute tid t v = Inr (f t v)"
    using assms(3) by auto
  show ?thesis by (simp add: parse_stun_decode[OF assms(1,2) ok(1)] decode_all_ok[OF ok(2)])
qed

lemma tlvs_member_length: "(t, v) \<in> set tvs \<Longrightarrow> length v \<le> length (tlvs tvs)"
  by (induction tvs) auto

section \<open>Round trip\<close>

text \<open>The messages the client can write: opaque attributes under other types than the mapped addresses.\<close>

fun opaque :: "stun_attribute \<Rightarrow> bool" where
  "opaque (UnknownAttr t d) \<longleftrightarrow> t \<noteq> ATTR_XOR_MAPPED \<and> t \<noteq> ATTR_MAPPED"
| "opaque _ \<longleftrightarrow> False"

fun attr_tv :: "stun_attribute \<Rightarrow> u16 \<times> bytes" where
  "attr_tv (UnknownAttr t d) = (t, d)"
| "attr_tv _ = (0, [])"

definition stun_ok :: "stun_message \<Rightarrow> bool" where
  "stun_ok m \<longleftrightarrow> length (transaction_id m) = 12 \<and> list_all opaque (attributes m) \<and>
     length (concat (map serialise_attribute (attributes m))) < 2 ^ 16"

lemma serialise_attribute_tlv: "opaque a \<Longrightarrow> serialise_attribute a = (case attr_tv a of (t, v) \<Rightarrow> tlv t v)"
  by (cases a) (simp_all add: serialise_attribute_def)

lemma serialise_attributes_tlvs:
  "list_all opaque as \<Longrightarrow> concat (map serialise_attribute as) = tlvs (map attr_tv as)"
  by (induction as) (simp_all add: serialise_attribute_tlv tlvs_def)

lemma parse_serialise_stun:
  assumes "stun_ok m"
  shows "parse_stun (serialise_stun m @ rest) = Inr m"
proof -
  let ?as = "attributes m"
  let ?tvs = "map attr_tv ?as"
  have op: "list_all opaque ?as" using assms by (simp add: stun_ok_def)
  have len: "length (tlvs ?tvs) < 2 ^ 16"
    using assms unfolding stun_ok_def serialise_attributes_tlvs[OF op] by blast
  have ser: "serialise_stun m = stun_packet (msg_type m) (transaction_id m) ?tvs"
    using op by (simp add: serialise_stun_def stun_packet_def serialise_attributes_tlvs Let_def)
  have inv: "UnknownAttr (fst (attr_tv a)) (snd (attr_tv a)) = a \<and>
      parse_attribute tid (fst (attr_tv a)) (snd (attr_tv a)) = Inr a" if "a \<in> set ?as" for a tid
  proof -
    have "opaque a" using that op by (simp add: list_all_iff)
    then show ?thesis by (cases a) (auto simp: parse_attribute_def)
  qed
  have "\<forall>(t, v)\<in>set ?tvs. length v < 2 ^ 16 \<and> parse_attribute (transaction_id m) t v = Inr (UnknownAttr t v)"
  proof (intro ballI, clarify)
    fix t v assume tv: "(t, v) \<in> set ?tvs"
    then obtain a where a0: "a \<in> set ?as" "attr_tv a = (t, v)" by auto
    then have a: "a \<in> set ?as" "t = fst (attr_tv a)" "v = snd (attr_tv a)" by simp_all
    have "length v < 2 ^ 16" using tlvs_member_length[OF tv] len by linarith
    then show "length v < 2 ^ 16 \<and> parse_attribute (transaction_id m) t v = Inr (UnknownAttr t v)"
      using inv[OF a(1)] a(2,3) by simp
  qed
  from parse_stun_packet[OF _ len this] assms
  have "parse_stun (serialise_stun m @ rest) =
    Inr \<lparr>msg_type = msg_type m, transaction_id = transaction_id m,
      attributes = map (\<lambda>a. UnknownAttr (fst (attr_tv a)) (snd (attr_tv a))) ?as\<rparr>"
    by (simp add: ser stun_ok_def case_prod_unfold comp_def)
  moreover have "map (\<lambda>a. UnknownAttr (fst (attr_tv a)) (snd (attr_tv a))) ?as = ?as"
    using inv by (simp add: map_idI)
  ultimately show ?thesis by simp
qed

interpretation stun: prefix_codec serialise_stun "\<lambda>b. case parse_stun b of Inl _ \<Rightarrow> None | Inr m \<Rightarrow> Some m" stun_ok
  by unfold_locales (simp add: parse_serialise_stun)

text \<open>
  C35: STUN messages survive the wire.  Parsing the bytes that \<open>serialise\<close> wrote, whatever
  follows them in the buffer, returns the message: its type, its transaction identifier and
  its opaque attributes in order, with the padding removed; and two different messages never
  share a wire form, even up to trailing bytes.
\<close>

theorem stun_wire_roundtrip:
  assumes "stun_ok m" "stun_ok m'"
  shows "parse_stun (serialise_stun m @ rest) = Inr m \<and>
    (serialise_stun m @ rest = serialise_stun m' @ rest' \<longrightarrow> m = m' \<and> rest = rest')"
  using parse_serialise_stun[OF assms(1)] stun.enc_inj[OF assms] stun.prefix_free[OF assms] by blast

theorem stun_wire_roundtrip_witness:
  "let m = \<lparr>msg_type = BINDING_REQUEST, transaction_id = replicate 12 7, attributes = [UnknownAttr 6 [1, 2, 3]]\<rparr>
   in parse_stun (serialise_stun m @ [9]) = Inr m"
proof -
  have "stun_ok \<lparr>msg_type = BINDING_REQUEST, transaction_id = replicate 12 7, attributes = [UnknownAttr 6 [1, 2, 3]]\<rparr>"
    by (simp add: stun_ok_def serialise_attribute_def ATTR_XOR_MAPPED_def ATTR_MAPPED_def)
  from stun_wire_roundtrip[OF this this] show ?thesis unfolding Let_def by blast
qed

section \<open>Mapped addresses\<close>

text \<open>The value of an XOR-MAPPED-ADDRESS attribute as RFC 5389 (section 15.2) defines it.\<close>

definition xor_address :: "bytes \<Rightarrow> socket_addr \<Rightarrow> bytes" where
  "xor_address tid a = (case ip a of
       V4 w \<Rightarrow> [0, 1] @ be_bytes (port a XOR cookie_port) @ be_bytes (w XOR MAGIC_COOKIE)
     | V6 w \<Rightarrow> [0, 2] @ be_bytes (port a XOR cookie_port) @
         xor_bytes (be_bytes w) (be_bytes MAGIC_COOKIE @ tid))"

lemma xor_cancel: "(a XOR b) XOR b = (a :: 'a::len word)"
  by (simp add: xor.assoc)

lemma length_xor_bytes [simp]: "length (xor_bytes xs ys) = min (length xs) (length ys)"
  by (simp add: xor_bytes_def)

lemma xor_bytes_cancel: "length xs = length ys \<Longrightarrow> xor_bytes (xor_bytes xs ys) ys = xs"
  by (intro nth_equalityI) (simp_all add: xor_bytes_def xor_cancel)

lemma length_xor_address: "length tid = 12 \<Longrightarrow> length (xor_address tid a) \<le> 20"
  by (simp add: xor_address_def split: ip_addr.splits)

lemma decode_xor_address:
  assumes "length tid = 12"
  shows "decode_xor_mapped (xor_address tid a) tid = Inr a"
proof (cases "ip a")
  case (V4 w)
  let ?p = "be_bytes (port a XOR cookie_port)" and ?w = "be_bytes (w XOR MAGIC_COOKIE)"
  have v: "xor_address tid a = [0, 1] @ ?p @ ?w" using V4 by (simp add: xor_address_def)
  have "slice 2 4 (xor_address tid a) = ?p" unfolding v by (rule slice_at) simp_all
  moreover have "slice 4 8 (([0, 1] @ ?p) @ ?w @ []) = ?w" by (rule slice_at) simp_all
  ultimately show ?thesis using V4 unfolding decode_xor_mapped_def Let_def
    by (simp add: v xor_cancel socket_addr.equality)
next
  case (V6 w)
  let ?p = "be_bytes (port a XOR cookie_port)" and ?k = "be_bytes MAGIC_COOKIE @ tid"
  let ?w = "xor_bytes (be_bytes w) ?k"
  have v: "xor_address tid a = [0, 2] @ ?p @ ?w" using V6 by (simp add: xor_address_def)
  have "slice 2 4 (xor_address tid a) = ?p" unfolding v by (rule slice_at) simp_all
  moreover have "slice 4 20 (([0, 2] @ ?p) @ ?w @ []) = ?w" by (rule slice_at) (simp_all add: assms)
  moreover have "xor_bytes ?w ?k = be_bytes w" by (rule xor_bytes_cancel) (simp add: assms)
  ultimately show ?thesis using V6 unfolding decode_xor_mapped_def Let_def
    by (simp add: v xor_cancel assms socket_addr.equality)
qed

text \<open>The address that \<open>mapped_addr\<close> picks: the first XOR-mapped one, else the last plain one.\<close>

fun xor_mapped_of :: "stun_attribute \<Rightarrow> socket_addr option" where
  "xor_mapped_of (XorMappedAddress a) = Some a"
| "xor_mapped_of _ = None"

fun mapped_of :: "stun_attribute \<Rightarrow> socket_addr option" where
  "mapped_of (MappedAddress a) = Some a"
| "mapped_of _ = None"

definition preferred :: "stun_attribute list \<Rightarrow> socket_addr option" where
  "preferred as = (case List.map_filter xor_mapped_of as of
       a # _ \<Rightarrow> Some a
     | [] \<Rightarrow> (case List.map_filter mapped_of as of [] \<Rightarrow> None | bs \<Rightarrow> Some (last bs)))"

lemma mapped_addr_preferred: "mapped_addr m = preferred (attributes m)"
proof -
  have "mapped_addr_loop as fb = (case List.map_filter xor_mapped_of as of
       a # _ \<Rightarrow> Some a
     | [] \<Rightarrow> (case List.map_filter mapped_of as of [] \<Rightarrow> fb | bs \<Rightarrow> Some (last bs)))" for as fb
    by (induction as fb rule: mapped_addr_loop.induct)
      (auto simp: List.map_filter_simps split: list.splits)
  then show ?thesis by (simp add: mapped_addr_def preferred_def)
qed

text \<open>A MAPPED-ADDRESS as RFC 5389 writes it, and responses whose address attributes are well formed.\<close>

definition plain_address :: "socket_addr \<Rightarrow> bytes" where
  "plain_address a = (case ip a of
       V4 w \<Rightarrow> [0, 1] @ be_bytes (port a) @ be_bytes w
     | V6 w \<Rightarrow> [0, 2] @ be_bytes (port a) @ be_bytes w)"

definition addresses_ok :: "bytes \<Rightarrow> (u16 \<times> bytes) list \<Rightarrow> bool" where
  "addresses_ok tid tvs \<longleftrightarrow> (\<forall>(t, v)\<in>set tvs.
     (t = ATTR_XOR_MAPPED \<longrightarrow> v \<in> range (xor_address tid)) \<and> (t = ATTR_MAPPED \<longrightarrow> v \<in> range plain_address))"

definition has_plain_v6 :: "(u16 \<times> bytes) list \<Rightarrow> bool" where
  "has_plain_v6 tvs \<longleftrightarrow> (\<exists>w p. (ATTR_MAPPED, plain_address \<lparr>ip = V6 w, port = p\<rparr>) \<in> set tvs)"

lemma attr_types_differ: "ATTR_XOR_MAPPED \<noteq> ATTR_MAPPED" "ATTR_MAPPED \<noteq> ATTR_XOR_MAPPED"
  by (simp_all add: ATTR_XOR_MAPPED_def ATTR_MAPPED_def)

lemma decode_plain_address:
  "decode_mapped (plain_address a) = (case ip a of V4 _ \<Rightarrow> Inr a | V6 _ \<Rightarrow> Inl MappedV6NotImplemented)"
proof (cases "ip a")
  case (V4 w)
  have v: "plain_address a = [0, 1] @ be_bytes (port a) @ be_bytes w" using V4 by (simp add: plain_address_def)
  have "slice 2 4 (plain_address a) = be_bytes (port a)" unfolding v by (rule slice_at) simp_all
  moreover have "slice 4 8 (([0, 1] @ be_bytes (port a)) @ be_bytes w @ []) = be_bytes w" by (rule slice_at) simp_all
  ultimately show ?thesis using V4 unfolding decode_mapped_def Let_def
    by (simp add: v socket_addr.equality)
next
  case (V6 w)
  then show ?thesis by (simp add: decode_mapped_def plain_address_def)
qed

lemma parse_address_attributes:
  "length tid = 12 \<Longrightarrow> parse_attribute tid ATTR_XOR_MAPPED (xor_address tid a) = Inr (XorMappedAddress a)"
  "parse_attribute tid ATTR_MAPPED (plain_address a) =
    (case ip a of V4 _ \<Rightarrow> Inr (MappedAddress a) | V6 _ \<Rightarrow> Inl MappedV6NotImplemented)"
  "t \<noteq> ATTR_XOR_MAPPED \<Longrightarrow> t \<noteq> ATTR_MAPPED \<Longrightarrow> parse_attribute tid t v = Inr (UnknownAttr t v)"
  by (simp_all add: parse_attribute_def decode_xor_address decode_plain_address ATTR_XOR_MAPPED_def ATTR_MAPPED_def
      split: ip_addr.split)

lemma plain_address_v6: "ip a = V6 w \<Longrightarrow> plain_address a = plain_address \<lparr>ip = V6 w, port = port a\<rparr>"
  by (simp add: plain_address_def)

text \<open>With well-formed addresses the only attribute that does not decode is a plain IPv6 address.\<close>

lemma decode_all_addresses:
  assumes "length tid = 12" "addresses_ok tid tvs"
  shows "if has_plain_v6 tvs then decode_all tid tvs = Inl MappedV6NotImplemented else \<exists>as. decode_all tid tvs = Inr as"
  using assms(2)
proof (induction tvs)
  case Nil
  show ?case by (simp add: has_plain_v6_def)
next
  case (Cons tv tvs)
  obtain t v where tv: "tv = (t, v)" by (cases tv)
  have ok: "addresses_ok tid tvs" using Cons.prems by (simp add: addresses_ok_def)
  have hd: "has_plain_v6 (tv # tvs) \<longleftrightarrow> (\<exists>w p. t = ATTR_MAPPED \<and> v = plain_address \<lparr>ip = V6 w, port = p\<rparr>) \<or> has_plain_v6 tvs"
    by (auto simp: has_plain_v6_def tv)
  have one: "(\<exists>w p. t = ATTR_MAPPED \<and> v = plain_address \<lparr>ip = V6 w, port = p\<rparr>) \<and>
      parse_attribute tid t v = Inl MappedV6NotImplemented \<or>
    \<not> (\<exists>w p. t = ATTR_MAPPED \<and> v = plain_address \<lparr>ip = V6 w, port = p\<rparr>) \<and> (\<exists>a. parse_attribute tid t v = Inr a)"
  proof -
    consider a where "t = ATTR_XOR_MAPPED" "v = xor_address tid a" | a where "t = ATTR_MAPPED" "v = plain_address a"
      | "t \<noteq> ATTR_XOR_MAPPED" "t \<noteq> ATTR_MAPPED"
      using Cons.prems by (auto simp: addresses_ok_def tv)
    then show ?thesis
    proof cases
      case 1
      then show ?thesis using parse_address_attributes(1)[OF assms(1)] by (simp add: attr_types_differ)
    next
      case (2 a)
      then show ?thesis
      proof (cases "ip a")
        case (V4 w)
        then have "v \<noteq> plain_address \<lparr>ip = V6 w', port = p\<rparr>" for w' p using 2 by (simp add: plain_address_def)
        then show ?thesis using V4 2 by (simp add: parse_address_attributes(2))
      next
        case (V6 w)
        then show ?thesis using 2 plain_address_v6[OF V6] by (auto simp: parse_address_attributes(2))
      qed
    qed (simp add: parse_address_attributes(3))
  qed
  show ?case using one hd Cons.IH[OF ok] by (auto simp: tv split: if_splits)
qed

text \<open>Which address is picked, in terms of the attributes on the wire.\<close>

lemma decode_all_ConsD:
  assumes "decode_all tid ((t, v) # tvs) = Inr as"
  obtains a as' where "parse_attribute tid t v = Inr a" "decode_all tid tvs = Inr as'" "as = a # as'"
  using assms by (cases "parse_attribute tid t v"; cases "decode_all tid tvs") simp_all

lemma pass_attribute:
  assumes "parse_attribute tid t v = Inr a" "t \<noteq> ATTR_XOR_MAPPED"
  shows "\<exists>fb'. mapped_addr_loop (a # as) fb = mapped_addr_loop as fb' \<and> (t \<noteq> ATTR_MAPPED \<longrightarrow> fb' = fb)"
proof -
  have "(\<exists>b. a = MappedAddress b) \<and> t = ATTR_MAPPED \<or> (\<exists>x y. a = UnknownAttr x y)"
    using assms by (cases "t = ATTR_MAPPED"; cases "decode_mapped v") (auto simp: parse_attribute_def)
  then show ?thesis by auto
qed

lemma no_address_picked:
  assumes "decode_all tid tvs = Inr as" "ATTR_XOR_MAPPED \<notin> fst ` set tvs" "ATTR_MAPPED \<notin> fst ` set tvs"
  shows "mapped_addr_loop as fb = fb"
  using assms
proof (induction tvs arbitrary: as)
  case (Cons tv tvs)
  obtain t v where tv: "tv = (t, v)" by (cases tv)
  from Cons.prems(1)[unfolded tv] obtain a as' where
    s: "parse_attribute tid t v = Inr a" "decode_all tid tvs = Inr as'" "as = a # as'" by (rule decode_all_ConsD)
  then show ?case using Cons.IH[OF s(2)] Cons.prems(2,3) pass_attribute[OF s(1), of as' fb] by (auto simp: tv)
qed simp

lemma pass_attributes:
  assumes "decode_all tid (before @ tvs) = Inr as" "ATTR_XOR_MAPPED \<notin> fst ` set before"
  shows "\<exists>as' fb'. decode_all tid tvs = Inr as' \<and> mapped_addr_loop as fb = mapped_addr_loop as' fb'"
  using assms
proof (induction before arbitrary: as fb)
  case (Cons tv before)
  obtain t v where tv: "tv = (t, v)" by (cases tv)
  from Cons.prems(1)[unfolded tv append_Cons] obtain b bs where
    s: "parse_attribute tid t v = Inr b" "decode_all tid (before @ tvs) = Inr bs" "as = b # bs" by (rule decode_all_ConsD)
  then obtain fb' where "mapped_addr_loop as fb = mapped_addr_loop bs fb'"
    using pass_attribute[OF s(1), of bs fb] Cons.prems(2) by (auto simp: tv)
  then show ?case using Cons.IH[OF s(2), of fb'] Cons.prems(2) by simp
qed auto

lemma xor_address_picked:
  assumes "length tid = 12" "decode_all tid (before @ (ATTR_XOR_MAPPED, xor_address tid a) # after) = Inr as"
    "ATTR_XOR_MAPPED \<notin> fst ` set before"
  shows "mapped_addr_loop as fb = Some a"
proof -
  obtain bs fb' where s: "decode_all tid ((ATTR_XOR_MAPPED, xor_address tid a) # after) = Inr bs"
    "mapped_addr_loop as fb = mapped_addr_loop bs fb'" using pass_attributes[OF assms(2,3)] by blast
  show ?thesis using decode_all_ConsD[OF s(1)] s(2) parse_address_attributes(1)[OF assms(1)] by fastforce
qed

lemma plain_address_picked:
  assumes "decode_all tid (before @ (ATTR_MAPPED, plain_address a) # after) = Inr as"
    "ATTR_XOR_MAPPED \<notin> fst ` set (before @ after)" "ATTR_MAPPED \<notin> fst ` set after"
  shows "mapped_addr_loop as fb = Some a"
proof -
  have no: "ATTR_XOR_MAPPED \<notin> fst ` set before" "ATTR_XOR_MAPPED \<notin> fst ` set after" using assms(2) by auto
  obtain bs fb' where s: "decode_all tid ((ATTR_MAPPED, plain_address a) # after) = Inr bs"
    "mapped_addr_loop as fb = mapped_addr_loop bs fb'" using pass_attributes[OF assms(1) no(1)] by blast
  from s(1) obtain b cs where c: "parse_attribute tid ATTR_MAPPED (plain_address a) = Inr b"
    "decode_all tid after = Inr cs" "bs = b # cs" by (rule decode_all_ConsD)
  have "b = MappedAddress a" using c(1) by (simp add: parse_address_attributes(2) split: ip_addr.splits)
  then show ?thesis using s(2) c(3) no_address_picked[OF c(2) no(2) assms(3)] by simp
qed

text \<open>
  C30: the reflexive address, exactly.  A Binding Success of at most 512 bytes whose address
  attributes are well formed, in any order and beside any other attributes, makes
  \<open>discover_with_socket\<close> return the address of its first XOR-MAPPED-ADDRESS (IPv4 or IPv6), else that of
  its last MAPPED-ADDRESS, else the error that there is no address; but a plain IPv6 MAPPED-ADDRESS
  anywhere in it, even beside an XOR-MAPPED-ADDRESS, makes the discovery fail.  On any network, an address
  is returned exactly when a datagram arrives whose first 512 bytes parse as a Binding Success with
  that address preferred.
\<close>

theorem reflexive_address_found:
  assumes "length rtid = 12" "addresses_ok rtid tvs"
    "response = stun_packet BINDING_SUCCESS rtid tvs" "length response \<le> 512"
    "net target (serialise_stun (new_binding_request tid)) = Reply response"
  shows "(has_plain_v6 tvs \<longrightarrow> discover_with_socket net tid target = Inl (StunParse MappedV6NotImplemented)) \<and>
    (\<not> has_plain_v6 tvs \<longrightarrow>
      (tvs = before @ (ATTR_XOR_MAPPED, xor_address rtid a) # after \<and> ATTR_XOR_MAPPED \<notin> fst ` set before \<longrightarrow>
        discover_with_socket net tid target = Inr a) \<and>
      (tvs = before @ (ATTR_MAPPED, plain_address a) # after \<and> ATTR_XOR_MAPPED \<notin> fst ` set tvs \<and>
        ATTR_MAPPED \<notin> fst ` set after \<longrightarrow> discover_with_socket net tid target = Inr a) \<and>
      (ATTR_XOR_MAPPED \<notin> fst ` set tvs \<and> ATTR_MAPPED \<notin> fst ` set tvs \<longrightarrow>
        discover_with_socket net tid target = Inl NoMappedAddress)) \<and>
    (discover_with_socket any_net any_tid any_target = Inr b \<longleftrightarrow>
      (\<exists>d m. any_net any_target (serialise_stun (new_binding_request any_tid)) = Reply d \<and>
        parse_stun (take 512 d) = Inr m \<and> msg_type m = BINDING_SUCCESS \<and> preferred (attributes m) = Some b))"
proof -
  have small: "length (tlvs tvs) < 2 ^ 16" using assms(1,3,4) by simp
  have len: "\<forall>(t, v)\<in>set tvs. length v < 2 ^ 16"
  proof (intro ballI, clarify)
    fix t v assume tv: "(t, v) \<in> set tvs"
    show "length v < 2 ^ 16" using tlvs_member_length[OF tv] small by linarith
  qed
  have p: "parse_stun (take 512 response) = map_sum id
      (\<lambda>as. \<lparr>msg_type = BINDING_SUCCESS, transaction_id = rtid, attributes = as\<rparr>) (decode_all rtid tvs)"
    using parse_stun_decode[OF assms(1) small len, of BINDING_SUCCESS "[]"] assms(3,4) by simp
  have bad: "discover_with_socket net tid target = Inl (StunParse MappedV6NotImplemented)" if "has_plain_v6 tvs"
    using decode_all_addresses[OF assms(1,2)] that p assms(5) by (simp add: discover_with_socket_def)
  have good: "\<exists>as. decode_all rtid tvs = Inr as \<and> discover_with_socket net tid target =
      (case mapped_addr_loop as None of None \<Rightarrow> Inl NoMappedAddress | Some a \<Rightarrow> Inr a)" if "\<not> has_plain_v6 tvs"
    using decode_all_addresses[OF assms(1,2)] that p assms(5)
    by (auto simp: discover_with_socket_def mapped_addr_def)
  have "discover_with_socket net tid target = Inr a" if "\<not> has_plain_v6 tvs"
      "tvs = before @ (ATTR_XOR_MAPPED, xor_address rtid a) # after" "ATTR_XOR_MAPPED \<notin> fst ` set before"
    using good[OF that(1)] xor_address_picked[OF assms(1), of before a after _ None] that(2,3) by auto
  moreover have "discover_with_socket net tid target = Inr a" if "\<not> has_plain_v6 tvs"
      "tvs = before @ (ATTR_MAPPED, plain_address a) # after" "ATTR_XOR_MAPPED \<notin> fst ` set tvs" "ATTR_MAPPED \<notin> fst ` set after"
  proof -
    have "ATTR_XOR_MAPPED \<notin> fst ` set (before @ after)" using that(2,3) by auto
    then show ?thesis using good[OF that(1)] plain_address_picked[of rtid before a after _ None] that(2,4) by auto
  qed
  moreover have "discover_with_socket net tid target = Inl NoMappedAddress" if "\<not> has_plain_v6 tvs"
      "ATTR_XOR_MAPPED \<notin> fst ` set tvs" "ATTR_MAPPED \<notin> fst ` set tvs"
    using good[OF that(1)] no_address_picked[OF _ that(2,3), of _ _ None] by auto
  moreover have "discover_with_socket any_net any_tid any_target = Inr b \<longleftrightarrow>
      (\<exists>d m. any_net any_target (serialise_stun (new_binding_request any_tid)) = Reply d \<and>
        parse_stun (take 512 d) = Inr m \<and> msg_type m = BINDING_SUCCESS \<and> preferred (attributes m) = Some b)"
    by (auto simp: discover_with_socket_def mapped_addr_preferred
        split: net_reply.splits sum.splits if_splits option.splits)
  ultimately show ?thesis using bad by blast
qed

text \<open>An IPv6 address behind a plain IPv4 one and a SOFTWARE attribute.\<close>

theorem reflexive_address_found_witness:
  "let a = \<lparr>ip = V6 42, port = 5000\<rparr>; rtid = replicate 12 3;
       net = (\<lambda>_ _. Reply (stun_packet BINDING_SUCCESS rtid [(0x8022, [85, 68, 80]),
         (ATTR_MAPPED, plain_address \<lparr>ip = V4 9, port = 1\<rparr>), (ATTR_XOR_MAPPED, xor_address rtid a)]))
   in discover_with_socket net [] \<lparr>ip = V4 1, port = 3478\<rparr> = Inr a"
proof -
  let ?a = "\<lparr>ip = V6 42, port = 5000\<rparr>" and ?r = "replicate 12 3" and ?p = "plain_address \<lparr>ip = V4 9, port = 1\<rparr>"
  let ?tvs = "[(0x8022, [85, 68, 80]), (ATTR_MAPPED, ?p), (ATTR_XOR_MAPPED, xor_address ?r ?a)]"
  have pl: "length ?p = 8" by (simp add: plain_address_def)
  have len: "length (stun_packet BINDING_SUCCESS ?r ?tvs) \<le> 512"
    using length_xor_address[of ?r ?a] pl by simp
  have ok: "addresses_ok ?r ?tvs" by (auto simp: addresses_ok_def ATTR_XOR_MAPPED_def ATTR_MAPPED_def)
  have v4: "\<not> has_plain_v6 ?tvs"
    by (auto simp: has_plain_v6_def plain_address_def ATTR_XOR_MAPPED_def ATTR_MAPPED_def)
  show ?thesis unfolding Let_def
    using reflexive_address_found[OF _ ok refl len, of "\<lambda>_ _. Reply (stun_packet BINDING_SUCCESS ?r ?tvs)"
        "\<lparr>ip = V4 1, port = 3478\<rparr>" "[]" "[(0x8022, [85, 68, 80]), (ATTR_MAPPED, ?p)]" ?a "[]"] v4
    by (simp add: ATTR_XOR_MAPPED_def ATTR_MAPPED_def)
qed

end
