(* ===== verification/Turn.thy ===== *)
theory Turn
  imports Stun Utf8
begin

text \<open>
  The TURN client (\<^verbatim>\<open>crates/traversal/src/turn.rs\<close>): the message builder with and without
  MESSAGE-INTEGRITY, the parser of raw attributes, the two-round-trip Allocate, CreatePermission,
  ChannelBind, ChannelData and Refresh.  MD5 and HMAC-SHA1 are arguments (\<open>turn_crypto\<close>),
  as are the transaction identifiers and the network.  Indexing and slicing past the end of a
  response is \<open>Panic\<close>.
\<close>

section \<open>Constants\<close>

definition TURN_ALLOCATE_REQUEST :: u16 where "TURN_ALLOCATE_REQUEST = 0x0003"
definition TURN_ALLOCATE_SUCCESS :: u16 where "TURN_ALLOCATE_SUCCESS = 0x0103"
definition TURN_ALLOCATE_ERROR :: u16 where "TURN_ALLOCATE_ERROR = 0x0113"
definition TURN_CREATE_PERM_REQUEST :: u16 where "TURN_CREATE_PERM_REQUEST = 0x0008"
definition TURN_CREATE_PERM_SUCCESS :: u16 where "TURN_CREATE_PERM_SUCCESS = 0x0108"
definition TURN_CHANNEL_BIND :: u16 where "TURN_CHANNEL_BIND = 0x0009"
definition TURN_CHANNEL_BIND_OK :: u16 where "TURN_CHANNEL_BIND_OK = 0x0109"
definition TURN_REFRESH_REQUEST :: u16 where "TURN_REFRESH_REQUEST = 0x0004"

definition ATTR_USERNAME :: u16 where "ATTR_USERNAME = 0x0006"
definition ATTR_MSG_INTEGRITY :: u16 where "ATTR_MSG_INTEGRITY = 0x0008"
definition ATTR_ERROR_CODE :: u16 where "ATTR_ERROR_CODE = 0x0009"
definition ATTR_REALM :: u16 where "ATTR_REALM = 0x0014"
definition ATTR_NONCE :: u16 where "ATTR_NONCE = 0x0015"
definition ATTR_XOR_RELAYED :: u16 where "ATTR_XOR_RELAYED = 0x0016"
definition ATTR_LIFETIME :: u16 where "ATTR_LIFETIME = 0x000D"
definition ATTR_REQ_TRANSPORT :: u16 where "ATTR_REQ_TRANSPORT = 0x0019"
definition ATTR_CHANNEL_NUMBER :: u16 where "ATTR_CHANNEL_NUMBER = 0x000C"
definition ATTR_XOR_PEER_ADDR :: u16 where "ATTR_XOR_PEER_ADDR = 0x0012"

lemmas turn_attr_defs = ATTR_USERNAME_def ATTR_MSG_INTEGRITY_def ATTR_ERROR_CODE_def ATTR_REALM_def
  ATTR_NONCE_def ATTR_XOR_RELAYED_def ATTR_LIFETIME_def ATTR_REQ_TRANSPORT_def
  ATTR_CHANNEL_NUMBER_def ATTR_XOR_PEER_ADDR_def ATTR_XOR_MAPPED_def ATTR_MAPPED_def

section \<open>Messages\<close>

record turn_crypto =
  md5 :: "bytes \<Rightarrow> bytes"
  hmac_sha1 :: "bytes \<Rightarrow> bytes \<Rightarrow> bytes"

definition derive_key :: "turn_crypto \<Rightarrow> bytes \<Rightarrow> bytes \<Rightarrow> bytes \<Rightarrow> bytes" where
  "derive_key lib user rlm password = md5 lib (user @ [58] @ rlm @ [58] @ password)"

definition message_integrity :: "turn_crypto \<Rightarrow> bytes \<Rightarrow> bytes \<Rightarrow> bytes" where
  "message_integrity lib key msg = hmac_sha1 lib key msg"

record turn_msg =
  tm_type :: u16
  tm_tid :: bytes
  tm_attrs :: bytes

definition turn_msg_new :: "u16 \<Rightarrow> bytes \<Rightarrow> turn_msg" where
  "turn_msg_new t tid = \<lparr>tm_type = t, tm_tid = tid, tm_attrs = []\<rparr>"

definition push_attr :: "u16 \<Rightarrow> bytes \<Rightarrow> turn_msg \<Rightarrow> turn_msg" where
  "push_attr t v m = m\<lparr>tm_attrs := tm_attrs m @ be_bytes t @ be_bytes (of_nat (length v) :: u16) @ v @
     replicate ((4 - length v mod 4) mod 4) 0\<rparr>"

definition build :: "turn_msg \<Rightarrow> bytes" where
  "build m = be_bytes (tm_type m) @ be_bytes (of_nat (length (tm_attrs m)) :: u16) @
     be_bytes MAGIC_COOKIE @ tm_tid m @ tm_attrs m"

definition build_with_integrity :: "turn_crypto \<Rightarrow> bytes \<Rightarrow> turn_msg \<Rightarrow> bytes" where
  "build_with_integrity lib key m =
     (let attr_len_with_mi = of_nat (length (tm_attrs m) + 4 + 20) :: u16;
          hdr = be_bytes (tm_type m) @ be_bytes attr_len_with_mi @ be_bytes MAGIC_COOKIE @ tm_tid m;
          pre_mi = hdr @ tm_attrs m;
          mi = message_integrity lib key pre_mi
      in pre_mi @ be_bytes ATTR_MSG_INTEGRITY @ be_bytes (20 :: u16) @ mi)"

function parse_raw_attrs :: "bytes \<Rightarrow> nat \<Rightarrow> (u16 \<times> bytes) list" where
  "parse_raw_attrs buf pos =
     (if length buf < pos + 4 then []
      else
        let t = of_be_bytes (slice pos (pos + 2) buf);
            l = unat (of_be_bytes (slice (pos + 2) (pos + 4) buf) :: u16)
        in if length buf < pos + 4 + l then []
           else (t, slice (pos + 4) (pos + 4 + l) buf) #
                parse_raw_attrs buf (pos + 4 + (l + (4 - l mod 4) mod 4)))"
  by pat_completeness auto
termination
  by (relation "measure (\<lambda>(buf, pos). length buf - pos)") auto

declare parse_raw_attrs.simps [simp del]

definition parse_xor_mapped_addr :: "bytes \<Rightarrow> bytes \<Rightarrow> socket_addr option" where
  "parse_xor_mapped_addr val tid =
     (if length val < 8 then None
      else
        let family = val ! 1;
            p = of_be_bytes (slice 2 4 val) XOR cookie_port
        in if family = 1 then
             Some \<lparr>ip = V4 (of_be_bytes (slice 4 8 val) XOR MAGIC_COOKIE), port = p\<rparr>
           else if family = 2 \<and> 20 \<le> length val then
             Some \<lparr>ip = V6 (of_be_bytes (xor_bytes (slice 4 20 val) (be_bytes MAGIC_COOKIE @ tid))),
                   port = p\<rparr>
           else None)"

fun error_code :: "(u16 \<times> bytes) list \<Rightarrow> u16 option" where
  "error_code [] = None"
| "error_code ((t, v) # as) =
     (if t = ATTR_ERROR_CODE \<and> 4 \<le> length v
      then Some (ucast (v ! 2 AND 7) * 100 + ucast (v ! 3))
      else error_code as)"

definition encode_xor_peer :: "socket_addr \<Rightarrow> bytes \<Rightarrow> bytes" where
  "encode_xor_peer addr tid =
     (case ip addr of
        V4 w \<Rightarrow> [0, 1] @ be_bytes (port addr XOR cookie_port) @ be_bytes (w XOR MAGIC_COOKIE)
      | V6 w \<Rightarrow> [0, 2] @ be_bytes (port addr XOR cookie_port) @ be_bytes w)"

section \<open>The client\<close>

record turn_allocation =
  relayed_addr :: socket_addr
  alloc_mapped_addr :: socket_addr
  lifetime_secs :: u32

record turn_client =
  turn_server :: socket_addr
  turn_username :: bytes
  turn_password :: bytes
  realm :: bytes
  nonce :: bytes
  allocation :: "turn_allocation option"
  channels :: "u16 \<rightharpoonup> socket_addr"

datatype turn_error =
    TurnBind
  | TurnSend
  | TurnTimeout
  | TurnRecv
  | Expected401 u16
  | MissingRealmOrNonce
  | AllocateFailed u16 u16
  | MissingRelayedAddress
  | CreatePermissionFailed u16
  | BadChannelNumber u16
  | ChannelBindFailed u16
  | ChannelNotBound u16

definition turn_client_new :: "bool \<Rightarrow> socket_addr \<Rightarrow> bytes \<Rightarrow> bytes \<Rightarrow> turn_error + turn_client" where
  "turn_client_new bind_ok server user password =
     (if bind_ok
      then Inr \<lparr>turn_server = server, turn_username = user, turn_password = password, realm = [],
                nonce = [], allocation = None, channels = Map.empty\<rparr>
      else Inl TurnBind)"

text \<open>Send a datagram to the server and wait for the answer.\<close>

definition exchange :: "(socket_addr \<Rightarrow> bytes \<Rightarrow> net_reply) \<Rightarrow> turn_client \<Rightarrow> bytes \<Rightarrow> turn_error + bytes" where
  "exchange net c wire =
     (case net (turn_server c) wire of
        SendFailed \<Rightarrow> Inl TurnSend
      | TimedOut \<Rightarrow> Inl TurnTimeout
      | RecvFailed \<Rightarrow> Inl TurnRecv
      | Reply d \<Rightarrow> Inr d)"

definition push_credentials :: "turn_client \<Rightarrow> turn_msg \<Rightarrow> turn_msg" where
  "push_credentials c m =
     push_attr ATTR_NONCE (nonce c) (push_attr ATTR_REALM (realm c) (push_attr ATTR_USERNAME (turn_username c) m))"

definition client_key :: "turn_crypto \<Rightarrow> turn_client \<Rightarrow> bytes" where
  "client_key lib c = derive_key lib (turn_username c) (realm c) (turn_password c)"

definition allocate_request :: "turn_crypto \<Rightarrow> bytes \<Rightarrow> bool \<Rightarrow> turn_client \<Rightarrow> bytes" where
  "allocate_request lib tid authenticated c =
     (let msg = push_attr ATTR_LIFETIME (be_bytes (600 :: u32))
                  (push_attr ATTR_REQ_TRANSPORT [0x11, 0, 0, 0] (turn_msg_new TURN_ALLOCATE_REQUEST tid))
      in if authenticated then build_with_integrity lib (client_key lib c) (push_credentials c msg)
         else build msg)"

definition send_allocate_request ::
  "turn_crypto \<Rightarrow> (socket_addr \<Rightarrow> bytes \<Rightarrow> net_reply) \<Rightarrow> bytes \<Rightarrow> bool \<Rightarrow> turn_client \<Rightarrow> turn_error + bytes" where
  "send_allocate_request lib net tid authenticated c =
     map_sum id (take 1024) (exchange net c (allocate_request lib tid authenticated c))"

fun absorb_challenge :: "(u16 \<times> bytes) list \<Rightarrow> turn_client \<Rightarrow> turn_client" where
  "absorb_challenge [] c = c"
| "absorb_challenge ((t, v) # as) c = absorb_challenge as
     (if t = ATTR_REALM then c\<lparr>realm := to_string_lossy v\<rparr>
      else if t = ATTR_NONCE then c\<lparr>nonce := v\<rparr>
      else c)"

definition find_address :: "u16 \<Rightarrow> (u16 \<times> bytes) list \<Rightarrow> bytes \<Rightarrow> socket_addr option" where
  "find_address t as tid =
     (case List.find (\<lambda>(t', v). t' = t) as of
        None \<Rightarrow> None
      | Some (_, v) \<Rightarrow> parse_xor_mapped_addr v tid)"

definition read_allocation :: "bytes \<Rightarrow> turn_error + turn_allocation" where
  "read_allocation r2 =
     (let tid = slice 8 20 r2;
          attrs2 = parse_raw_attrs (drop HEADER_LEN r2) 0
      in case find_address ATTR_XOR_RELAYED attrs2 tid of
           None \<Rightarrow> Inl MissingRelayedAddress
         | Some relayed \<Rightarrow>
             Inr \<lparr>relayed_addr = relayed,
                  alloc_mapped_addr = (case find_address ATTR_XOR_MAPPED attrs2 tid of
                     Some m \<Rightarrow> m | None \<Rightarrow> relayed),
                  lifetime_secs = (case List.find (\<lambda>(t, v). t = ATTR_LIFETIME \<and> length v = 4) attrs2 of
                     Some (_, v) \<Rightarrow> of_be_bytes v | None \<Rightarrow> 600)\<rparr>)"

definition allocate_round2 ::
  "turn_crypto \<Rightarrow> (socket_addr \<Rightarrow> bytes \<Rightarrow> net_reply) \<Rightarrow> bytes \<Rightarrow> turn_client \<Rightarrow>
   ((turn_error + turn_allocation) \<times> turn_client) outcome" where
  "allocate_round2 lib net tid c =
     (case send_allocate_request lib net tid True c of
        Inl e \<Rightarrow> Return (Inl e, c)
      | Inr r2 \<Rightarrow>
          if length r2 < 2 then Panic
          else
            let t = of_be_bytes (slice 0 2 r2)
            in if length r2 < HEADER_LEN then Panic
               else if t \<noteq> TURN_ALLOCATE_SUCCESS then
                 let attrs2 = parse_raw_attrs (drop HEADER_LEN r2) 0
                 in Return (Inl (AllocateFailed t (case error_code attrs2 of Some x \<Rightarrow> x | None \<Rightarrow> 0)), c)
               else case read_allocation r2 of
                      Inl e \<Rightarrow> Return (Inl e, c)
                    | Inr alloc \<Rightarrow> Return (Inr alloc, c\<lparr>allocation := Some alloc\<rparr>))"

definition allocate ::
  "turn_crypto \<Rightarrow> (socket_addr \<Rightarrow> bytes \<Rightarrow> net_reply) \<Rightarrow> (socket_addr \<Rightarrow> bytes \<Rightarrow> net_reply) \<Rightarrow>
   bytes \<Rightarrow> bytes \<Rightarrow> turn_client \<Rightarrow> ((turn_error + turn_allocation) \<times> turn_client) outcome" where
  "allocate lib net1 net2 tid1 tid2 c =
     (case send_allocate_request lib net1 tid1 False c of
        Inl e \<Rightarrow> Return (Inl e, c)
      | Inr r1 \<Rightarrow>
          if length r1 < HEADER_LEN then Panic
          else
            let attrs1 = parse_raw_attrs (drop HEADER_LEN r1) 0;
                code = (case error_code attrs1 of Some x \<Rightarrow> x | None \<Rightarrow> 0)
            in if code \<noteq> 401 then Return (Inl (Expected401 code), c)
               else
                 let c1 = absorb_challenge attrs1 c
                 in if realm c1 = [] \<or> nonce c1 = [] then Return (Inl MissingRealmOrNonce, c1)
                    else allocate_round2 lib net2 tid2 c1)"

text \<open>The 512-byte buffer, zeroed before the answer is received into it.\<close>

definition recv_buf :: "bytes \<Rightarrow> bytes" where
  "recv_buf d = take 512 d @ replicate (512 - length d) 0"

definition create_permission_request :: "turn_crypto \<Rightarrow> bytes \<Rightarrow> socket_addr \<Rightarrow> turn_client \<Rightarrow> bytes" where
  "create_permission_request lib tid peer c =
     build_with_integrity lib (client_key lib c) (push_credentials c
       (push_attr ATTR_XOR_PEER_ADDR (encode_xor_peer peer tid) (turn_msg_new TURN_CREATE_PERM_REQUEST tid)))"

definition create_permission ::
  "turn_crypto \<Rightarrow> (socket_addr \<Rightarrow> bytes \<Rightarrow> net_reply) \<Rightarrow> bytes \<Rightarrow> socket_addr \<Rightarrow> turn_client \<Rightarrow> turn_error + unit" where
  "create_permission lib net tid peer c =
     (case exchange net c (create_permission_request lib tid peer c) of
        Inl e \<Rightarrow> Inl e
      | Inr d \<Rightarrow>
          let t = of_be_bytes (slice 0 2 (recv_buf d))
          in if t \<noteq> TURN_CREATE_PERM_SUCCESS then Inl (CreatePermissionFailed t) else Inr ())"

definition channel_bind_request :: "turn_crypto \<Rightarrow> bytes \<Rightarrow> u16 \<Rightarrow> socket_addr \<Rightarrow> turn_client \<Rightarrow> bytes" where
  "channel_bind_request lib tid ch peer c =
     build_with_integrity lib (client_key lib c) (push_credentials c
       (push_attr ATTR_XOR_PEER_ADDR (encode_xor_peer peer tid)
         (push_attr ATTR_CHANNEL_NUMBER [ucast (drop_bit 8 ch), ucast ch, 0, 0]
           (turn_msg_new TURN_CHANNEL_BIND tid))))"

definition bind_channel ::
  "turn_crypto \<Rightarrow> (socket_addr \<Rightarrow> bytes \<Rightarrow> net_reply) \<Rightarrow> bytes \<Rightarrow> u16 \<Rightarrow> socket_addr \<Rightarrow> turn_client \<Rightarrow>
   (turn_error + unit) \<times> turn_client" where
  "bind_channel lib net tid ch peer c =
     (if \<not> (0x4000 \<le> ch \<and> ch \<le> 0x7FFF) then (Inl (BadChannelNumber ch), c)
      else case exchange net c (channel_bind_request lib tid ch peer c) of
        Inl e \<Rightarrow> (Inl e, c)
      | Inr d \<Rightarrow>
          let t = of_be_bytes (slice 0 2 (recv_buf d))
          in if t \<noteq> TURN_CHANNEL_BIND_OK then (Inl (ChannelBindFailed t), c)
             else (Inr (), c\<lparr>channels := (channels c)(ch \<mapsto> peer)\<rparr>))"

text \<open>\<open>send_channel_data\<close> and \<open>refresh\<close> only send; the result holds the datagram.\<close>

definition send_channel_data :: "bool \<Rightarrow> u16 \<Rightarrow> bytes \<Rightarrow> turn_client \<Rightarrow> turn_error + bytes" where
  "send_channel_data send_ok ch data c =
     (if channels c ch = None then Inl (ChannelNotBound ch)
      else
        let frame = be_bytes ch @ be_bytes (of_nat (length data) :: u16) @ data
        in if send_ok then Inr frame else Inl TurnSend)"

definition refresh :: "turn_crypto \<Rightarrow> bool \<Rightarrow> bytes \<Rightarrow> turn_client \<Rightarrow> turn_error + bytes" where
  "refresh lib send_ok tid c =
     (let wire = build_with_integrity lib (client_key lib c) (push_credentials c
            (push_attr ATTR_LIFETIME (be_bytes (600 :: u32)) (turn_msg_new TURN_REFRESH_REQUEST tid)))
      in if send_ok then Inr wire else Inl TurnSend)"

section \<open>Messages are STUN packets\<close>

definition turn_msg_of :: "u16 \<Rightarrow> bytes \<Rightarrow> (u16 \<times> bytes) list \<Rightarrow> turn_msg" where
  "turn_msg_of t tid tvs = \<lparr>tm_type = t, tm_tid = tid, tm_attrs = tlvs tvs\<rparr>"

lemma tlvs_append [simp]: "tlvs (xs @ ys) = tlvs xs @ tlvs ys"
  by (simp add: tlvs_def)

lemma turn_msg_new_of: "turn_msg_new t tid = turn_msg_of t tid []"
  by (simp add: turn_msg_new_def turn_msg_of_def)

lemma push_attr_of: "push_attr t v (turn_msg_of ty tid tvs) = turn_msg_of ty tid (tvs @ [(t, v)])"
  by (simp add: push_attr_def turn_msg_of_def tlv_def)

lemma build_of: "build (turn_msg_of t tid tvs) = stun_packet t tid tvs"
  by (simp add: build_def turn_msg_of_def stun_packet_def)

text \<open>What the code relies on: HMAC-SHA1 is 20 bytes long.\<close>

definition turn_crypto_ok :: "turn_crypto \<Rightarrow> bool" where
  "turn_crypto_ok lib \<longleftrightarrow> (\<forall>k m. length (hmac_sha1 lib k m) = 20)"

text \<open>The last attribute is the MAC of everything before it.\<close>

definition integrity_ok :: "turn_crypto \<Rightarrow> bytes \<Rightarrow> bytes \<Rightarrow> (u16 \<times> bytes) list \<Rightarrow> bool" where
  "integrity_ok lib key wire tvs \<longleftrightarrow> tvs \<noteq> [] \<and>
     last tvs = (ATTR_MSG_INTEGRITY, hmac_sha1 lib key (take (length wire - 24) wire))"

lemma build_with_integrity_of:
  assumes "turn_crypto_ok lib"
  shows "\<exists>mi. length mi = 20 \<and>
    build_with_integrity lib key (turn_msg_of t tid tvs) = stun_packet t tid (tvs @ [(ATTR_MSG_INTEGRITY, mi)]) \<and>
    integrity_ok lib key (build_with_integrity lib key (turn_msg_of t tid tvs)) (tvs @ [(ATTR_MSG_INTEGRITY, mi)])"
proof -
  let ?pre = "be_bytes t @ be_bytes (of_nat (length (tlvs tvs) + 4 + 20) :: u16) @ be_bytes MAGIC_COOKIE @ tid @ tlvs tvs"
  let ?mi = "hmac_sha1 lib key ?pre"
  let ?w = "build_with_integrity lib key (turn_msg_of t tid tvs)"
  have len: "length ?mi = 20" using assms by (simp add: turn_crypto_ok_def)
  have w: "?w = ?pre @ be_bytes ATTR_MSG_INTEGRITY @ be_bytes (20 :: u16) @ ?mi"
    by (simp add: build_with_integrity_def turn_msg_of_def message_integrity_def Let_def)
  have "?w = stun_packet t tid (tvs @ [(ATTR_MSG_INTEGRITY, ?mi)])"
    unfolding w stun_packet_def tlvs_append using len by (simp add: tlv_def add_ac)
  moreover have "take (length ?w - 24) ?w = ?pre" unfolding w using len by simp
  ultimately show ?thesis using len unfolding integrity_ok_def by (intro exI[of _ ?mi]) simp
qed

lemma parse_raw_attrs_tlvs:
  assumes "\<forall>(t, v)\<in>set tvs. length v < 2 ^ 16"
  shows "parse_raw_attrs (pre @ tlvs tvs) (length pre) = tvs"
  using assms
proof (induction tvs arbitrary: pre)
  case Nil
  then show ?case by (simp add: parse_raw_attrs.simps)
next
  case (Cons tv tvs)
  obtain t v where tv: "tv = (t, v)" by (cases tv)
  have len: "length v < 2 ^ 16" using Cons.prems tv by auto
  note rd = tlv_read[OF len refl refl, of pre t "tlvs tvs"]
  have "parse_raw_attrs ((pre @ tlv t v) @ tlvs tvs) (length (pre @ tlv t v)) = tvs"
    by (rule Cons.IH) (use Cons.prems in auto)
  then have "parse_raw_attrs (pre @ tlv t v @ tlvs tvs) (length pre + 4 + (length v + (4 - length v mod 4) mod 4)) = tvs"
    by (simp add: ac_simps)
  then have "parse_raw_attrs (pre @ tlv t v @ tlvs tvs) (length pre) = (t, v) # tvs"
    by (subst parse_raw_attrs.simps) (use rd in \<open>simp add: Let_def\<close>)
  then show ?case by (simp add: tv)
qed

lemma parse_raw_packet:
  assumes "length tid = 12" "length (tlvs tvs) < 2 ^ 16"
  shows "parse_raw_attrs (drop 20 (stun_packet t tid tvs)) 0 = tvs" "slice 8 20 (stun_packet t tid tvs) = tid"
    "of_be_bytes (slice 0 2 (stun_packet t tid tvs)) = t"
proof -
  have "drop 20 (stun_packet t tid tvs) = tlvs tvs" using assms(1) by (simp add: stun_packet_def)
  moreover have "\<forall>(t, v)\<in>set tvs. length v < 2 ^ 16" using tlvs_member_length assms(2) by fastforce
  ultimately show "parse_raw_attrs (drop 20 (stun_packet t tid tvs)) 0 = tvs"
    using parse_raw_attrs_tlvs[of tvs "[]"] by simp
  show "slice 8 20 (stun_packet t tid tvs) = tid" "of_be_bytes (slice 0 2 (stun_packet t tid tvs)) = t"
    using stun_packet_read[OF assms refl, of t "[]"] by simp_all
qed

section \<open>The two parsers of the crate agree\<close>

lemma parse_attributes_raw:
  "parse_attributes buf tid pos = Inr as \<Longrightarrow>
   map (\<lambda>(t, v). parse_attribute tid t v) (parse_raw_attrs buf pos) = map Inr as"
proof (induction buf tid pos arbitrary: as rule: parse_attributes.induct)
  case (1 buf tid pos)
  let ?l = "unat (of_be_bytes (slice (pos + 2) (pos + 4) buf) :: u16)"
  show ?case
  proof (cases "length buf < pos + 4")
    case True
    then show ?thesis using 1(2) by (simp add: parse_attributes.simps[of buf] parse_raw_attrs.simps[of buf])
  next
    case False
    have fits: "\<not> length buf < pos + 4 + ?l"
      using 1(2) False by (auto simp: parse_attributes.simps[of buf] Let_def)
    from 1(2) False fits obtain a as' where
      a: "parse_attribute tid (of_be_bytes (slice pos (pos + 2) buf)) (slice (pos + 4) (pos + 4 + ?l) buf) = Inr a"
      and r: "parse_attributes buf tid (pos + 4 + (?l + (4 - ?l mod 4) mod 4)) = Inr as'" and as: "as = a # as'"
      by (auto simp: parse_attributes.simps[of buf tid pos] Let_def split: sum.splits)
    have "map (\<lambda>(t, v). parse_attribute tid t v) (parse_raw_attrs buf (pos + 4 + (?l + (4 - ?l mod 4) mod 4))) = map Inr as'"
      using 1(1)[OF _ refl refl _ _] False fits a r by simp
    then show ?thesis using False fits a as by (subst parse_raw_attrs.simps) (simp add: Let_def)
  qed
qed

lemma xor_decoders_agree: "parse_xor_mapped_addr val tid = Some a \<longleftrightarrow> decode_xor_mapped val tid = Inr a"
  by (auto simp: parse_xor_mapped_addr_def decode_xor_mapped_def Let_def)



section \<open>Credentials\<close>

text \<open>
  The check a server makes on a request: the attributes name the user, the realm and the nonce
  it gave out, and the last one is the MAC under the key derived from them and the password.
\<close>

definition authorised :: "turn_crypto \<Rightarrow> bytes \<Rightarrow> bytes \<Rightarrow> bytes \<Rightarrow> bytes \<Rightarrow> bytes \<Rightarrow> bool" where
  "authorised lib user password rlm non w =
     (let tvs = parse_raw_attrs (drop 20 w) 0
      in integrity_ok lib (derive_key lib user rlm password) w tvs \<and>
         (ATTR_USERNAME, user) \<in> set tvs \<and> (ATTR_REALM, rlm) \<in> set tvs \<and> (ATTR_NONCE, non) \<in> set tvs)"

text \<open>Bytes that an attribute takes at most: header and padding add seven.\<close>

lemma length_tlv_le: "length (tlv t v) \<le> length v + 7"
proof -
  have "(4 - length v mod 4) mod 4 < (4 :: nat)" by simp
  then show ?thesis by simp
qed

lemma length_tlv_ge: "length v + 4 \<le> length (tlv t v)"
  by simp

declare length_tlv [simp del]

lemma length_tlv_numeral [simp]:
  "length (tlv t [a, b, c, d]) = 8" "length (tlv t (be_bytes (w :: u32))) = 8"
  "length mi = 20 \<Longrightarrow> length (tlv t mi) = 24"
  by (simp_all add: length_tlv)

lemma credentials_authorised:
  assumes "turn_crypto_ok lib" "length tid = 12" "length (tlvs tvs) < 1024"
    "length (turn_username c) + length (realm c) + length (nonce c) < 60000"
  shows "authorised lib (turn_username c) (turn_password c) (realm c) (nonce c)
    (build_with_integrity lib (client_key lib c) (push_credentials c (turn_msg_of t tid tvs)))"
proof -
  let ?cred = "[(ATTR_USERNAME, turn_username c), (ATTR_REALM, realm c), (ATTR_NONCE, nonce c)]"
  let ?m = "turn_msg_of t tid (tvs @ ?cred)"
  obtain mi where mi: "length mi = 20"
    "build_with_integrity lib (client_key lib c) ?m = stun_packet t tid ((tvs @ ?cred) @ [(ATTR_MSG_INTEGRITY, mi)])"
    "integrity_ok lib (client_key lib c) (build_with_integrity lib (client_key lib c) ?m)
       ((tvs @ ?cred) @ [(ATTR_MSG_INTEGRITY, mi)])"
    using build_with_integrity_of[OF assms(1), of "client_key lib c" t tid "tvs @ ?cred"] by blast
  have "length (tlvs ((tvs @ ?cred) @ [(ATTR_MSG_INTEGRITY, mi)])) < 2 ^ 16"
    using assms(3,4) mi(1) length_tlv_le[of ATTR_USERNAME "turn_username c"] length_tlv_le[of ATTR_REALM "realm c"]
      length_tlv_le[of ATTR_NONCE "nonce c"] by simp
  from parse_raw_packet(1)[OF assms(2) this] mi(2)
  have "parse_raw_attrs (drop 20 (build_with_integrity lib (client_key lib c) ?m)) 0 =
      (tvs @ ?cred) @ [(ATTR_MSG_INTEGRITY, mi)]" by simp
  then have "authorised lib (turn_username c) (turn_password c) (realm c) (nonce c)
      (build_with_integrity lib (client_key lib c) ?m)"
    using mi(3) by (simp add: authorised_def client_key_def Let_def)
  then show ?thesis by (simp add: push_credentials_def push_attr_of)
qed


definition example_crypto :: turn_crypto where
  "example_crypto = \<lparr>md5 = (\<lambda>m. take 16 (m @ replicate 16 0)), hmac_sha1 = (\<lambda>k m. take 20 (k @ m @ replicate 20 0))\<rparr>"

lemma example_crypto_ok: "turn_crypto_ok example_crypto"
  by (simp add: turn_crypto_ok_def example_crypto_def del: take_append)

definition example_client :: turn_client where
  "example_client = \<lparr>turn_server = \<lparr>ip = V4 1, port = 3478\<rparr>, turn_username = [117], turn_password = [112],
     realm = [114], nonce = [110], allocation = None, channels = Map.empty\<rparr>"


section \<open>Allocate\<close>

lemma find_attr:
  assumes "distinct (map fst as)" "(t, v) \<in> set as" "P v"
  shows "List.find (\<lambda>(t', v'). t' = t \<and> P v') as = Some (t, v)"
  using assms by (induction as) (auto simp: image_iff)

lemma error_code_attr:
  assumes "distinct (map fst as)" "(ATTR_ERROR_CODE, v) \<in> set as" "4 \<le> length v"
  shows "error_code as = Some (ucast (v ! 2 AND 7) * 100 + ucast (v ! 3))"
  using assms by (induction as rule: error_code.induct) (auto simp: image_iff)

lemma absorb_challenge_attrs:
  assumes "distinct (map fst as)"
  shows "absorb_challenge as c = c\<lparr>
    realm := (case map_of as ATTR_REALM of None \<Rightarrow> realm c | Some v \<Rightarrow> to_string_lossy v),
    nonce := (case map_of as ATTR_NONCE of None \<Rightarrow> nonce c | Some v \<Rightarrow> v)\<rparr>"
  using assms
proof (induction as c rule: absorb_challenge.induct)
  case (2 t v as c)
  have ne: "ATTR_REALM \<noteq> ATTR_NONCE" "ATTR_NONCE \<noteq> ATTR_REALM" by (simp_all add: turn_attr_defs)
  have fresh: "map_of as t = None" using 2(2) by (simp add: map_of_eq_None_iff)
  consider "t = ATTR_REALM" | "t = ATTR_NONCE" | "t \<noteq> ATTR_REALM" "t \<noteq> ATTR_NONCE" by blast
  then show ?case
  proof cases
    case 1
    then show ?thesis using 2 fresh ne by (simp split: option.split)
  next
    case 2
    then show ?thesis using "2.IH" "2.prems" fresh ne by (simp split: option.split)
  next
    case 3
    then show ?thesis using 2 by (simp split: option.split)
  qed
qed simp

lemma find_address_xor:
  assumes "length tid = 12" "distinct (map fst as)" "(t, xor_address tid a) \<in> set as"
  shows "find_address t as tid = Some a"
  using assms xor_decoders_agree[of "xor_address tid a" tid a] decode_xor_address[of tid a]
    find_attr[OF assms(2,3), of "\<lambda>_. True"]
  by (simp add: find_address_def)

text \<open>The attributes of a success are found by their types, wherever they stand and whatever else there is.\<close>

definition grants :: "bytes \<Rightarrow> turn_allocation \<Rightarrow> (u16 \<times> bytes) list \<Rightarrow> bool" where
  "grants tid alloc tvs \<longleftrightarrow> distinct (map fst tvs) \<and>
     (ATTR_XOR_RELAYED, xor_address tid (relayed_addr alloc)) \<in> set tvs \<and>
     (ATTR_XOR_MAPPED, xor_address tid (alloc_mapped_addr alloc)) \<in> set tvs \<and>
     (ATTR_LIFETIME, be_bytes (lifetime_secs alloc)) \<in> set tvs"

definition challenges :: "bytes \<Rightarrow> bytes \<Rightarrow> (u16 \<times> bytes) list \<Rightarrow> bool" where
  "challenges rlm non tvs \<longleftrightarrow> distinct (map fst tvs) \<and> (ATTR_REALM, rlm) \<in> set tvs \<and> (ATTR_NONCE, non) \<in> set tvs \<and>
     (\<exists>reason. (ATTR_ERROR_CODE, [0, 0, 4, 1] @ reason) \<in> set tvs)"

lemma read_allocation_packet:
  assumes "length tid = 12" "length (tlvs tvs) < 2 ^ 16" "grants tid alloc tvs"
  shows "read_allocation (stun_packet t tid tvs) = Inr alloc"
proof -
  note g = assms(3)[unfolded grants_def]
  have "List.find (\<lambda>(t', v). t' = ATTR_LIFETIME \<and> length v = 4) tvs = Some (ATTR_LIFETIME, be_bytes (lifetime_secs alloc))"
    using g by (intro find_attr) simp_all
  moreover have "find_address ATTR_XOR_RELAYED tvs tid = Some (relayed_addr alloc)"
    "find_address ATTR_XOR_MAPPED tvs tid = Some (alloc_mapped_addr alloc)"
    using g by (simp_all add: find_address_xor[OF assms(1)])
  ultimately show ?thesis
    unfolding read_allocation_def HEADER_LEN_def parse_raw_packet[OF assms(1,2)] Let_def by simp
qed

lemma challenge_absorbed:
  assumes "challenges rlm non tvs" "from_utf8 rlm"
  shows "error_code tvs = Some 401" "absorb_challenge tvs c = c\<lparr>realm := rlm, nonce := non\<rparr>"
    "length rlm + length non \<le> 2 * length (tlvs tvs)"
proof -
  obtain reason where r: "distinct (map fst tvs)" "(ATTR_REALM, rlm) \<in> set tvs" "(ATTR_NONCE, non) \<in> set tvs"
    "(ATTR_ERROR_CODE, [0, 0, 4, 1] @ reason) \<in> set tvs" using assms(1) by (auto simp: challenges_def)
  show "error_code tvs = Some 401" using error_code_attr[OF r(1,4)] by simp
  have "map_of tvs ATTR_REALM = Some rlm" "map_of tvs ATTR_NONCE = Some non" using r(1-3) by simp_all
  then show "absorb_challenge tvs c = c\<lparr>realm := rlm, nonce := non\<rparr>"
    by (simp add: absorb_challenge_attrs[OF r(1)] to_string_lossy_valid[OF assms(2)])
  show "length rlm + length non \<le> 2 * length (tlvs tvs)"
    using tlvs_member_length[OF r(2)] tlvs_member_length[OF r(3)] by simp
qed

text \<open>
  C25: Allocate against a server that follows the protocol.  The server answers the bare
  request with a 401 that carries a realm and a nonce, and answers every request with valid
  credentials for them with a success that carries the relayed address, the mapped address and
  a lifetime, each in one datagram of at most the 1024 bytes the client receives.  The attributes
  may come in any order and beside any others, such as the MESSAGE-INTEGRITY and the SOFTWARE of
  RFC 5389, with no attribute type twice.  Then \<open>allocate\<close> returns exactly that allocation and stores it
  together with realm and nonce, for IPv4 and IPv6 addresses.
\<close>

theorem allocate_obtains_relay:
  assumes "turn_crypto_ok lib" "length tid2 = 12" "length stid1 = 12" "length stid2 = 12"
    "from_utf8 rlm" "rlm \<noteq> []" "non \<noteq> []" "length (turn_username c) < 50000"
    "challenges rlm non chal" "length (stun_packet TURN_ALLOCATE_ERROR stid1 chal) \<le> 1024"
    "grants stid2 alloc succ" "length (stun_packet TURN_ALLOCATE_SUCCESS stid2 succ) \<le> 1024"
    "net1 (turn_server c) (allocate_request lib tid1 False c) = Reply (stun_packet TURN_ALLOCATE_ERROR stid1 chal)"
    "\<And>w. authorised lib (turn_username c) (turn_password c) rlm non w \<Longrightarrow>
       net2 (turn_server c) w = Reply (stun_packet TURN_ALLOCATE_SUCCESS stid2 succ)"
  shows "allocate lib net1 net2 tid1 tid2 c =
    Return (Inr alloc, c\<lparr>realm := rlm, nonce := non, allocation := Some alloc\<rparr>)"
proof -
  let ?c1 = "c\<lparr>realm := rlm, nonce := non\<rparr>"
  let ?r1 = "stun_packet TURN_ALLOCATE_ERROR stid1 chal" and ?r2 = "stun_packet TURN_ALLOCATE_SUCCESS stid2 succ"
  have small: "length (tlvs chal) \<le> 1004" "length (tlvs succ) \<le> 1004" using assms(3,4,10,12) by simp_all
  note ch = challenge_absorbed[OF assms(9,5)]
  have r1: "send_allocate_request lib net1 tid1 False c = Inr ?r1"
    using assms(10,13) by (simp add: send_allocate_request_def exchange_def)
  have "parse_raw_attrs (drop HEADER_LEN ?r1) 0 = chal"
    using parse_raw_packet(1)[OF assms(3)] small(1) by (simp add: HEADER_LEN_def)
  then have step1: "allocate lib net1 net2 tid1 tid2 c = allocate_round2 lib net2 tid2 ?c1"
    using r1 assms(3,6,7) ch(1,2) by (simp add: allocate_def HEADER_LEN_def Let_def)
  have "authorised lib (turn_username c) (turn_password c) rlm non (allocate_request lib tid2 True ?c1)"
    using credentials_authorised[OF assms(1,2), of _ ?c1] assms(8) ch(3) small(1)
    unfolding allocate_request_def turn_msg_new_of push_attr_of Let_def if_True by simp
  then have "net2 (turn_server c) (allocate_request lib tid2 True ?c1) = Reply ?r2" by (rule assms(14))
  then have r2: "send_allocate_request lib net2 tid2 True ?c1 = Inr ?r2"
    using assms(12) by (simp add: send_allocate_request_def exchange_def)
  have "of_be_bytes (slice 0 2 ?r2) = TURN_ALLOCATE_SUCCESS"
    using stun_packet_read(1)[OF assms(4) _ refl, of succ TURN_ALLOCATE_SUCCESS "[]"] small(2) by simp
  then have "allocate_round2 lib net2 tid2 ?c1 = Return (Inr alloc, ?c1\<lparr>allocation := Some alloc\<rparr>)"
    using r2 assms(4) read_allocation_packet[OF assms(4) _ assms(11)] small(2)
    by (simp add: allocate_round2_def HEADER_LEN_def Let_def)
  then show ?thesis using step1 by simp
qed

text \<open>A server that sends SOFTWARE first and MESSAGE-INTEGRITY last.\<close>

theorem allocate_obtains_relay_witness:
  "let c = example_client; t = replicate 12 0;
       alloc = \<lparr>relayed_addr = \<lparr>ip = V4 5, port = 6\<rparr>, alloc_mapped_addr = \<lparr>ip = V6 7, port = 8\<rparr>, lifetime_secs = 300\<rparr>;
       chal = [(0x8022, [85]), (ATTR_NONCE, [121]), (ATTR_REALM, [120]), (ATTR_ERROR_CODE, [0, 0, 4, 1, 85])];
       succ = [(0x8022, [85]), (ATTR_LIFETIME, be_bytes (300 :: u32)), (ATTR_XOR_MAPPED, xor_address t \<lparr>ip = V6 7, port = 8\<rparr>),
         (ATTR_XOR_RELAYED, xor_address t \<lparr>ip = V4 5, port = 6\<rparr>), (ATTR_MSG_INTEGRITY, replicate 20 1)];
       net1 = (\<lambda>_ _. Reply (stun_packet TURN_ALLOCATE_ERROR t chal));
       net2 = (\<lambda>_ w. if authorised example_crypto [117] [112] [120] [121] w
         then Reply (stun_packet TURN_ALLOCATE_SUCCESS t succ) else TimedOut)
   in \<exists>c'. allocate example_crypto net1 net2 t t c = Return (Inr alloc, c') \<and> allocation c' = Some alloc"
proof -
  let ?t = "replicate 12 0 :: bytes" and ?a = "\<lparr>ip = V4 5, port = 6\<rparr>" and ?b = "\<lparr>ip = V6 7, port = 8\<rparr>"
  let ?alloc = "\<lparr>relayed_addr = ?a, alloc_mapped_addr = ?b, lifetime_secs = 300\<rparr>"
  let ?chal = "[(0x8022, [85]), (ATTR_NONCE, [121]), (ATTR_REALM, [120]), (ATTR_ERROR_CODE, [0, 0, 4, 1, 85])]"
  let ?succ = "[(0x8022, [85]), (ATTR_LIFETIME, be_bytes (300 :: u32)), (ATTR_XOR_MAPPED, xor_address ?t ?b),
    (ATTR_XOR_RELAYED, xor_address ?t ?a), (ATTR_MSG_INTEGRITY, replicate 20 1)]"
  have ch: "challenges [120] [121] ?chal" and gr: "grants ?t ?alloc ?succ"
    unfolding challenges_def grants_def by (auto simp: turn_attr_defs ATTR_XOR_MAPPED_def)
  have len: "length (stun_packet TURN_ALLOCATE_ERROR ?t ?chal) \<le> 1024"
    "length (stun_packet TURN_ALLOCATE_SUCCESS ?t ?succ) \<le> 1024"
    using length_xor_address[of ?t ?a] length_xor_address[of ?t ?b]
      length_tlv_le[of ATTR_XOR_RELAYED "xor_address ?t ?a"] length_tlv_le[of ATTR_XOR_MAPPED "xor_address ?t ?b"]
    by (simp_all add: length_tlv)
  let ?net2 = "\<lambda>_ w. if authorised example_crypto [117] [112] [120] [121] w
    then Reply (stun_packet TURN_ALLOCATE_SUCCESS ?t ?succ) else TimedOut"
  have "allocate example_crypto (\<lambda>_ _. Reply (stun_packet TURN_ALLOCATE_ERROR ?t ?chal)) ?net2 ?t ?t example_client =
    Return (Inr ?alloc, example_client\<lparr>realm := [120], nonce := [121], allocation := Some ?alloc\<rparr>)"
    by (rule allocate_obtains_relay[OF example_crypto_ok _ _ _ _ _ _ _ ch len(1) gr len(2)])
      (simp_all add: from_utf8_ascii example_client_def)
  then show ?thesis unfolding Let_def by (intro exI conjI) (assumption, simp)
qed

text \<open>
  What can crash Allocate.  An answer shorter than the 20-byte header makes \<open>allocate\<close>
  panic: the first answer always, the second once the challenge was accepted.  When no answer
  is that short it always returns, and an error leaves the allocation as it was.
\<close>

theorem allocate_panics_on_short_replies:
  shows "(net1 (turn_server c) (allocate_request lib tid1 False c) = Reply d \<and> length d < 20 \<longrightarrow>
      allocate lib net1 net2 tid1 tid2 c = Panic) \<and>
    ((\<forall>w d. net1 (turn_server c) w = Reply d \<or> net2 (turn_server c) w = Reply d \<longrightarrow> 20 \<le> length d) \<longrightarrow>
      (\<exists>r c'. allocate lib net1 net2 tid1 tid2 c = Return (r, c') \<and>
        allocation c' = (case r of Inl _ \<Rightarrow> allocation c | Inr alloc \<Rightarrow> Some alloc)))"
proof -
  have server: "turn_server (absorb_challenge as c) = turn_server c" "allocation (absorb_challenge as c) = allocation c"
    for as c by (induction as c rule: absorb_challenge.induct) auto
  have long: "20 \<le> length r" if "send_allocate_request lib net tid b c0 = Inr r"
    "\<forall>w d. net (turn_server c0) w = Reply d \<longrightarrow> 20 \<le> length d" for net tid b c0 r
    using that by (auto simp: send_allocate_request_def exchange_def split: net_reply.splits)
  have round2: "\<exists>r c'. allocate_round2 lib net2 tid2 c0 = Return (r, c') \<and>
      allocation c' = (case r of Inl _ \<Rightarrow> allocation c0 | Inr alloc \<Rightarrow> Some alloc)"
    if "\<forall>w d. net2 (turn_server c0) w = Reply d \<longrightarrow> 20 \<le> length d" for c0
    using that long[of net2 tid2 True c0]
    by (auto simp: allocate_round2_def HEADER_LEN_def Let_def split: sum.splits)
  have "\<exists>r c'. allocate lib net1 net2 tid1 tid2 c = Return (r, c') \<and>
        allocation c' = (case r of Inl _ \<Rightarrow> allocation c | Inr alloc \<Rightarrow> Some alloc)"
    if ok: "\<forall>w d. net1 (turn_server c) w = Reply d \<or> net2 (turn_server c) w = Reply d \<longrightarrow> 20 \<le> length d"
  proof (cases "send_allocate_request lib net1 tid1 False c")
    case (Inr r1)
    let ?c1 = "absorb_challenge (parse_raw_attrs (drop HEADER_LEN r1) 0) c"
    have "\<not> length r1 < HEADER_LEN" using long[OF Inr] ok by (simp add: HEADER_LEN_def not_less)
    then show ?thesis using round2[of ?c1] ok Inr server
      by (auto simp: allocate_def Let_def split: sum.splits)
  qed (simp add: allocate_def)
  moreover have "allocate lib net1 net2 tid1 tid2 c = Panic"
    if "net1 (turn_server c) (allocate_request lib tid1 False c) = Reply d" "length d < 20"
    using that by (simp add: allocate_def send_allocate_request_def exchange_def HEADER_LEN_def)
  ultimately show ?thesis by blast
qed

lemma example_client_idle: "allocation example_client = None"
  by (simp add: example_client_def)

theorem allocate_panics_on_short_replies_witness:
  "allocate example_crypto (\<lambda>_ _. Reply [1, 3]) (\<lambda>_ _. TimedOut) [] [] example_client = Panic \<and>
   (\<exists>r c'. allocate example_crypto (\<lambda>_ _. TimedOut) (\<lambda>_ _. TimedOut) [] [] example_client = Return (r, c') \<and>
      allocation c' = (case r of Inl _ \<Rightarrow> None | Inr alloc \<Rightarrow> Some alloc))"
  using allocate_panics_on_short_replies[of "\<lambda>_ _. Reply [1, 3]" example_client example_crypto "[]" "[1, 3]" "\<lambda>_ _. TimedOut" "[]"]
    allocate_panics_on_short_replies[of "\<lambda>_ _. TimedOut" example_client example_crypto "[]" "[]" "\<lambda>_ _. TimedOut" "[]"]
  unfolding example_client_idle by simp

section \<open>Channels\<close>

text \<open>The clients that a sequence of calls can produce.\<close>

inductive turn_reachable :: "turn_crypto \<Rightarrow> turn_client \<Rightarrow> bool" for lib where
  start: "turn_client_new True server user password = Inr c \<Longrightarrow> turn_reachable lib c"
| allocate: "turn_reachable lib c \<Longrightarrow> allocate lib net1 net2 tid1 tid2 c = Return (r, c') \<Longrightarrow> turn_reachable lib c'"
| bind: "turn_reachable lib c \<Longrightarrow> bind_channel lib net tid ch peer c = (r, c') \<Longrightarrow> turn_reachable lib c'"

lemma absorb_channels [simp]: "channels (absorb_challenge as c) = channels c"
  by (induction as c rule: absorb_challenge.induct) auto

lemma allocate_channels: "allocate lib net1 net2 tid1 tid2 c = Return (r, c') \<Longrightarrow> channels c' = channels c"
  by (auto simp: allocate_def allocate_round2_def Let_def split: sum.splits if_splits)

lemma bind_channel_channels:
  "bind_channel lib net tid ch peer c = (r, c') \<Longrightarrow>
   channels c' = channels c \<or> (channels c' = (channels c)(ch \<mapsto> peer) \<and> 0x4000 \<le> ch \<and> ch \<le> 0x7FFF)"
  by (auto simp: bind_channel_def Let_def split: sum.splits if_splits)

lemma reachable_channels:
  assumes "turn_reachable lib c" "ch \<in> dom (channels c)"
  shows "0x4000 \<le> ch \<and> ch \<le> 0x7FFF"
  using assms
proof (induction arbitrary: ch rule: turn_reachable.induct)
  case (start server user password c)
  then show ?case by (auto simp: turn_client_new_def)
next
  case (allocate c net1 net2 tid1 tid2 r c')
  then show ?case using allocate_channels by metis
next
  case (bind c net tid ch0 peer r c')
  show ?case
  proof (cases "channels c' = channels c \<or> ch \<noteq> ch0")
    case True
    then have "ch \<in> dom (channels c)" using bind_channel_channels[OF bind(2)] bind(4) by auto
    then show ?thesis by (rule bind(3))
  next
    case False
    then show ?thesis using bind_channel_channels[OF bind(2)] by blast
  qed
qed

lemma channel_first_byte:
  assumes "0x4000 \<le> (ch :: u16)" "ch \<le> 0x7FFF"
  shows "0x40 \<le> be_bytes ch ! 0 \<and> be_bytes ch ! 0 \<le> 0x7F"
proof -
  have b: "be_bytes ch ! 0 = ucast (drop_bit 8 ch)" by (simp add: be_bytes_def le_bytes_def rev_nth)
  have "unat (drop_bit 8 ch) = unat ch div 256" by (simp only: unat_drop_bit_eq) (simp add: drop_bit_eq_div)
  moreover have "16384 \<le> unat ch" "unat ch \<le> 32767" using assms by (simp_all add: word_le_nat_alt)
  ultimately have "64 \<le> unat (drop_bit 8 ch)" "unat (drop_bit 8 ch) \<le> 127" by simp_all
  then show ?thesis unfolding b by (simp add: word_le_nat_alt unsigned_ucast_eq take_bit_nat_eq_self)
qed

text \<open>
  Channel data.  In every reachable client a channel can be used exactly when it is bound,
  and bound channels have numbers from 0x4000 to 0x7FFF.  So every frame that
  \<open>send_channel_data\<close> sends starts with a byte from 0x40 to 0x7F, which the server can tell from
  the STUN messages of this client (their first byte is below 0x40), and carries the channel
  number, the length (for data below 64 KB) and the data.
\<close>

theorem channel_data_framing:
  assumes "turn_reachable lib c"
  shows "(\<exists>frame. send_channel_data True ch data c = Inr frame) = (ch \<in> dom (channels c)) \<and>
    (send_channel_data True ch data c = Inr frame \<longrightarrow>
      0x40 \<le> frame ! 0 \<and> frame ! 0 \<le> 0x7F \<and> of_be_bytes (take 2 frame) = ch \<and> drop 4 frame = data \<and>
      (length data < 2 ^ 16 \<longrightarrow> unat (of_be_bytes (slice 2 4 frame) :: u16) = length data))"
proof -
  have sent: "send_channel_data True ch data c = (if ch \<in> dom (channels c)
      then Inr (be_bytes ch @ be_bytes (of_nat (length data) :: u16) @ data) else Inl (ChannelNotBound ch))"
    by (auto simp: send_channel_data_def Let_def)
  have "0x40 \<le> frame ! 0 \<and> frame ! 0 \<le> 0x7F \<and> of_be_bytes (take 2 frame) = ch \<and> drop 4 frame = data \<and>
      (length data < 2 ^ 16 \<longrightarrow> unat (of_be_bytes (slice 2 4 frame) :: u16) = length data)"
    if "send_channel_data True ch data c = Inr frame"
  proof -
    have ch: "ch \<in> dom (channels c)" and f: "frame = be_bytes ch @ be_bytes (of_nat (length data) :: u16) @ data"
      using that sent by (auto split: if_splits)
    have "frame ! 0 = be_bytes ch ! 0" by (simp add: f nth_append)
    moreover have "slice 2 4 frame = be_bytes (of_nat (length data) :: u16)"
      unfolding f by (rule slice_at) simp_all
    ultimately show ?thesis using reachable_channels[OF assms ch] channel_first_byte[of ch] f
      by (simp add: unat_of_nat_small)
  qed
  then show ?thesis using sent by auto
qed

lemma example_bound: "\<exists>c. turn_reachable example_crypto c \<and> channels c = [0x4000 \<mapsto> \<lparr>ip = V4 9, port = 9\<rparr>]"
proof -
  obtain c0 where c0: "turn_client_new True \<lparr>ip = V4 1, port = 1\<rparr> [] [] = Inr c0" "channels c0 = Map.empty"
    by (simp add: turn_client_new_def)
  let ?net = "\<lambda>_ _. Reply (be_bytes TURN_CHANNEL_BIND_OK)"
  have "slice 0 2 (recv_buf (be_bytes TURN_CHANNEL_BIND_OK)) = be_bytes TURN_CHANNEL_BIND_OK"
    by (simp add: recv_buf_def)
  then have b: "snd (bind_channel example_crypto ?net [] 0x4000 \<lparr>ip = V4 9, port = 9\<rparr> c0) =
      c0\<lparr>channels := [0x4000 \<mapsto> \<lparr>ip = V4 9, port = 9\<rparr>]\<rparr>"
    by (simp add: bind_channel_def exchange_def Let_def c0(2))
  have "turn_reachable example_crypto (snd (bind_channel example_crypto ?net [] 0x4000 \<lparr>ip = V4 9, port = 9\<rparr> c0))"
    using turn_reachable.bind[OF turn_reachable.start[OF c0(1)] prod.collapse[symmetric]] .
  then show ?thesis unfolding b by (intro exI conjI, assumption) simp
qed

theorem channel_data_framing_witness:
  "\<exists>c frame. turn_reachable example_crypto c \<and> send_channel_data True 0x4000 [1, 2] c = Inr frame \<and> drop 4 frame = [1, 2]"
proof -
  obtain c where c: "turn_reachable example_crypto c" "channels c = [0x4000 \<mapsto> \<lparr>ip = V4 9, port = 9\<rparr>]"
    using example_bound by blast
  then obtain frame where f: "send_channel_data True 0x4000 [1, 2] c = Inr frame"
    using channel_data_framing[OF c(1), of "0x4000" "[1, 2]"] by auto
  then show ?thesis using channel_data_framing[OF c(1), of "0x4000" "[1, 2]" frame] c(1) by blast
qed

section \<open>Peer addresses\<close>

text \<open>The peer address is encoded as the protocol wants it for IPv4, and never for IPv6, where
  the XOR with the magic cookie and the transaction identifier is missing.\<close>

lemma encode_xor_peer_v4: "ip a = V4 w \<Longrightarrow> encode_xor_peer a tid = xor_address tid a"
  by (simp add: encode_xor_peer_def xor_address_def)

lemma xor_fixed: "x = x XOR k \<Longrightarrow> k = (0 :: 'a::len word)"
  by (metis xor.assoc xor.left_neutral xor_self_eq)

lemma encode_xor_peer_v6_wrong:
  assumes "ip a = V6 w" "length tid = 12"
  shows "encode_xor_peer a tid \<noteq> xor_address tid a"
proof
  let ?k = "be_bytes MAGIC_COOKIE @ tid"
  assume "encode_xor_peer a tid = xor_address tid a"
  then have eq: "be_bytes w = xor_bytes (be_bytes w) ?k" using assms(1) by (simp add: encode_xor_peer_def xor_address_def)
  have "be_bytes w ! 0 = be_bytes w ! 0 XOR ?k ! 0"
    by (subst eq) (simp add: xor_bytes_def assms(2))
  then have "?k ! 0 = 0" by (rule xor_fixed)
  moreover have "?k ! 0 = 0x21" by (simp add: nth_append be_bytes_def le_bytes_def rev_nth MAGIC_COOKIE_def)
  ultimately show False by simp
qed

end
