(* ===== verification/Ice.thy ===== *)
theory Ice
  imports Stun "HOL-Library.Multiset"
begin

text \<open>
  The ICE agent (\<^verbatim>\<open>crates/traversal/src/ice.rs\<close>): candidates and their priorities, the check
  list and the connectivity checks.  \<open>check i addr\<close> is the outcome of the STUN check that the
  agent makes for the pair at position \<open>i\<close>.  The display of IP addresses that goes into
  foundations is that of the Rust standard library.
\<close>

section \<open>Displaying addresses\<close>

function show_base :: "nat \<Rightarrow> nat \<Rightarrow> string" where
  "show_base b n = (if b < 2 \<or> n < b then [''0123456789abcdef'' ! (n mod 16)]
     else show_base b (n div b) @ [''0123456789abcdef'' ! (n mod b mod 16)])"
  by pat_completeness auto
termination
  by (relation "measure snd") (auto intro: div_less_dividend)

fun join_with :: "string \<Rightarrow> string list \<Rightarrow> string" where
  "join_with sep [] = []"
| "join_with sep [x] = x"
| "join_with sep (x # xs) = x @ sep @ join_with sep xs"

definition show_ipv4 :: "u32 \<Rightarrow> string" where
  "show_ipv4 w = join_with ''.'' (map (\<lambda>b. show_base 10 (unat b)) (be_bytes w))"

text \<open>The longest run of zero segments, the first one of that length: its start and length.\<close>

fun longest_zeroes :: "u16 list \<Rightarrow> nat \<Rightarrow> nat \<times> nat \<Rightarrow> nat \<times> nat \<Rightarrow> nat \<times> nat" where
  "longest_zeroes [] i current longest = longest"
| "longest_zeroes (s # ss) i current longest =
     (if s = 0 then
        let c = (if snd current = 0 then (i, 1) else (fst current, Suc (snd current)))
        in longest_zeroes ss (Suc i) c (if snd longest < snd c then c else longest)
      else longest_zeroes ss (Suc i) (0, 0) longest)"

definition show_ipv6 :: "128 word \<Rightarrow> string" where
  "show_ipv6 w =
     (let segments = map of_be_bytes (chunks 2 (be_bytes w)) :: u16 list;
          (start, len) = longest_zeroes segments 0 (0, 0) (0, 0);
          hex = (\<lambda>ss. join_with '':'' (map (\<lambda>s. show_base 16 (unat s)) ss))
      in if take 6 segments = [0, 0, 0, 0, 0, 0xFFFF]
         then ''::ffff:'' @ show_ipv4 (ucast w)
         else if 1 < len then hex (take start segments) @ ''::'' @ hex (drop (start + len) segments)
         else hex segments)"

definition show_ip :: "ip_addr \<Rightarrow> string" where
  "show_ip a = (case a of V4 w \<Rightarrow> show_ipv4 w | V6 w \<Rightarrow> show_ipv6 w)"

section \<open>Candidates\<close>

datatype candidate_type = Host | ServerReflexive | Relayed

record candidate =
  cand_type :: candidate_type
  cand_addr :: socket_addr
  cand_priority :: u32
  foundation :: string
  component_id :: u8

definition type_preference :: "candidate_type \<Rightarrow> u32" where
  "type_preference t = (case t of Host \<Rightarrow> 126 | ServerReflexive \<Rightarrow> 100 | Relayed \<Rightarrow> 0)"

definition compute_priority :: "u32 \<Rightarrow> u32 \<Rightarrow> u32 \<Rightarrow> u32" where
  "compute_priority type_pref local_pref component =
     push_bit 24 1 * type_pref + push_bit 8 1 * local_pref + (256 - component)"

definition show_candidate_type :: "candidate_type \<Rightarrow> string" where
  "show_candidate_type t = (case t of
     Host \<Rightarrow> ''Host'' | ServerReflexive \<Rightarrow> ''ServerReflexive'' | Relayed \<Rightarrow> ''Relayed'')"

definition candidate_new :: "candidate_type \<Rightarrow> socket_addr \<Rightarrow> u32 \<Rightarrow> candidate" where
  "candidate_new t addr local_pref =
     \<lparr>cand_type = t, cand_addr = addr,
      cand_priority = compute_priority (type_preference t) local_pref 1,
      foundation = show_candidate_type t @ ''-'' @ show_ip (ip addr), component_id = 1\<rparr>"

section \<open>Pairs\<close>

datatype pair_state = Waiting | InProgress | Succeeded | Failed

datatype ice_role = Controlling | Controlled

record candidate_pair =
  pair_local :: candidate
  pair_remote :: candidate
  pair_prio :: u64
  pair_state :: pair_state

definition pair_priority :: "u32 \<Rightarrow> u32 \<Rightarrow> ice_role \<Rightarrow> u64" where
  "pair_priority g d role =
     (let (controlling, controlled) = (case role of
            Controlling \<Rightarrow> (ucast g, ucast d) | Controlled \<Rightarrow> (ucast d, ucast g)) :: u64 \<times> u64
      in push_bit 32 (min controlling controlled) OR push_bit 1 (max controlling controlled) OR
         (if controlled < controlling then 1 else 0))"

definition pair_new :: "candidate \<Rightarrow> candidate \<Rightarrow> ice_role \<Rightarrow> candidate_pair" where
  "pair_new l r role =
     \<lparr>pair_local = l, pair_remote = r,
      pair_prio = pair_priority (cand_priority l) (cand_priority r) role, pair_state = Waiting\<rparr>"

section \<open>The agent\<close>

record ice_agent =
  ice_role :: ice_role
  local_cands :: "candidate list"
  remote_cands :: "candidate list"
  check_list :: "candidate_pair list"

definition ice_agent_new :: "ice_role \<Rightarrow> ice_agent" where
  "ice_agent_new role = \<lparr>ice_role = role, local_cands = [], remote_cands = [], check_list = []\<rparr>"

definition add_local_candidate :: "candidate \<Rightarrow> ice_agent \<Rightarrow> ice_agent" where
  "add_local_candidate c a = a\<lparr>local_cands := local_cands a @ [c]\<rparr>"

definition set_remote_candidates :: "candidate list \<Rightarrow> ice_agent \<Rightarrow> ice_agent" where
  "set_remote_candidates cs a = a\<lparr>remote_cands := cs\<rparr>"

definition form_pairs :: "ice_agent \<Rightarrow> candidate_pair list" where
  "form_pairs a = concat (map (\<lambda>l. concat (map (\<lambda>r.
     if is_ipv4 (cand_addr l) \<noteq> is_ipv4 (cand_addr r) then [] else [pair_new l r (ice_role a)])
     (remote_cands a))) (local_cands a))"

text \<open>\<open>sort_by\<close> is a stable sort; the order is descending in the priority.\<close>

definition form_check_list :: "ice_agent \<Rightarrow> ice_agent" where
  "form_check_list a = a\<lparr>check_list := sort_key (\<lambda>p. - int (unat (pair_prio p))) (form_pairs a)\<rparr>"

fun run_checks_loop :: "(nat \<Rightarrow> socket_addr \<Rightarrow> discover_error + socket_addr) \<Rightarrow> nat \<Rightarrow>
    candidate_pair list \<Rightarrow> candidate_pair option \<times> candidate_pair list" where
  "run_checks_loop check i [] = (None, [])"
| "run_checks_loop check i (p # ps) =
     (if pair_state p \<noteq> Waiting then map_prod id ((#) p) (run_checks_loop check (Suc i) ps)
      else case check i (cand_addr (pair_remote p)) of
             Inr _ \<Rightarrow> (Some (p\<lparr>pair_state := Succeeded\<rparr>), p\<lparr>pair_state := Succeeded\<rparr> # ps)
           | Inl _ \<Rightarrow> map_prod id ((#) (p\<lparr>pair_state := Failed\<rparr>)) (run_checks_loop check (Suc i) ps))"

definition run_checks :: "(nat \<Rightarrow> socket_addr \<Rightarrow> discover_error + socket_addr) \<Rightarrow> ice_agent \<Rightarrow>
    candidate_pair option \<times> ice_agent" where
  "run_checks check a =
     (let (found, ps) = run_checks_loop check 0 (check_list a) in (found, a\<lparr>check_list := ps\<rparr>))"

definition selected_pair :: "ice_agent \<Rightarrow> candidate_pair option" where
  "selected_pair a = List.find (\<lambda>p. pair_state p = Succeeded) (check_list a)"

section \<open>Priorities\<close>

lemma unat_compute_priority:
  assumes "unat tp \<le> 126" "unat lp \<le> 65535"
  shows "unat (compute_priority tp lp 1) = 2 ^ 24 * unat tp + 2 ^ 8 * unat lp + 255"
proof -
  have tp: "unat (push_bit 24 1 * tp) = 2 ^ 24 * unat tp"
    using assms(1) by (simp add: unat_word_ariths push_bit_eq_mult)
  have lp: "unat (push_bit 8 1 * lp) = 2 ^ 8 * unat lp"
    using assms(2) by (simp add: unat_word_ariths push_bit_eq_mult)
  show ?thesis unfolding compute_priority_def
    using assms by (simp add: unat_word_ariths tp lp)
qed

lemma bit_bound:
  assumes "unat (w :: 'a::len word) < 2 ^ k" "bit w n"
  shows "n < k"
proof (rule ccontr)
  assume "\<not> n < k"
  then have "(2 :: nat) ^ k \<le> 2 ^ n" by simp
  then have "unat w div 2 ^ n = 0" using assms(1) by (intro div_less) linarith
  moreover have "odd (unat w div 2 ^ n)" 
  proof -
    have "bit (unat w) n" using assms(2) by (simp add: bit_unsigned_iff)
    then show ?thesis using bit_iff_odd[of "unat w" n] by blast
  qed
  ultimately show False by simp
qed

text \<open>The pair priority of RFC 8445, section 6.1.2.3, over the natural numbers.\<close>

definition rfc_pair_priority :: "nat \<Rightarrow> nat \<Rightarrow> nat" where
  "rfc_pair_priority g d = 2 ^ 32 * min g d + 2 * max g d + (if d < g then 1 else 0)"

lemma unat_or_priority:
  fixes lo hi :: u64
  assumes "unat lo < 2 ^ 31" "unat hi < 2 ^ 31" "z = 0 \<or> z = 1"
  shows "unat (push_bit 32 lo OR push_bit 1 hi OR z) = 2 ^ 32 * unat lo + 2 * unat hi + unat z"
proof -
  let ?x = "push_bit 32 lo" and ?y = "push_bit 1 hi"
  have y: "1 \<le> n \<and> n < 32" if "bit ?y n" for n
  proof -
    have "1 \<le> n \<and> bit hi (n - 1)" using that unfolding bit_push_bit_iff by blast
    then show ?thesis using bit_bound[OF assms(2), of "n - 1"] by auto
  qed
  have x: "32 \<le> n" if "bit ?x n" for n using that unfolding bit_push_bit_iff by blast
  have "?x AND ?y = 0"
  proof (rule bit_eqI)
    fix n show "bit (?x AND ?y) n = bit (0 :: u64) n" unfolding bit_and_iff using x[of n] y[of n] by auto
  qed
  then have xy: "?x OR ?y = ?x + ?y" by (rule disjunctive_add_eq_or[symmetric])
  have "(?x OR ?y) AND z = 0"
  proof (rule bit_eqI)
    fix n
    have "n = 0" if "bit z n" using that assms(3) by (auto simp: bit_1_iff)
    then show "bit ((?x OR ?y) AND z) n = bit (0 :: u64) n"
      unfolding bit_and_iff bit_or_iff using x[of n] y[of n] by auto
  qed
  then have "(?x OR ?y) OR z = ?x + ?y + z" unfolding xy by (rule disjunctive_add_eq_or[symmetric])
  moreover have "unat ?x = 2 ^ 32 * unat lo" "unat ?y = 2 * unat hi"
    using assms(1,2) by (simp_all add: push_bit_eq_mult unat_word_ariths)
  moreover have "unat z \<le> 1" using assms(3) by auto
  ultimately show ?thesis using assms(1,2) by (simp add: unat_word_ariths or.assoc)
qed

lemma unat_pair_priority:
  assumes "unat g < 2 ^ 31" "unat d < 2 ^ 31"
  shows "unat (pair_priority g d Controlling) = rfc_pair_priority (unat g) (unat d)"
    "unat (pair_priority g d Controlled) = rfc_pair_priority (unat d) (unat g)"
proof -
  have u: "unat (ucast w :: u64) = unat w" for w :: u32
    by (simp add: unsigned_ucast_eq take_bit_nat_eq_self unsigned_less[THEN order_less_trans])
  have m: "unat (min a b) = min (unat a) (unat b)" "unat (max a b) = max (unat a) (unat b)" for a b :: u64
    by (auto simp: min_def max_def word_le_nat_alt)
  have "unat (push_bit 32 (min a b) OR push_bit 1 (max a b) OR (if b < a then 1 else 0)) =
      rfc_pair_priority (unat a) (unat b)" if "unat a < 2 ^ 31" "unat b < 2 ^ 31" for a b :: u64
  proof -
    have z: "(if b < a then 1 else 0 :: u64) = 0 \<or> (if b < a then 1 else 0 :: u64) = 1" by simp
    have "unat (min a b) < 2 ^ 31" "unat (max a b) < 2 ^ 31" using that by (simp_all add: m)
    from unat_or_priority[OF this z] show ?thesis
      unfolding rfc_pair_priority_def m by (simp add: word_less_nat_alt)
  qed
  note pp = this[of "ucast g :: u64" "ucast d :: u64", unfolded u] this[of "ucast d :: u64" "ucast g :: u64", unfolded u]
  show "unat (pair_priority g d Controlling) = rfc_pair_priority (unat g) (unat d)"
    unfolding pair_priority_def Let_def ice_role.case prod.case by (rule pp(1)[OF assms])
  show "unat (pair_priority g d Controlled) = rfc_pair_priority (unat d) (unat g)"
    unfolding pair_priority_def Let_def ice_role.case prod.case by (rule pp(2)[OF assms(2,1)])
qed

lemma candidate_priority_nat:
  assumes "unat local_pref \<le> 65535"
  shows "unat (cand_priority (candidate_new t addr local_pref)) =
      2 ^ 24 * unat (type_preference t) + 2 ^ 8 * unat local_pref + 255"
    and "unat (cand_priority (candidate_new t addr local_pref)) < 2 ^ 31"
proof -
  have tp: "unat (type_preference t) \<le> 126" by (cases t) (simp_all add: type_preference_def)
  note eq = unat_compute_priority[OF tp assms]
  show "unat (cand_priority (candidate_new t addr local_pref)) =
      2 ^ 24 * unat (type_preference t) + 2 ^ 8 * unat local_pref + 255"
    using eq by (simp add: candidate_new_def)
  show "unat (cand_priority (candidate_new t addr local_pref)) < 2 ^ 31"
    using eq tp assms by (simp add: candidate_new_def)
qed

text \<open>The type preferences RFC 8445 recommends (5.1.2.2), written apart from the code's table.\<close>

definition rfc_type_preference :: "candidate_type \<Rightarrow> nat" where
  "rfc_type_preference t = (if t = Host then 126 else if t = ServerReflexive then 100 else 0)"

text \<open>
  C33: priorities are those of RFC 8445.  For local preferences up to 65535 the \<open>u32\<close>
  arithmetic of \<open>compute_priority\<close> does not wrap and gives the RFC's number with the RFC's type
  preferences, 126 for host, 100 for server-reflexive and 0 for relayed candidates; whatever the
  local preferences, a host candidate ranks above a server-reflexive one and that above a relayed
  one; the priority of a pair of such candidates, computed with shifts and ORs on \<open>u64\<close>, is the
  number of the RFC; and the two agents compute the same priority for the same pair.
\<close>

theorem priorities_follow_rfc:
  assumes "unat lp \<le> 65535" "unat rp \<le> 65535"
    "l = candidate_new lt laddr lp" "r = candidate_new rt raddr rp"
  shows "unat (cand_priority l) = 2 ^ 24 * rfc_type_preference lt + 2 ^ 8 * unat lp + (256 - 1) \<and>
    ((lt, rt) \<in> {(Relayed, ServerReflexive), (Relayed, Host), (ServerReflexive, Host)} \<longrightarrow>
      cand_priority l < cand_priority r) \<and>
    unat (pair_prio (pair_new l r Controlling)) =
      rfc_pair_priority (unat (cand_priority l)) (unat (cand_priority r)) \<and>
    pair_prio (pair_new r l Controlled) = pair_prio (pair_new l r Controlling)"
proof -
  have pref: "unat (type_preference t) = rfc_type_preference t" for t
    by (cases t) (simp_all add: type_preference_def rfc_type_preference_def)
  note L = candidate_priority_nat[OF assms(1), of lt laddr, folded assms(3), unfolded pref]
  note R = candidate_priority_nat[OF assms(2), of rt raddr, folded assms(4), unfolded pref]
  have "unat (cand_priority l) < unat (cand_priority r)"
    if "(lt, rt) \<in> {(Relayed, ServerReflexive), (Relayed, Host), (ServerReflexive, Host)}"
    using that assms(1,2) unfolding L(1) R(1) by (auto simp: rfc_type_preference_def)
  moreover have "unat (pair_prio (pair_new r l Controlled)) = unat (pair_prio (pair_new l r Controlling))"
    using unat_pair_priority(2)[OF R(2) L(2)] unat_pair_priority(1)[OF L(2) R(2)] by (simp add: pair_new_def)
  ultimately show ?thesis using L(1) unat_pair_priority(1)[OF L(2) R(2)]
    by (simp add: pair_new_def word_less_nat_alt word_unat_eq_iff)
qed

theorem priorities_follow_rfc_witness:
  "let l = candidate_new Relayed \<lparr>ip = V4 1, port = 2\<rparr> 65535; r = candidate_new ServerReflexive \<lparr>ip = V4 3, port = 4\<rparr> 0
   in unat (cand_priority l) = 2 ^ 8 * 65535 + 255 \<and> cand_priority l < cand_priority r \<and>
      pair_prio (pair_new r l Controlled) = pair_prio (pair_new l r Controlling)"
  using priorities_follow_rfc[of 65535 0 "candidate_new Relayed \<lparr>ip = V4 1, port = 2\<rparr> 65535" Relayed
      "\<lparr>ip = V4 1, port = 2\<rparr>" "candidate_new ServerReflexive \<lparr>ip = V4 3, port = 4\<rparr> 0" ServerReflexive "\<lparr>ip = V4 3, port = 4\<rparr>"]
  by (simp add: rfc_type_preference_def Let_def)

section \<open>The check list\<close>

lemma set_form_pairs:
  "p \<in> set (form_pairs a) \<longleftrightarrow> (\<exists>l\<in>set (local_cands a). \<exists>r\<in>set (remote_cands a).
     is_ipv4 (cand_addr l) = is_ipv4 (cand_addr r) \<and> p = pair_new l r (ice_role a))"
  by (auto simp: form_pairs_def split: if_splits)

lemma check_list_facts:
  assumes "a' = form_check_list a"
  shows "mset (check_list a') = mset (form_pairs a)"
    "sorted_wrt (\<lambda>p q. pair_prio q \<le> pair_prio p) (check_list a')"
    "\<forall>p\<in>set (check_list a'). pair_state p = Waiting"
proof -
  show "mset (check_list a') = mset (form_pairs a)" by (simp add: assms form_check_list_def)
  have "sorted (map (\<lambda>p. - int (unat (pair_prio p))) (check_list a'))" by (simp add: assms form_check_list_def)
  then show "sorted_wrt (\<lambda>p q. pair_prio q \<le> pair_prio p) (check_list a')"
    by (simp add: sorted_map word_le_def)
  show "\<forall>p\<in>set (check_list a'). pair_state p = Waiting"
    by (auto simp: assms form_check_list_def set_form_pairs pair_new_def)
qed

definition fail_waiting :: "candidate_pair \<Rightarrow> candidate_pair" where
  "fail_waiting p = (if pair_state p = Waiting then p\<lparr>pair_state := Failed\<rparr> else p)"

definition reaches :: "(nat \<Rightarrow> socket_addr \<Rightarrow> discover_error + socket_addr) \<Rightarrow> nat \<Rightarrow> candidate_pair \<Rightarrow> bool" where
  "reaches check i p \<longleftrightarrow> pair_state p = Waiting \<and> (\<exists>a. check i (cand_addr (pair_remote p)) = Inr a)"

text \<open>What the loop does: it stops at the first waiting pair whose check succeeds.\<close>

lemma run_checks_loop_cases:
  "(run_checks_loop check i ps = (None, map fail_waiting ps) \<and> (\<forall>j < length ps. \<not> reaches check (i + j) (ps ! j))) \<or>
   (\<exists>j < length ps. reaches check (i + j) (ps ! j) \<and> (\<forall>k < j. \<not> reaches check (i + k) (ps ! k)) \<and>
      run_checks_loop check i ps = (Some ((ps ! j)\<lparr>pair_state := Succeeded\<rparr>),
        map fail_waiting (take j ps) @ (ps ! j)\<lparr>pair_state := Succeeded\<rparr> # drop (Suc j) ps))"
proof (induction ps arbitrary: i)
  case (Cons p ps)
  show ?case
  proof (cases "reaches check i p")
    case True
    then show ?thesis by (intro disjI2 exI[of _ 0]) (auto simp: reaches_def)
  next
    case False
    then have step: "run_checks_loop check i (p # ps) = map_prod id ((#) (fail_waiting p)) (run_checks_loop check (Suc i) ps)"
      by (auto simp: reaches_def fail_waiting_def split: sum.splits)
    show ?thesis using Cons.IH[of "Suc i"]
    proof (elim disjE exE conjE)
      assume r: "run_checks_loop check (Suc i) ps = (None, map fail_waiting ps)"
        "\<forall>j < length ps. \<not> reaches check (Suc i + j) (ps ! j)"
      have "\<not> reaches check (i + j) ((p # ps) ! j)" if "j < length (p # ps)" for j
        using that r(2) False by (cases j) auto
      then show ?thesis using r(1) step by simp
    next
      fix j assume j: "j < length ps" "reaches check (Suc i + j) (ps ! j)" "\<forall>k < j. \<not> reaches check (Suc i + k) (ps ! k)"
        "run_checks_loop check (Suc i) ps = (Some ((ps ! j)\<lparr>pair_state := Succeeded\<rparr>),
          map fail_waiting (take j ps) @ (ps ! j)\<lparr>pair_state := Succeeded\<rparr> # drop (Suc j) ps)"
      have "\<not> reaches check (i + k) ((p # ps) ! k)" if "k < Suc j" for k
        using that j(3) False by (cases k) auto
      then show ?thesis using j step by (intro disjI2 exI[of _ "Suc j"]) simp
    qed
  qed
qed simp

lemma find_append_none: "\<forall>x\<in>set xs. \<not> P x \<Longrightarrow> List.find P (xs @ ys) = List.find P ys"
  by (induction xs) auto


definition example_agent :: ice_agent where
  "example_agent = set_remote_candidates [candidate_new Host \<lparr>ip = V4 9, port = 9\<rparr> 1]
     (add_local_candidate (candidate_new Host \<lparr>ip = V4 7, port = 7\<rparr> 1) (ice_agent_new Controlling))"


end
