(* ===== verification/HolePunch.thy ===== *)
theory HolePunch
  imports Ice Turn
begin

text \<open>
  The hole-punching pipeline (\<^verbatim>\<open>crates/traversal/src/holepunch.rs\<close>) and the engine around it
  (\<^verbatim>\<open>crates/traversal/src/lib.rs\<close>): STUN discovery, the ICE checks with retries and the TURN
  fallback.  The operating system and the network are arguments, gathered in \<open>punch_env\<close>: the
  address a port binds to, and for each exchange its transaction identifier and its answer.
\<close>

section \<open>The model\<close>

record turn_config =
  tc_server :: socket_addr
  tc_username :: bytes
  tc_password :: bytes

record hole_punch_config =
  stun_servers :: "socket_addr list"
  turn_cfg :: "turn_config option"
  attempts :: u32
  attempt_interval_ms :: u64

definition hole_punch_config_default :: hole_punch_config where
  "hole_punch_config_default =
     \<lparr>stun_servers = [], turn_cfg = None, attempts = 10, attempt_interval_ms = 250\<rparr>"

record nat_endpoint =
  ep_local_addr :: socket_addr
  ep_public_addr :: socket_addr

record hole_punch_result =
  peer_addr :: socket_addr
  relay_used :: bool

datatype punch_error =
    SocketFailed
  | AllStunServersFailed
  | TurnInit turn_error
  | TurnAllocate turn_error
  | TurnCreatePermission turn_error
  | TraversalFailed u32

record punch_env =
  bound_addr :: "u16 \<Rightarrow> socket_addr option"
  stun_tid :: "nat \<Rightarrow> bytes"
  stun_net :: "nat \<Rightarrow> socket_addr \<Rightarrow> bytes \<Rightarrow> net_reply"
  check_tid :: "nat \<Rightarrow> nat \<Rightarrow> bytes"
  check_net :: "nat \<Rightarrow> nat \<Rightarrow> socket_addr \<Rightarrow> bytes \<Rightarrow> net_reply"
  turn_bind_ok :: bool
  turn_lib :: turn_crypto
  turn_tid :: "nat \<Rightarrow> bytes"
  turn_net :: "nat \<Rightarrow> socket_addr \<Rightarrow> bytes \<Rightarrow> net_reply"

text \<open>
  \<open>bind_reusable\<close>: the options are set before the socket is bound, and the first call that fails
  ends it.  \<open>linux\<close> says that the code was compiled for Linux, where \<open>SO_REUSEPORT\<close> is set too.
\<close>

datatype bind_error = NewSocket | ReuseAddr | ReusePort | Nonblocking | Bind | FromStd

record bind_env =
  sock_new_ok :: bool
  sock_reuse_addr_ok :: bool
  sock_reuse_port_ok :: bool
  sock_nonblocking_ok :: bool
  sock_bind_ok :: "socket_addr \<Rightarrow> bool"
  sock_from_std_ok :: bool

record reusable_socket =
  bound_to :: socket_addr
  has_reuse_addr :: bool
  has_reuse_port :: bool
  is_nonblocking :: bool

definition bind_reusable :: "bool \<Rightarrow> bind_env \<Rightarrow> u16 \<Rightarrow> bind_error + reusable_socket" where
  "bind_reusable linux env local_port =
     (let bind_addr = \<lparr>ip = V4 0, port = local_port\<rparr> in
      if \<not> sock_new_ok env then Inl NewSocket
      else if \<not> sock_reuse_addr_ok env then Inl ReuseAddr
      else if linux \<and> \<not> sock_reuse_port_ok env then Inl ReusePort
      else if \<not> sock_nonblocking_ok env then Inl Nonblocking
      else if \<not> sock_bind_ok env bind_addr then Inl Bind
      else if \<not> sock_from_std_ok env then Inl FromStd
      else Inr \<lparr>bound_to = bind_addr, has_reuse_addr = True, has_reuse_port = linux, is_nonblocking = True\<rparr>)"

text \<open>
  What \<open>discover\<close> and \<open>punch\<close> begin with, and what \<open>bound_addr\<close> stands for: bind, then ask for the
  local address, in which the system has replaced a port 0.
\<close>

definition bind_local :: "bool \<Rightarrow> bind_env \<Rightarrow> (reusable_socket \<Rightarrow> socket_addr option) \<Rightarrow> u16 \<Rightarrow> socket_addr option" where
  "bind_local linux env local_addr local_port =
     (case bind_reusable linux env local_port of Inl _ \<Rightarrow> None | Inr s \<Rightarrow> local_addr s)"

text \<open>Ask the STUN servers in order; \<open>i\<close> counts the exchanges.\<close>

fun query_stun :: "punch_env \<Rightarrow> nat \<Rightarrow> socket_addr list \<Rightarrow> socket_addr option" where
  "query_stun env i [] = None"
| "query_stun env i (s # ss) =
     (case discover_with_socket (stun_net env i) (stun_tid env i) s of
        Inr public \<Rightarrow> Some public
      | Inl _ \<Rightarrow> query_stun env (Suc i) ss)"

definition discover :: "punch_env \<Rightarrow> hole_punch_config \<Rightarrow> u16 \<Rightarrow> punch_error + nat_endpoint" where
  "discover env config local_port =
     (case bound_addr env local_port of
        None \<Rightarrow> Inl SocketFailed
      | Some local \<Rightarrow>
          (case query_stun env 0 (stun_servers config) of
             None \<Rightarrow> Inl AllStunServersFailed
           | Some public \<Rightarrow> Inr \<lparr>ep_local_addr = local, ep_public_addr = public\<rparr>))"

definition punch_agent :: "socket_addr \<Rightarrow> socket_addr option \<Rightarrow> socket_addr \<Rightarrow> ice_agent" where
  "punch_agent local public peer =
     (let a0 = add_local_candidate (candidate_new Host local 65535) (ice_agent_new Controlling);
          a1 = (case public of
                  None \<Rightarrow> a0
                | Some pub \<Rightarrow> add_local_candidate (candidate_new ServerReflexive pub 65535) a0)
      in form_check_list (set_remote_candidates [candidate_new Host peer 65535] a1))"

definition stun_check :: "punch_env \<Rightarrow> nat \<Rightarrow> nat \<Rightarrow> socket_addr \<Rightarrow> discover_error + socket_addr" where
  "stun_check env attempt i target =
     discover_with_socket (check_net env attempt i) (check_tid env attempt i) target"

fun try_checks :: "punch_env \<Rightarrow> nat \<Rightarrow> nat \<Rightarrow> ice_agent \<Rightarrow> candidate_pair option" where
  "try_checks env attempt 0 agent = None"
| "try_checks env attempt (Suc n) agent =
     (case run_checks (stun_check env attempt) agent of
        (Some pair, _) \<Rightarrow> Some pair
      | (None, agent') \<Rightarrow> try_checks env (Suc attempt) n agent')"

definition turn_relay :: "punch_env \<Rightarrow> turn_config \<Rightarrow> socket_addr \<Rightarrow> (punch_error + hole_punch_result) outcome" where
  "turn_relay env cfg peer =
     (case turn_client_new (turn_bind_ok env) (tc_server cfg) (tc_username cfg) (tc_password cfg) of
        Inl e \<Rightarrow> Return (Inl (TurnInit e))
      | Inr client \<Rightarrow>
          (case allocate (turn_lib env) (turn_net env 0) (turn_net env 1) (turn_tid env 0) (turn_tid env 1) client of
             Panic \<Rightarrow> Panic
           | Return (Inl e, _) \<Rightarrow> Return (Inl (TurnAllocate e))
           | Return (Inr alloc, client') \<Rightarrow>
               (case create_permission (turn_lib env) (turn_net env 2) (turn_tid env 2) peer client' of
                  Inl e \<Rightarrow> Return (Inl (TurnCreatePermission e))
                | Inr _ \<Rightarrow> Return (Inr \<lparr>peer_addr = relayed_addr alloc, relay_used = True\<rparr>))))"

definition punch :: "punch_env \<Rightarrow> hole_punch_config \<Rightarrow> socket_addr \<Rightarrow> u16 \<Rightarrow>
    (punch_error + hole_punch_result) outcome" where
  "punch env config peer_public_addr local_port =
     (case bound_addr env local_port of
        None \<Rightarrow> Return (Inl SocketFailed)
      | Some local \<Rightarrow>
          let public = query_stun env 0 (stun_servers config);
              agent = punch_agent local public peer_public_addr
          in case try_checks env 0 (unat (attempts config)) agent of
               Some pair \<Rightarrow>
                 Return (Inr \<lparr>peer_addr = cand_addr (pair_remote pair), relay_used = False\<rparr>)
             | None \<Rightarrow>
                 (case turn_cfg config of
                    Some cfg \<Rightarrow> turn_relay env cfg peer_public_addr
                  | None \<Rightarrow> Return (Inl (TraversalFailed (attempts config)))))"

record traversal_engine =
  engine_config :: hole_punch_config

definition traversal_engine_new :: "hole_punch_config \<Rightarrow> traversal_engine" where
  "traversal_engine_new config = \<lparr>engine_config = config\<rparr>"

definition discover_endpoint :: "punch_env \<Rightarrow> traversal_engine \<Rightarrow> u16 \<Rightarrow> punch_error + nat_endpoint" where
  "discover_endpoint env eng local_port = discover env (engine_config eng) local_port"

definition connect :: "punch_env \<Rightarrow> traversal_engine \<Rightarrow> socket_addr \<Rightarrow> u16 \<Rightarrow>
    (punch_error + hole_punch_result) outcome" where
  "connect env eng peer local_port = punch env (engine_config eng) peer local_port"

section \<open>Retries\<close>

text \<open>After a round without success no pair is waiting, so later rounds send nothing.\<close>

lemma run_checks_none:
  assumes "\<forall>p\<in>set (check_list a). pair_state p \<noteq> Waiting"
  shows "run_checks check a = (None, a)"
proof -
  have "run_checks_loop check i ps = (None, ps)" if "\<forall>p\<in>set ps. pair_state p \<noteq> Waiting" for i ps
    using that by (induction ps arbitrary: i) auto
  then show ?thesis using assms by (simp add: run_checks_def)
qed

lemma try_checks_none:
  "\<forall>p\<in>set (check_list a). pair_state p \<noteq> Waiting \<Longrightarrow> try_checks env k n a = None"
  by (induction n arbitrary: k) (simp_all add: run_checks_none)

lemma run_checks_after_none:
  assumes "run_checks check a = (None, a')"
  shows "\<forall>p\<in>set (check_list a'). pair_state p \<noteq> Waiting"
proof -
  have "run_checks_loop check 0 (check_list a) = (None, check_list a')"
    using assms by (auto simp: run_checks_def split: prod.splits)
  then have "check_list a' = map fail_waiting (check_list a)"
    using run_checks_loop_cases[of check 0 "check_list a"] by auto
  then show ?thesis by (auto simp: fail_waiting_def)
qed

lemma try_checks_once:
  "try_checks env k n a = (if n = 0 then None else fst (run_checks (stun_check env k) a))"
proof (cases n)
  case (Suc m)
  obtain found a' where run: "run_checks (stun_check env k) a = (found, a')" by fastforce
  show ?thesis
  proof (cases found)
    case None
    then show ?thesis using run Suc try_checks_none[OF run_checks_after_none[of _ a a']] by simp
  qed (use run Suc in simp)
qed simp

section \<open>The pairs of the pipeline\<close>

text \<open>How many pairs there are: the host candidate and the reflexive one, if of the peer's family.\<close>

definition pair_count :: "socket_addr \<Rightarrow> socket_addr option \<Rightarrow> socket_addr \<Rightarrow> nat" where
  "pair_count local public peer = length (filter (\<lambda>a. is_ipv4 a = is_ipv4 peer) (local # (case public of None \<Rightarrow> [] | Some p \<Rightarrow> [p])))"

lemma cand_addr_new [simp]: "cand_addr (candidate_new t a n) = a"
  by (simp add: candidate_new_def)

lemma punch_agent_pairs:
  "length (check_list (punch_agent local public peer)) = pair_count local public peer"
  "p \<in> set (check_list (punch_agent local public peer)) \<Longrightarrow> cand_addr (pair_remote p) = peer \<and> pair_state p = Waiting"
  by (cases public; auto simp: punch_agent_def form_check_list_def form_pairs_def Let_def add_local_candidate_def
      set_remote_candidates_def ice_agent_new_def pair_count_def pair_new_def split: if_splits)+

lemma punch_checks:
  "fst (run_checks check (punch_agent local public peer)) = None \<longleftrightarrow>
     (\<forall>j < pair_count local public peer. \<exists>e. check j peer = Inl e)"
  "fst (run_checks check (punch_agent local public peer)) = Some p \<Longrightarrow> cand_addr (pair_remote p) = peer"
proof -
  let ?ps = "check_list (punch_agent local public peer)"
  have at: "cand_addr (pair_remote (?ps ! j)) = peer \<and> pair_state (?ps ! j) = Waiting" if "j < length ?ps" for j
    using punch_agent_pairs(2) nth_mem[OF that] by blast
  have ok: "reaches check j (?ps ! j) \<longleftrightarrow> (\<exists>x. check j peer = Inr x)" if "j < length ?ps" for j
    using at[OF that] by (simp add: reaches_def)
  have fail: "(\<exists>e. s = Inl e) \<longleftrightarrow> \<not> (\<exists>x. s = Inr x)" for s :: "discover_error + socket_addr" by (cases s) auto
  have f: "fst (run_checks check (punch_agent local public peer)) = fst (run_checks_loop check 0 ?ps)"
    by (simp add: run_checks_def case_prod_unfold Let_def)
  show "fst (run_checks check (punch_agent local public peer)) = None \<longleftrightarrow>
     (\<forall>j < pair_count local public peer. \<exists>e. check j peer = Inl e)"
    unfolding f fail using run_checks_loop_cases[of check 0 ?ps] ok by (auto simp: punch_agent_pairs(1))
  show "fst (run_checks check (punch_agent local public peer)) = Some p \<Longrightarrow> cand_addr (pair_remote p) = peer"
    unfolding f using run_checks_loop_cases[of check 0 ?ps] at by auto
qed

lemma punch_result:
  assumes "bound_addr env local_port = Some local" "public = query_stun env 0 (stun_servers config)"
  shows "punch env config peer local_port =
    (if attempts config \<noteq> 0 \<and> (\<exists>j < pair_count local public peer. \<exists>a. stun_check env 0 j peer = Inr a)
     then Return (Inr \<lparr>peer_addr = peer, relay_used = False\<rparr>)
     else case turn_cfg config of
       Some cfg \<Rightarrow> turn_relay env cfg peer
     | None \<Rightarrow> Return (Inl (TraversalFailed (attempts config))))"
proof -
  let ?run = "fst (run_checks (stun_check env 0) (punch_agent local public peer))"
  have n: "unat (attempts config) = 0 \<longleftrightarrow> attempts config = 0" by (simp add: unat_eq_0)
  have fail: "(\<exists>e. s = Inl e) \<longleftrightarrow> \<not> (\<exists>x. s = Inr x)" for s :: "discover_error + socket_addr" by (cases s) auto
  have dir: "(\<exists>j < pair_count local public peer. \<exists>a. stun_check env 0 j peer = Inr a) \<longleftrightarrow> ?run \<noteq> None"
    unfolding punch_checks(1) fail by blast
  have tried: "try_checks env 0 (unat (attempts config)) (punch_agent local public peer) =
      (if attempts config = 0 then None else ?run)"
    unfolding try_checks_once n by simp
  have "cand_addr (pair_remote p) = peer" if "?run = Some p" for p using punch_checks(2) that by blast
  then show ?thesis unfolding punch_def dir using assms tried by (auto simp: Let_def split: option.splits)
qed

text \<open>
  C24: what hole punching returns.  With the socket bound, \<open>punch\<close> returns the peer's address
  without a relay exactly when at least one attempt is configured and one of the at most two
  checks of the first attempt is answered (there is a check per local candidate, host and
  reflexive, of the peer's address family).  Otherwise it returns the outcome of the TURN
  fallback, or the failure when none is configured.  In particular the number of attempts
  beyond the first makes no difference: the retries find no waiting pair.
\<close>

theorem punch_outcome:
  assumes "bound_addr env local_port = Some local" "public = query_stun env 0 (stun_servers config)"
  shows "punch env config peer local_port =
    (if attempts config \<noteq> 0 \<and> (\<exists>j < pair_count local public peer. \<exists>a. stun_check env 0 j peer = Inr a)
     then Return (Inr \<lparr>peer_addr = peer, relay_used = False\<rparr>)
     else case turn_cfg config of
       Some cfg \<Rightarrow> turn_relay env cfg peer
     | None \<Rightarrow> Return (Inl (TraversalFailed (attempts config))))"
  using punch_result[OF assms] .

lemma parse_xor_packet:
  assumes "length tid = 12"
  shows "parse_stun (stun_packet t tid [(ATTR_XOR_MAPPED, xor_address tid a)]) =
    Inr \<lparr>msg_type = t, transaction_id = tid, attributes = [XorMappedAddress a]\<rparr>"
proof -
  have "parse_stun (stun_packet t tid [(ATTR_XOR_MAPPED, xor_address tid a)] @ []) =
      Inr \<lparr>msg_type = t, transaction_id = tid,
        attributes = map (\<lambda>(t, v). XorMappedAddress a) [(ATTR_XOR_MAPPED, xor_address tid a)]\<rparr>"
    using length_xor_address[of tid a] length_tlv_le[of ATTR_XOR_MAPPED "xor_address tid a"] assms
    by (intro parse_stun_packet) (auto simp: parse_attribute_def decode_xor_address)
  then show ?thesis by simp
qed

text \<open>A loopback run: the STUN server is silent, the peer answers the first check, or stays silent too.\<close>

definition example_env :: "bool \<Rightarrow> punch_env" where
  "example_env answers = \<lparr>bound_addr = (\<lambda>p. Some \<lparr>ip = V4 0, port = p\<rparr>), stun_tid = (\<lambda>_. replicate 12 0),
     stun_net = (\<lambda>_ _ _. TimedOut), check_tid = (\<lambda>_ _. replicate 12 0),
     check_net = (\<lambda>_ _ _ _. if answers then Reply (stun_packet BINDING_SUCCESS (replicate 12 0)
        ([] @ (ATTR_XOR_MAPPED, xor_address (replicate 12 0) \<lparr>ip = V4 5, port = 6\<rparr>) # [])) else TimedOut),
     turn_bind_ok = True, turn_lib = example_crypto, turn_tid = (\<lambda>_. replicate 12 0),
     turn_net = (\<lambda>_ _ _. TimedOut)\<rparr>"

lemma example_check:
  "stun_check (example_env True) 0 0 peer = Inr \<lparr>ip = V4 5, port = 6\<rparr>"
  "stun_check (example_env False) k j peer = Inl StunTimeout"
proof -
  let ?a = "\<lparr>ip = V4 5, port = 6\<rparr>" and ?t = "replicate 12 0"
  have "length (stun_packet BINDING_SUCCESS ?t [(ATTR_XOR_MAPPED, xor_address ?t ?a)]) \<le> 512"
    using length_xor_address[of ?t ?a] length_tlv_le[of ATTR_XOR_MAPPED "xor_address ?t ?a"] by simp
  then show "stun_check (example_env True) 0 0 peer = Inr ?a"
    by (simp add: stun_check_def discover_with_socket_def example_env_def mapped_addr_def parse_xor_packet)
  show "stun_check (example_env False) k j peer = Inl StunTimeout"
    by (simp add: stun_check_def discover_with_socket_def example_env_def)
qed

theorem punch_outcome_witness:
  "let peer = \<lparr>ip = V4 8, port = 9\<rparr> in
   punch (example_env True) hole_punch_config_default peer 4000 = Return (Inr \<lparr>peer_addr = peer, relay_used = False\<rparr>) \<and>
   punch (example_env False) hole_punch_config_default peer 4000 = Return (Inl (TraversalFailed 10))"
proof -
  have b: "bound_addr (example_env x) 4000 = Some \<lparr>ip = V4 0, port = 4000\<rparr>" for x by (simp add: example_env_def)
  have c: "0 < pair_count \<lparr>ip = V4 0, port = 4000\<rparr> pub \<lparr>ip = V4 8, port = 9\<rparr>" for pub
    by (simp add: pair_count_def is_ipv4_def)
  have ans: "\<exists>j < pair_count \<lparr>ip = V4 0, port = 4000\<rparr> pub \<lparr>ip = V4 8, port = 9\<rparr>.
      \<exists>a. stun_check (example_env True) 0 j \<lparr>ip = V4 8, port = 9\<rparr> = Inr a" for pub
    using c[of pub] example_check(1) by blast
  show ?thesis unfolding Let_def punch_outcome[OF b refl]
    using ans by (simp add: example_check(2) hole_punch_config_default_def)
qed

end
