(* ===== verification/Cli.thy ===== *)
theory Cli
  imports Direct HolePunch Control
begin

text \<open>
  The parts of the command line program (\<^verbatim>\<open>crates/cli/src\<close>) that connect the others: how
  \<open>send\<close> and \<open>receive\<close> get a connected socket, directly or through NAT traversal, the TCP
  handshake that delays a direct transfer until the receiver's socket is bound, and the FIN
  datagrams with which \<open>send\<close> ends a transfer in NAT-traversal mode.
\<close>

section \<open>The model\<close>

datatype cli_error =
    CliBind
  | CliConnect
  | CliTraversal punch_error
  | CliSocket
  | HandshakeTimeout
  | HandshakeRead
  | HandshakeUnexpected
  | HandshakeBind
  | HandshakeAccept
  | HandshakeWrite

text \<open>What the operating system answers when a socket is bound, connected and converted.\<close>

record cli_env =
  udp_bind_ok :: bool
  udp_connect_ok :: "socket_addr \<Rightarrow> bool"
  into_std_ok :: bool
  cli_punch :: punch_env

definition traversal_config :: "socket_addr option \<Rightarrow> hole_punch_config" where
  "traversal_config stun =
     hole_punch_config_default\<lparr>stun_servers := (case stun of None \<Rightarrow> [] | Some s \<Rightarrow> [s])\<rparr>"

text \<open>The address the socket of a transfer is connected to.\<close>

definition open_socket :: "cli_env \<Rightarrow> bool \<Rightarrow> socket_addr \<Rightarrow> u16 \<Rightarrow> socket_addr option \<Rightarrow>
    (cli_error + socket_addr) outcome" where
  "open_socket env direct peer local_port stun =
     (if direct then
        Return (if \<not> udp_bind_ok env then Inl CliBind
                else if \<not> udp_connect_ok env peer then Inl CliConnect
                else Inr peer)
      else case connect (cli_punch env) (traversal_engine_new (traversal_config stun)) peer local_port of
             Panic \<Rightarrow> Panic
           | Return (Inl e) \<Rightarrow> Return (Inl (CliTraversal e))
           | Return (Inr r) \<Rightarrow>
               Return (if \<not> into_std_ok env then Inl CliSocket
                       else if \<not> udp_connect_ok env (peer_addr r) then Inl CliConnect
                       else Inr (peer_addr r)))"

definition READY :: bytes where
  "READY = [82, 69, 65, 68, 89, 10]"

text \<open>
  One attempt of the sender: the connection is refused, or a read returns an error or bytes, or one
  of the two never returns: neither \<open>TcpStream::connect\<close> nor \<open>read\<close> has a timeout.
\<close>

datatype tcp_attempt = Refused | ConnectHangs | ReadHangs | ReadError | ReadBytes bytes

text \<open>
  The retry loop; every attempt comes with the time at which the deadline is checked before it.
  \<open>Undecided\<close> means that the attempts listed do not decide the outcome, \<open>Hangs\<close> that the call never
  returns.
\<close>

datatype await_result = Undecided | Hangs | Ended "cli_error + unit"

fun tcp_await_ready :: "instant \<Rightarrow> (instant \<times> tcp_attempt) list \<Rightarrow> await_result" where
  "tcp_await_ready deadline [] = Undecided"
| "tcp_await_ready deadline ((now, a) # as) =
     (if deadline \<le> now then Ended (Inl HandshakeTimeout)
      else case a of
             Refused \<Rightarrow> tcp_await_ready deadline as
           | ConnectHangs \<Rightarrow> Hangs
           | ReadHangs \<Rightarrow> Hangs
           | ReadError \<Rightarrow> Ended (Inl HandshakeRead)
           | ReadBytes bs \<Rightarrow>
               let buf = take 8 bs
               in if 5 \<le> length buf \<and> take 5 buf = take 5 READY then Ended (Inr ())
                  else Ended (Inl HandshakeUnexpected))"

text \<open>The receiver binds, accepts one connection within 300 seconds and writes the signal.\<close>

definition tcp_signal_ready :: "bool \<Rightarrow> bool \<Rightarrow> bool \<Rightarrow> cli_error + bytes" where
  "tcp_signal_ready bind_ok accept_ok write_ok =
     (if \<not> bind_ok then Inl HandshakeBind
      else if \<not> accept_ok then Inl HandshakeAccept
      else if \<not> write_ok then Inl HandshakeWrite
      else Inr READY)"

definition rudp_fins :: "u64 \<Rightarrow> bytes list" where
  "rudp_fins now_us = replicate 5 (datagram (new_fin 1 0 now_us) [])"

section \<open>The handshake\<close>

text \<open>The clock advances by at least half a second between two attempts.\<close>

fun spaced :: "instant \<Rightarrow> (instant \<times> tcp_attempt) list \<Rightarrow> bool" where
  "spaced t [] = True"
| "spaced t ((now, a) # as) \<longleftrightarrow> t \<le> now \<and> spaced (now + int (from_millis 500)) as"

lemma await_decides:
  assumes "spaced t as" "deadline \<le> t + int (from_millis 500) * int n" "n < length as"
  shows "tcp_await_ready deadline as \<noteq> Undecided"
  using assms
proof (induction as arbitrary: t n)
  case (Cons a as)
  obtain now r where a: "a = (now, r)" by (cases a)
  show ?case
  proof (cases "deadline \<le> now")
    case True
    then show ?thesis by (simp add: a)
  next
    case False
    then have "n \<noteq> 0" using Cons.prems(1,2) a by auto
    then obtain m where n: "n = Suc m" by (cases n) auto
    have "tcp_await_ready deadline as \<noteq> Undecided"
      by (rule Cons.IH[of "now + int (from_millis 500)" m])
        (use Cons.prems a n in \<open>auto simp: algebra_simps\<close>)
    then show ?thesis using False by (cases r) (auto simp: a Let_def)
  qed
qed simp

lemma await_refused:
  "\<forall>(t, a)\<in>set refused. t < deadline \<and> a = Refused \<Longrightarrow>
   tcp_await_ready deadline (refused @ as) = tcp_await_ready deadline as"
  by (induction refused) auto

text \<open>An attempt that decides is reached through refused ones only.\<close>

lemma await_split:
  assumes "tcp_await_ready deadline as = r" "r = Hangs \<or> r = Ended (Inr ())"
  shows "\<exists>refused now a rest. as = refused @ (now, a) # rest \<and> now < deadline \<and>
    (\<forall>(t, a)\<in>set refused. t < deadline \<and> a = Refused) \<and> a \<noteq> Refused \<and> tcp_await_ready deadline [(now, a)] = r"
  using assms(1)
proof (induction as)
  case Nil
  then show ?case using assms(2) by auto
next
  case (Cons x as)
  obtain now a where x: "x = (now, a)" by (cases x)
  have now: "now < deadline" using Cons.prems assms(2) x by (auto split: if_splits)
  show ?case
  proof (cases "a = Refused")
    case True
    then obtain refused n c rest where as: "as = refused @ (n, c) # rest" "n < deadline"
      "\<forall>(t, a)\<in>set refused. t < deadline \<and> a = Refused" "c \<noteq> Refused" "tcp_await_ready deadline [(n, c)] = r"
      using Cons x now by auto
    have "x # as = (x # refused) @ (n, c) # rest" "\<forall>(t, a)\<in>set (x # refused). t < deadline \<and> a = Refused"
      using as(1,3) x True now by auto
    then show ?thesis using as(2,4,5) by blast
  next
    case False
    then have "tcp_await_ready deadline [(now, a)] = r" using Cons.prems x now by (cases a) auto
    then show ?thesis using False x now by (intro exI[of _ "[]"]) auto
  qed
qed

lemma await_reached:
  assumes "\<forall>(t, a)\<in>set refused. t < deadline \<and> a = Refused" "a \<noteq> Refused"
  shows "tcp_await_ready deadline (refused @ (now, a) # rest) = tcp_await_ready deadline [(now, a)]"
  unfolding await_refused[OF assms(1)] using assms(2) by (cases a) auto

lemma signal_prefix:
  "5 \<le> length (take 8 bs) \<and> take 5 (take 8 bs) = take 5 READY \<longleftrightarrow>
   (\<exists>signal k. tcp_signal_ready True True True = Inr signal \<and> 5 \<le> k \<and> take 5 bs = take 5 (take k signal))"
proof -
  have len: "length (take 5 READY) = 5" by (simp add: READY_def)
  have "5 \<le> length bs" if "take 5 bs = take 5 READY" using arg_cong[OF that, of length] len by simp
  moreover have "(\<exists>signal k. tcp_signal_ready True True True = Inr signal \<and> 5 \<le> k \<and> take 5 bs = take 5 (take k signal)) \<longleftrightarrow>
      take 5 bs = take 5 READY" by (auto simp: tcp_signal_ready_def min_def)
  ultimately show ?thesis by (auto simp: min_def)
qed

text \<open>
  C38: when the handshake ends.  With half a second between attempts, at most 121 attempts decide
  the sender's wait, whatever they report.  It never returns exactly when, before the 60 seconds are
  over and after refused attempts only, a connect or a read never returns: a peer that accepts and
  stays silent hangs the sender past the deadline, which is checked between attempts only.
  Otherwise it ends, and it succeeds exactly when, before the deadline and after refused
  attempts only, a connection delivers what the receiver's side of the handshake sends, or at
  least the first five bytes of it.
\<close>

theorem handshake_ends_unless_peer_hangs:
  assumes "spaced start tries" "deadline = start + int (from_millis 60000)"
  shows "(120 < length tries \<longrightarrow> tcp_await_ready deadline tries \<noteq> Undecided) \<and>
    (tcp_await_ready deadline tries = Hangs \<longleftrightarrow>
      (\<exists>refused now a rest. tries = refused @ (now, a) # rest \<and> now < deadline \<and>
        (\<forall>(t, a)\<in>set refused. t < deadline \<and> a = Refused) \<and> (a = ConnectHangs \<or> a = ReadHangs))) \<and>
    (tcp_await_ready deadline tries = Ended (Inr ()) \<longleftrightarrow>
      (\<exists>refused now bs rest. tries = refused @ (now, ReadBytes bs) # rest \<and> now < deadline \<and>
        (\<forall>(t, a)\<in>set refused. t < deadline \<and> a = Refused) \<and>
        (\<exists>signal k. tcp_signal_ready True True True = Inr signal \<and> 5 \<le> k \<and> take 5 bs = take 5 (take k signal))))"
proof -
  have hang: "tcp_await_ready deadline [(now, a)] = Hangs \<longleftrightarrow> a = ConnectHangs \<or> a = ReadHangs" if "now < deadline" for now a
    using that by (cases a) (auto simp: Let_def)
  have ok: "tcp_await_ready deadline [(now, a)] = Ended (Inr ()) \<longleftrightarrow>
      (\<exists>bs. a = ReadBytes bs \<and> 5 \<le> length (take 8 bs) \<and> take 5 (take 8 bs) = take 5 READY)" if "now < deadline" for now a
    using that by (cases a) (auto simp: Let_def)
  have "tcp_await_ready deadline tries = Hangs \<longleftrightarrow>
      (\<exists>refused now a rest. tries = refused @ (now, a) # rest \<and> now < deadline \<and>
        (\<forall>(t, a)\<in>set refused. t < deadline \<and> a = Refused) \<and> (a = ConnectHangs \<or> a = ReadHangs))"
    using await_split[of deadline tries Hangs] hang await_reached by (metis tcp_attempt.distinct(1,3))
  moreover have "tcp_await_ready deadline tries = Ended (Inr ()) \<longleftrightarrow>
      (\<exists>refused now bs rest. tries = refused @ (now, ReadBytes bs) # rest \<and> now < deadline \<and>
        (\<forall>(t, a)\<in>set refused. t < deadline \<and> a = Refused) \<and>
        5 \<le> length (take 8 bs) \<and> take 5 (take 8 bs) = take 5 READY)"
    using await_split[of deadline tries "Ended (Inr ())"] ok await_reached by (metis tcp_attempt.distinct(7))
  ultimately show ?thesis using await_decides[OF assms(1), of deadline 120] assms(2)
    unfolding signal_prefix[symmetric] by auto
qed

text \<open>One wait that succeeds at the second attempt, and one that a silent peer hangs.\<close>

theorem handshake_ends_unless_peer_hangs_witness:
  "tcp_await_ready 60000000000 [(0, Refused), (500000000, ReadBytes [82, 69, 65, 68, 89])] = Ended (Inr ()) \<and>
   tcp_await_ready 60000000000 [(0, Refused), (500000000, ReadHangs)] = Hangs"
proof
  let ?as = "[(0, Refused), (500000000, ReadBytes [82, 69, 65, 68, 89])]"
  have sp: "spaced 0 ?as" by simp
  have dl: "(60000000000 :: int) = 0 + int (from_millis 60000)" by simp
  have parts: "?as = [(0, Refused)] @ (500000000, ReadBytes [82, 69, 65, 68, 89]) # []"
    "(500000000 :: int) < 60000000000" "\<forall>(t, a)\<in>set [(0 :: int, Refused)]. t < 60000000000 \<and> a = Refused"
    "tcp_signal_ready True True True = Inr READY" "5 \<le> (6 :: nat)"
    "take 5 [82, 69, 65, 68, 89] = take 5 (take 6 READY)"
    by (simp_all add: tcp_signal_ready_def READY_def)
  show "tcp_await_ready 60000000000 ?as = Ended (Inr ())"
    by (rule handshake_ends_unless_peer_hangs[OF sp dl, THEN conjunct2, THEN conjunct2, THEN iffD2], intro exI conjI) (rule parts)+
next
  have sp: "spaced 0 [(0, Refused), (500000000, ReadHangs)]" by simp
  have dl: "(60000000000 :: int) = 0 + int (from_millis 60000)" by simp
  show "tcp_await_ready 60000000000 [(0, Refused), (500000000, ReadHangs)] = Hangs"
    by (rule handshake_ends_unless_peer_hangs[OF sp dl, THEN conjunct2, THEN conjunct1, THEN iffD2])
      (intro exI[of _ "[(0, Refused)]"] exI[of _ "500000000"] exI[of _ ReadHangs] exI[of _ "[]"], simp)
qed

end
