(* ===== verification/Truncation.thy ===== *)
theory Truncation
  imports Packer
begin

text \<open>
  Truncated blocks (\<^verbatim>\<open>crates/ioengine/src/packer.rs\<close>): a block of which only a proper prefix arrived
  is never taken for a block.  The readers of the manifest look at the bytes they return only,
  so a reader that succeeds on a prefix returns the same on the whole buffer; a manifest that
  can be read from the prefix is therefore the whole one, and the last of its entries reaches
  the end of the whole block, which the bounds check of the payload loop notices.
\<close>

section \<open>Readers that look at a prefix only\<close>

text \<open>A result that a longer buffer does not change: an error may disappear, a value stays.\<close>

definition stays :: "'e + 'a \<Rightarrow> 'e + 'a \<Rightarrow> bool" where
  "stays r r' \<longleftrightarrow> (\<forall>x. r = Inr x \<longrightarrow> r' = Inr x)"

named_theorems prefix_intro

lemma stays_refl [prefix_intro]: "stays r r"
  by (simp add: stays_def)

lemma stays_Inl [prefix_intro]: "stays (Inl e) r"
  by (simp add: stays_def)

lemma stays_if [prefix_intro]: "stays r r' \<Longrightarrow> stays s s' \<Longrightarrow> stays (if c then r else s) (if c then r' else s')"
  by simp

lemma stays_and_then [prefix_intro]:
  "stays r r' \<Longrightarrow> (\<And>x p. stays (f x p) (f' x p)) \<Longrightarrow> stays (and_then r f) (and_then r' f')"
  by (auto simp: stays_def and_then_def split: sum.splits)

locale prefix_stable =
  fixes rd :: "bytes \<Rightarrow> nat \<Rightarrow> 'e + 'a \<times> nat"
  assumes stable: "stays (rd buf pos) (rd (buf @ ext) pos)"
begin

lemma read_many_stable: "stays (read_many rd n buf pos) (read_many rd n (buf @ ext) pos)"
proof (induction n arbitrary: pos)
  case (Suc n)
  have "read_many rd (Suc n) b pos = and_then (rd b pos) (\<lambda>x p. and_then (read_many rd n b p) (\<lambda>xs q. Inr (x # xs, q)))"
    for b by (simp add: and_then_def)
  then show ?case by (simp only:) (intro prefix_intro stable Suc.IH)
qed (simp add: stays_refl)

end

interpretation bytes_reader: prefix_stable "read_bytes n"
  by unfold_locales (auto simp: stays_def read_bytes_def slice_def)

lemma read_words_and_then:
  "read_u16 buf pos = and_then (read_bytes 2 buf pos) (\<lambda>b p. Inr (of_le_bytes b, p))"
  "read_u32 buf pos = and_then (read_bytes 4 buf pos) (\<lambda>b p. Inr (of_le_bytes b, p))"
  "read_u64 buf pos = and_then (read_bytes 8 buf pos) (\<lambda>b p. Inr (of_le_bytes b, p))"
  by (simp_all add: read_u16_def read_u32_def read_u64_def and_then_def)

interpretation u16_reader: prefix_stable read_u16
  unfolding prefix_stable_def read_words_and_then by (intro allI prefix_intro bytes_reader.stable)

interpretation u32_reader: prefix_stable read_u32
  unfolding prefix_stable_def read_words_and_then by (intro allI prefix_intro bytes_reader.stable)

interpretation u64_reader: prefix_stable read_u64
  unfolding prefix_stable_def read_words_and_then by (intro allI prefix_intro bytes_reader.stable)

lemmas readers_stable = bytes_reader.stable u16_reader.stable u32_reader.stable u64_reader.stable

interpretation entry_reader: prefix_stable read_entry
  unfolding prefix_stable_def read_entry_def by (intro allI prefix_intro readers_stable)

lemma read_manifest_stable: "stays (read_manifest buf) (read_manifest (buf @ ext))"
  unfolding read_manifest_def by (intro prefix_intro readers_stable entry_reader.read_many_stable)

section \<open>Truncated blocks\<close>

text \<open>An entry behind the end of the buffer is an error, when nothing wraps around.\<close>

lemma slice_entries_short:
  assumes "\<forall>e\<in>set es. hdr + entry_end e < 2 ^ 64" "\<exists>e\<in>set es. length buf < hdr + entry_end e"
  shows "\<exists>err. slice_entries buf (of_nat hdr) es = Return (Inl err)"
  using assms
proof (induction es)
  case (Cons e es)
  let ?n = "of_nat hdr :: u64"
  have b: "hdr + entry_end e < 2 ^ 64" using Cons.prems(1) by simp
  have n: "unat ?n = hdr" using b by (simp add: unat_of_nat_small)
  have start: "unat (?n + f_offset e) = hdr + unat (f_offset e)"
    using b n by (subst unat_word_ariths) simp
  have stop: "unat (?n + f_offset e + f_size e) = hdr + entry_end e"
    using b start by (subst unat_word_ariths) simp
  show ?case
  proof (cases "length buf < hdr + entry_end e")
    case True
    then show ?thesis using stop by (simp add: Let_def)
  next
    case False
    then obtain err where "slice_entries buf ?n es = Return (Inl err)" using Cons by auto
    then show ?thesis using start stop False by (simp add: Let_def)
  qed
qed simp

text \<open>The blocks the packer builds: well-formed entries, the last of which ends the payload.\<close>

definition sealed :: "pack_block \<Rightarrow> bool" where
  "sealed b \<longleftrightarrow> (\<exists>i es payload. blk_data b = serialise_block i es payload \<and> es \<noteq> [] \<and> length es < 2 ^ 32 \<and>
     (\<forall>e\<in>set es. entry_ok e \<and> entry_end e \<le> length payload) \<and> entry_end (last es) = length payload \<and>
     length (blk_data b) < 2 ^ 64)"

lemma sealed_prefix_rejected:
  assumes "sealed b" "n < length (blk_data b)"
  shows "\<exists>e. unpack_entries \<lparr>blk_id = i, blk_data = take n (blk_data b)\<rparr> = Return (Inl e)"
proof (cases "read_manifest (take n (blk_data b))")
  case (Inr r)
  obtain j es payload where b: "blk_data b = serialise_block j es payload" "es \<noteq> []" "length es < 2 ^ 32"
    "\<forall>e\<in>set es. entry_ok e \<and> entry_end e \<le> length payload" "entry_end (last es) = length payload"
    "length (blk_data b) < 2 ^ 64" using assms(1) by (auto simp: sealed_def)
  define hdr where "hdr = 18 + length (concat (map entry_bytes es))"
  have len: "length (blk_data b) = hdr + length payload" by (simp add: b(1) serialise_block_def hdr_def)
  have "read_manifest (blk_data b) = Inr r"
    using read_manifest_stable[of "take n (blk_data b)" "drop n (blk_data b)"] Inr by (simp add: stays_def)
  then have r: "r = (es, hdr)" using read_manifest_enc[of es j payload] b(1,3,4) by (simp add: hdr_def)
  have "\<forall>e\<in>set es. hdr + entry_end e < 2 ^ 64" using b(4,6) len by fastforce
  moreover have "\<exists>e\<in>set es. length (take n (blk_data b)) < hdr + entry_end e"
    using assms(2) b(2,5) len by (intro bexI[of _ "last es"]) simp_all
  ultimately show ?thesis using slice_entries_short Inr r by (simp add: unpack_entries_def)
qed (simp add: unpack_entries_def)

section \<open>Every packed block is sealed\<close>

lemma mk_entries_last:
  assumes "ds \<noteq> []" "off + length (concat (map snd ds)) < 2 ^ 64"
  shows "entry_end (last (mk_entries off ds)) = off + length (concat (map snd ds))"
proof -
  obtain fs p b where ds: "ds = fs @ [(p, b)]" using assms(1) by (metis rev_exhaust surj_pair)
  have "unat (of_nat (off + length (concat (map snd fs))) :: u64) = off + length (concat (map snd fs))"
    "unat (of_nat (length b) :: u64) = length b" using assms(2) by (simp_all add: ds unat_of_nat_small del: of_nat_add)
  then show ?thesis unfolding ds mk_entries_snoc by (simp del: of_nat_add)
qed

lemma sealed_pending:
  assumes "\<forall>f\<in>set ds. path_ok f" "ds \<noteq> []" "length ds < 2 ^ 32" "length (concat (map snd ds)) \<le> BLOCK_SIZE"
  shows "sealed \<lparr>blk_id = i, blk_data = serialise_block j (mk_entries 0 ds) (concat (map snd ds))\<rparr>"
proof -
  let ?pl = "concat (map snd ds)" and ?es = "mk_entries 0 ds"
  have pl: "0 + length ?pl < 2 ^ 64" using assms(4) by (simp add: BLOCK_SIZE_def)
  have ok: "\<forall>e\<in>set ?es. entry_ok e \<and> entry_end e \<le> length ?pl" using mk_entries_ok[OF assms(1) pl] by simp
  have "length (concat (map entry_bytes ?es)) \<le> length ds * 2 ^ 17" using length_manifest[of ?es] ok by simp
  also have "\<dots> \<le> 2 ^ 32 * 2 ^ 17" using assms(3) by simp
  finally have "length (serialise_block j ?es ?pl) < 2 ^ 64"
    using assms(4) by (simp add: serialise_block_def BLOCK_SIZE_def)
  moreover have "?es \<noteq> []" using assms(2) length_mk_entries[of 0 ds] by (metis length_0_conv)
  ultimately show ?thesis using ok assms(3) mk_entries_last[OF assms(2) pl]
    unfolding sealed_def by (intro exI[of _ j] exI[of _ ?es] exI[of _ ?pl]) simp
qed

lemma sealed_part:
  assumes "path_ok (path, chunk)" "length chunk \<le> BLOCK_SIZE"
  shows "sealed \<lparr>blk_id = i, blk_data = serialise_block j
    [\<lparr>f_path = path, f_offset = 0, f_size = of_nat (length chunk), part_index = k, total_parts = m\<rparr>] chunk\<rparr>"
proof -
  let ?e = "\<lparr>f_path = path, f_offset = 0, f_size = of_nat (length chunk) :: u64, part_index = k, total_parts = m\<rparr>"
  have ok: "entry_ok ?e" using assms(1) by (simp add: entry_ok_def path_ok_def)
  have u: "unat (of_nat (length chunk) :: u64) = length chunk"
    using assms(2) by (simp add: unat_of_nat_small BLOCK_SIZE_def)
  have "length (serialise_block j [?e] chunk) < 2 ^ 64"
    using assms(2) length_entry_bytes[OF ok] ok by (simp add: serialise_block_def BLOCK_SIZE_def entry_ok_def)
  then show ?thesis using ok u
    unfolding sealed_def by (intro exI[of _ j] exI[of _ "[?e]"] exI[of _ chunk]) simp
qed

abbreviation all_sealed :: "pack_acc \<Rightarrow> bool" where
  "all_sealed a \<equiv> \<forall>b\<in>set (acc_blocks a). sealed b"

lemma flush_sealed:
  assumes "acc_inv a fs xs ds" "length fs < 2 ^ 32" "all_sealed a"
  shows "all_sealed (flush a)"
proof (cases "acc_entries a = []")
  case False
  have a: "acc_entries a = mk_entries 0 ds" "acc_payload a = concat (map snd ds)" "\<forall>f\<in>set ds. path_ok f"
    "length ds < 2 ^ 32" "length (concat (map snd ds)) \<le> BLOCK_SIZE" using assms(1,2) by (auto simp: acc_inv_def)
  then have "ds \<noteq> []" using False by auto
  then show ?thesis using False assms(3) sealed_pending[OF a(3) _ a(4,5)] by (simp add: flush_def a(1,2))
qed (use assms(3) in \<open>simp add: flush_def\<close>)

lemma pack_parts_sealed:
  assumes "all_sealed a" "\<forall>c\<in>set cs. length c \<le> BLOCK_SIZE" "path_ok (path, [])"
  shows "all_sealed (pack_parts path parts k cs a)"
  using assms
proof (induction path parts k cs a rule: pack_parts.induct)
  case (2 path parts k c cs a)
  have "path_ok (path, c)" "length c \<le> BLOCK_SIZE" using "2.prems" by (simp_all add: path_ok_def)
  note s = sealed_part[OF this, of "next_block_id a" "next_block_id a" "of_nat k" parts]
  show ?case unfolding pack_parts.simps Let_def
    by (rule "2.IH"[OF refl]) (use "2.prems" s in simp_all)
qed simp

lemma pack_file_sealed:
  assumes "acc_inv a fs xs ds" "length fs < 2 ^ 32" "all_sealed a" "file_ok f"
  shows "all_sealed (pack_file f a)"
proof -
  have "\<forall>c\<in>set (chunks BLOCK_SIZE (snd f)). length c \<le> BLOCK_SIZE" using chunks_length by blast
  moreover have "path_ok (fst f, [])" using assms(4) by (simp add: file_ok_def path_ok_def)
  ultimately show ?thesis
    using pack_parts_sealed[OF flush_sealed[OF assms(1-3)]] flush_sealed[OF assms(1-3)] assms(3)
    by (auto simp: pack_file_def Let_def split_def split: if_splits)
qed

lemma fold_pack_sealed:
  assumes "acc_inv a fs xs ds" "\<forall>f\<in>set gs. file_ok f" "length fs + length gs < 2 ^ 32" "all_sealed a"
  shows "all_sealed (fold pack_file gs a) \<and> (\<exists>xs' ds'. acc_inv (fold pack_file gs a) (fs @ gs) xs' ds')"
  using assms
proof (induction gs arbitrary: a fs xs ds)
  case (Cons g gs)
  obtain xs1 ds1 where inv: "acc_inv (pack_file g a) (fs @ [g]) xs1 ds1"
    using pack_file_inv[OF Cons.prems(1), of g] Cons.prems(2,3) by auto
  have "all_sealed (pack_file g a)" using pack_file_sealed[OF Cons.prems(1) _ Cons.prems(4), of g] Cons.prems(2,3) by simp
  from Cons.IH[OF inv _ _ this] show ?case using Cons.prems by simp
qed auto

lemma pack_files_sealed:
  assumes "\<forall>f\<in>set files. file_ok f" "length files < 2 ^ 32" "b \<in> set (pack_files files)"
  shows "sealed b"
proof -
  define a0 where "a0 = \<lparr>next_block_id = 0, acc_entries = [], acc_payload = [], acc_blocks = []\<rparr>"
  have "acc_inv a0 [] [] []" "all_sealed a0" by (simp_all add: acc_inv_def blocks_read_def a0_def)
  then obtain xs ds where "acc_inv (fold pack_file files a0) files xs ds" "all_sealed (fold pack_file files a0)"
    using fold_pack_sealed[of a0 "[]" "[]" "[]" files] assms by auto
  then show ?thesis using flush_sealed[of _ files] assms(2,3) by (simp add: pack_files_def a0_def)
qed

text \<open>
  C19: a truncated block is never accepted.  Whatever files were packed, every proper prefix of a
  block of \<open>pack_files\<close>, the empty one included, makes \<open>unpack_entries\<close> return an error: it
  neither panics nor returns some of the files.
\<close>

theorem truncated_block_rejected:
  assumes "\<forall>f\<in>set files. file_ok f" "length files < 2 ^ 32" "b \<in> set (pack_files files)" "n < length (blk_data b)"
  shows "\<exists>e. unpack_entries \<lparr>blk_id = i, blk_data = take n (blk_data b)\<rparr> = Return (Inl e)"
  using sealed_prefix_rejected[OF pack_files_sealed[OF assms(1-3)] assms(4)] .

theorem truncated_block_rejected_witness:
  "\<exists>b e. pack_files [([97], [1, 2, 3])] = [b] \<and>
     unpack_entries \<lparr>blk_id = 7, blk_data = take 45 (blk_data b)\<rparr> = Return (Inl e)"
proof -
  let ?f = "([97], [1, 2, 3])"
  let ?b = "\<lparr>blk_id = 0, blk_data = serialise_block 0
    [\<lparr>f_path = [97], f_offset = 0, f_size = 3, part_index = 0, total_parts = 1\<rparr>] [1, 2, 3]\<rparr>"
  have p: "pack_files [?f] = [?b]" by (simp add: pack_files_def pack_file_def flush_def BLOCK_SIZE_def)
  have ok: "file_ok ?f" by (simp add: file_ok_def path_ok_def from_utf8_ascii)
  have "length (blk_data ?b) = 48"
    by (simp add: serialise_block_def entry_bytes_def to_string_lossy_valid from_utf8_ascii Let_def)
  then show ?thesis using truncated_block_rejected[of "[?f]" ?b 45 7] ok by (auto simp: p)
qed

end
