(* ===== verification/Rudp.thy ===== *)
theory Rudp
  imports Truncation Cli
begin

text \<open>
  Transfers in NAT-traversal mode, the two functions \<open>run_rudp\<close> of \<^verbatim>\<open>crates/cli/src/send.rs\<close> and
  \<^verbatim>\<open>crates/cli/src/receive.rs\<close>: the commands of the storage reader go to the sender task, which cuts
  every block into payloads of at most 1443 bytes, and the receiver task hands the payloads of
  the datagrams straight to the storage writer, which takes each of them for a block.
\<close>

section \<open>The model\<close>

text \<open>
  The sending side: the commands given to the sender task, and the FIN datagrams written after
  the task was given a second to finish.  \<open>chan_open\<close>: the task still takes commands.
\<close>

definition run_rudp_send ::
  "(path \<Rightarrow> nat \<Rightarrow> nat \<Rightarrow> int) \<Rightarrow> (path \<rightharpoonup> nat \<times> bytes) \<Rightarrow> bool \<Rightarrow> u64 \<Rightarrow> path \<Rightarrow> node \<Rightarrow>
   (stream_error + sender_command list \<times> bytes list) option" where
  "run_rudp_send k fs chan_open now_us root_dir n =
     (case send_directory k fs chan_open root_dir n of
        None \<Rightarrow> None
      | Some (Inl e) \<Rightarrow> Some (Inl e)
      | Some (Inr cmds) \<Rightarrow> Some (Inr (cmds, rudp_fins now_us)))"

text \<open>
  The receiving side, for a receiver task that has run to its end: what the task delivered is what
  the writer gets; then the task is joined, which fails when it had panicked.
\<close>

datatype receive_error = StorageFailed write_error | ReceiverPanicked

definition join_receiver :: "bool \<Rightarrow> (write_error + (path \<times> bytes) list) outcome option \<Rightarrow>
    (receive_error + (path \<times> bytes) list) outcome option" where
  "join_receiver panicked res =
     (case res of
        None \<Rightarrow> None
      | Some Panic \<Rightarrow> Some Panic
      | Some (Return (Inl e)) \<Rightarrow> Some (Return (Inl (StorageFailed e)))
      | Some (Return (Inr writes)) \<Rightarrow> Some (Return (if panicked then Inl ReceiverPanicked else Inr writes)))"

definition run_rudp_receive ::
  "writer_env \<Rightarrow> poll list \<Rightarrow> action list \<Rightarrow> bool \<Rightarrow> (receive_error + (path \<times> bytes) list) outcome option" where
  "run_rudp_receive env final acts panicked = join_receiver panicked (receive_files env final (deliveries acts))"

text \<open>The payloads the sender task cuts the commands into.\<close>

abbreviation command_chunks :: "sender_command list \<Rightarrow> bytes list" where
  "command_chunks cmds \<equiv> concat (map (event_chunks \<circ> CommandEvent) cmds)"

section \<open>Payloads taken for blocks\<close>

lemma store_entries_ok: "env_ok env \<Longrightarrow> \<exists>k' st'. store_entries env k es st = Inr (k', st')"
proof (induction es arbitrary: k st)
  case (Cons e es)
  obtain st1 where st1: "store_entry env e st = Inr st1"
    using write_direct_ok[OF Cons.prems] by (fastforce simp: store_entry_def Let_def split_def)
  obtain n where "reap (polls env k) (w_in_flight st1) = Inr n"
    using reap_ok[of "polls env k" "w_in_flight st1"] Cons.prems by (auto simp: env_ok_def)
  then show ?case using st1 Cons by simp
qed simp

text \<open>Readable blocks are stored, the first unreadable one ends the transfer.\<close>

lemma store_blocks_unreadable:
  assumes "env_ok env" "\<forall>b\<in>set bs. \<exists>x. unpack_entries b = Return (Inr x)"
    "unpack_entries \<lparr>blk_id = 0, blk_data = bad\<rparr> = Return (Inl e)"
  shows "store_blocks env k (map blk_data bs @ bad # rest) st = Return (Inl (UnpackFailed e))"
  using assms(2)
proof (induction bs arbitrary: k st)
  case (Cons b bs)
  then obtain x where "unpack_entries b = Return (Inr x)" by auto
  moreover obtain k' st' where "store_entries env k x st = Inr (k', st')" using store_entries_ok[OF assms(1)] by blast
  ultimately show ?case using Cons by (simp add: unpack_entries_id)
qed (simp add: assms(3))

lemma chunks_whole: "xs \<noteq> [] \<Longrightarrow> length xs \<le> n \<Longrightarrow> chunks n xs = [xs]"
  using chunks_step[of n xs] by (cases n) auto

lemma sealed_nonempty: "sealed b \<Longrightarrow> blk_data b \<noteq> []"
proof -
  assume "sealed b"
  then obtain i es payload where "blk_data b = serialise_block i es payload" by (auto simp: sealed_def)
  then have "18 \<le> length (blk_data b)" by (simp add: serialise_block_def)
  then show ?thesis by auto
qed

lemma small_blocks_whole:
  assumes "\<forall>b\<in>set bs. sealed b \<and> length (blk_data b) \<le> MAX_PAYLOAD"
  shows "concat (map (chunks MAX_PAYLOAD) (map blk_data bs)) = map blk_data bs"
  using assms by (induction bs) (simp_all add: chunks_whole sealed_nonempty)

lemma pack_files_readable:
  assumes "\<forall>f\<in>set files. file_ok f" "length files < 2 ^ 32"
  shows "\<forall>b\<in>set (pack_files files). \<exists>x. unpack_entries b = Return (Inr x)"
proof
  fix b assume "b \<in> set (pack_files files)"
  then have "sealed b" by (rule pack_files_sealed[OF assms])
  then obtain i es payload where b: "blk_data b = serialise_block i es payload" "length es < 2 ^ 32"
    "\<forall>e\<in>set es. entry_ok e \<and> entry_end e \<le> length payload" "length (blk_data b) < 2 ^ 64"
    by (auto simp: sealed_def)
  have "\<exists>x. unpack_entries \<lparr>blk_id = 0, blk_data = blk_data b\<rparr> = Return (Inr x)"
    using unpack_serialise[OF b(3,2), of i 0] b(1,4) by simp
  then show "\<exists>x. unpack_entries b = Return (Inr x)" unfolding unpack_entries_id .
qed

lemma first_large_fails:
  assumes "\<forall>f\<in>set files. file_ok f" "length files < 2 ^ 32" "env_ok env"
    "\<not> (\<forall>b\<in>set (pack_files files). length (blk_data b) \<le> MAX_PAYLOAD)"
  shows "\<exists>e. store_blocks env k (concat (map (chunks MAX_PAYLOAD) (map blk_data (pack_files files)))) st =
    Return (Inl (UnpackFailed e))"
proof -
  obtain bs b bs' where split: "pack_files files = bs @ b # bs'" "MAX_PAYLOAD < length (blk_data b)"
    "\<forall>b\<in>set bs. length (blk_data b) \<le> MAX_PAYLOAD"
    using assms(4) split_list_first_prop[of "pack_files files" "\<lambda>b. MAX_PAYLOAD < length (blk_data b)"]
    by (auto simp: not_le not_less)
  have small: "\<forall>b\<in>set bs. sealed b \<and> length (blk_data b) \<le> MAX_PAYLOAD" "sealed b"
    using pack_files_sealed[OF assms(1,2)] split(1,3) by auto
  obtain e where e: "unpack_entries \<lparr>blk_id = 0, blk_data = take MAX_PAYLOAD (blk_data b)\<rparr> = Return (Inl e)"
    using sealed_prefix_rejected[OF small(2) split(2)] by blast
  have "chunks MAX_PAYLOAD (blk_data b) = take MAX_PAYLOAD (blk_data b) # chunks MAX_PAYLOAD (drop MAX_PAYLOAD (blk_data b))"
    using sealed_nonempty[OF small(2)] by (intro chunks_step) (simp_all add: MAX_PAYLOAD_def)
  then have "concat (map (chunks MAX_PAYLOAD) (map blk_data (pack_files files))) = map blk_data bs @
      take MAX_PAYLOAD (blk_data b) # chunks MAX_PAYLOAD (drop MAX_PAYLOAD (blk_data b)) @
      concat (map (chunks MAX_PAYLOAD) (map blk_data bs'))"
    using small_blocks_whole[OF small(1)] by (simp add: split(1))
  moreover have "\<forall>b\<in>set bs. \<exists>x. unpack_entries b = Return (Inr x)"
    using pack_files_readable[OF assms(1,2)] split(1) by simp
  ultimately show ?thesis using store_blocks_unreadable[OF assms(3) _ e] by simp
qed

text \<open>
  C18: NAT-traversal mode carries single-datagram blocks only.  Let a readable directory be sent
  in this mode and let the receiver deliver every payload, once and in order.  If no block
  exceeds 1443 bytes, the writer restores all files; as soon as one block does, whatever the
  network and the disk do, the receiving side ends with an unpacking error: payloads are not put
  together again, and the first payload of the block is rejected as a truncated block.
\<close>

theorem rudp_transfer_outcome:
  assumes "tree_ok es" "\<forall>p. progress (k p)" "\<forall>(p, b)\<in>set (tree_files root_dir es). fs p = Some (length b, b)"
    "\<forall>f\<in>set (tree_files [] es). file_ok f" "all_submitted (length (tree_files [] es))"
    "env_ok env" "\<forall>p\<in>set final. poll_ok p" "length (tree_files [] es) \<le> length final"
  shows "\<exists>cmds fins. run_rudp_send k fs True now_us root_dir (Directory es) = Some (Inr (cmds, fins)) \<and>
    (\<forall>acts. deliveries acts = command_chunks cmds \<longrightarrow>
      (if \<forall>b\<in>set (pack_files (tree_files [] es)). length (blk_data b) \<le> MAX_PAYLOAD
       then run_rudp_receive env final acts False =
         Some (Return (Inr (map (\<lambda>(p, b). (join (output_dir env) p, b)) (tree_files [] es))))
       else \<exists>e. run_rudp_receive env final acts False = Some (Return (Inl (StorageFailed (UnpackFailed e))))))"
proof -
  let ?files = "tree_files [] es" and ?blocks = "pack_files (tree_files [] es)"
  define cmds where "cmds = map SendChunk (map blk_data ?blocks) @ [Shutdown]"
  define writes where "writes = map (\<lambda>(p, b). (join (output_dir env) p, b)) ?files"
  have n: "length ?files < 2 ^ 32" by (rule all_submitted_small[OF assms(5)])
  have "send_directory k fs True root_dir (Directory es) = Some (Inr cmds)"
    using send_directory_ok[OF assms(1-3,5)] by (simp add: cmds_def)
  then have run: "run_rudp_send k fs True now_us root_dir (Directory es) = Some (Inr (cmds, rudp_fins now_us))"
    by (simp add: run_rudp_send_def)
  have chunked: "command_chunks cmds = concat (map (chunks MAX_PAYLOAD) (map blk_data ?blocks))"
    by (simp add: cmds_def comp_def)
  have "if \<forall>b\<in>set ?blocks. length (blk_data b) \<le> MAX_PAYLOAD
      then join_receiver False (receive_files env final (command_chunks cmds)) = Some (Return (Inr writes))
      else \<exists>e. join_receiver False (receive_files env final (command_chunks cmds)) =
        Some (Return (Inl (StorageFailed (UnpackFailed e))))"
  proof (cases "\<forall>b\<in>set ?blocks. length (blk_data b) \<le> MAX_PAYLOAD")
    case True
    then have "command_chunks cmds = map blk_data ?blocks"
      unfolding chunked using pack_files_sealed[OF assms(4) n] by (intro small_blocks_whole) blast
    then show ?thesis using True receive_packed[OF assms(6,4) n assms(7,8)] by (simp add: receive_files_def join_receiver_def writes_def)
  next
    case False
    then show ?thesis using first_large_fails[OF assms(4) n assms(6) False, of 0 writer_start]
      unfolding chunked by (auto simp: receive_files_def receive_and_write_def join_receiver_def)
  qed
  then show ?thesis unfolding writes_def run_rudp_receive_def
    by (intro exI[of _ cmds] exI[of _ "rudp_fins now_us"] conjI allI impI run) (simp only:)
qed

theorem rudp_transfer_outcome_witness:
  "let es = [([97], RegFile (replicate 2000 7))];
       env = \<lparr>output_dir = [111], mkdir_ok = (\<lambda>_. True), thread_open = True, polls = (\<lambda>_. [])\<rparr> in
   \<exists>cmds fins e. run_rudp_send (\<lambda>_ _ n. int n) [[115, 47, 97] \<mapsto> (2000, replicate 2000 7)] True 4 [115] (Directory es) =
       Some (Inr (cmds, fins)) \<and>
     run_rudp_receive env [Completed [] True] (map Deliver (command_chunks cmds)) False =
       Some (Return (Inl (StorageFailed (UnpackFailed e))))"
proof -
  let ?es = "[([97], RegFile (replicate 2000 7))]" and ?fs = "[[115, 47, 97] \<mapsto> (2000, replicate 2000 7)]"
  let ?env = "\<lparr>output_dir = [111], mkdir_ok = (\<lambda>_. True), thread_open = True, polls = (\<lambda>_. [])\<rparr>"
  have files: "tree_files [] ?es = [([97], replicate 2000 7)]" "tree_files [115] ?es = [([115, 47, 97], replicate 2000 7)]"
    by (simp_all add: join_def)
  have u: "to_string_lossy [97] = [97]" by (simp add: to_string_lossy_valid from_utf8_ascii)
  have large: "\<not> (\<forall>b\<in>set (pack_files [([97], replicate 2000 7)]). length (blk_data b) \<le> MAX_PAYLOAD)"
    by (simp add: pack_files_def pack_file_def flush_def serialise_block_def entry_bytes_def u BLOCK_SIZE_def
        MAX_PAYLOAD_def Let_def)
  have tree: "tree_ok ?es" by (simp add: name_ok_def)
  let ?k = "\<lambda>(_ :: path) (_ :: nat) n. int n" and ?final = "[Completed [] True]"
  have hyps: "\<forall>p. progress (?k p)" "\<forall>(p, b)\<in>set (tree_files [115] ?es). ?fs p = Some (length b, b)"
    "\<forall>f\<in>set (tree_files [] ?es). file_ok f" "all_submitted (length (tree_files [] ?es))"
    "env_ok ?env" "\<forall>p\<in>set ?final. poll_ok p" "length (tree_files [] ?es) \<le> length ?final"
    unfolding files
    by (simp_all add: progress_def env_ok_def poll_ok_def file_ok_def path_ok_def from_utf8_ascii
        all_submitted_def reader_capacity_def)
  obtain cmds fins where run: "run_rudp_send ?k ?fs True 4 [115] (Directory ?es) = Some (Inr (cmds, fins))"
    "\<forall>acts. deliveries acts = command_chunks cmds \<longrightarrow>
      (\<exists>e. run_rudp_receive ?env ?final acts False = Some (Return (Inl (StorageFailed (UnpackFailed e)))))"
    using rudp_transfer_outcome[OF tree hyps, of 4] unfolding files if_not_P[OF large] by blast
  have "deliveries (map Deliver ps) = ps" for ps by (induction ps) (simp_all add: deliveries_def)
  then show ?thesis using run unfolding Let_def by blast
qed

end
