(* ===== verification/Commands.thy ===== *)
theory Commands
  imports Rudp
begin

text \<open>
  The two commands that move files, \<open>run\<close> of \<^verbatim>\<open>crates/cli/src/send.rs\<close> and \<^verbatim>\<open>crates/cli/src/receive.rs\<close>:
  the socket, in direct mode the ready handshake, then the transfer in one of the two modes.
  What the operating system and the other side answer is gathered in one environment per command.
  A command that never returns, or whose listed attempts do not decide the handshake, is \<open>None\<close>.
  The arguments \<open>username\<close> and \<open>password\<close> of the commands are parsed and never used.
\<close>

section \<open>The send command\<close>

record send_args =
  sa_path :: path
  sa_peer :: socket_addr
  sa_direct :: bool
  sa_local_port :: u16
  sa_stun :: "socket_addr option"

text \<open>
  Sockets, the start and the attempts of the handshake, whether the threads of the storage engine
  start, the disk (results of reads, contents by path, what the path names), whether the sending
  task takes commands, and the clock.
\<close>

record send_env =
  se_cli :: cli_env
  se_start :: instant
  se_tries :: "(instant \<times> tcp_attempt) list"
  se_engine_ok :: bool
  se_read :: "path \<Rightarrow> nat \<Rightarrow> nat \<Rightarrow> int"
  se_disk :: "path \<rightharpoonup> nat \<times> bytes"
  se_node :: node
  se_chan_open :: bool
  se_now_us :: "u64 \<Rightarrow> u64"
  se_fin_us :: u64

datatype send_error = SendCli cli_error | SendEngine | SendStorage stream_error

text \<open>What leaves the command: datagrams, or commands for the sender task and the final FINs.\<close>

datatype sent = DirectSent "bytes list" | RudpSent "sender_command list" "bytes list"

definition run_direct_mode :: "send_env \<Rightarrow> path \<Rightarrow> (send_error + sent) outcome option" where
  "run_direct_mode env root_dir =
     (if \<not> se_engine_ok env then Some (Return (Inl SendEngine))
      else case send_directory (se_read env) (se_disk env) (se_chan_open env) root_dir (se_node env) of
             None \<Rightarrow> None
           | Some (Inl e) \<Rightarrow> Some (Return (Inl (SendStorage e)))
           | Some (Inr cmds) \<Rightarrow> Some (Return (Inr (DirectSent (fst (run_direct_send (se_now_us env) (se_fin_us env) cmds))))))"

definition run_rudp_mode :: "send_env \<Rightarrow> path \<Rightarrow> (send_error + sent) outcome option" where
  "run_rudp_mode env root_dir =
     (if \<not> se_engine_ok env then Some (Return (Inl SendEngine))
      else case run_rudp_send (se_read env) (se_disk env) (se_chan_open env) (se_fin_us env) root_dir (se_node env) of
             None \<Rightarrow> None
           | Some (Inl e) \<Rightarrow> Some (Return (Inl (SendStorage e)))
           | Some (Inr (cmds, fins)) \<Rightarrow> Some (Return (Inr (RudpSent cmds fins))))"

definition run_send :: "send_env \<Rightarrow> send_args \<Rightarrow> (send_error + sent) outcome option" where
  "run_send env args =
     (case open_socket (se_cli env) (sa_direct args) (sa_peer args) (sa_local_port args) (sa_stun args) of
        Panic \<Rightarrow> Some Panic
      | Return (Inl e) \<Rightarrow> Some (Return (Inl (SendCli e)))
      | Return (Inr peer) \<Rightarrow>
          if sa_direct args then
            (case tcp_await_ready (se_start env + int (from_millis 60000)) (se_tries env) of
               Undecided \<Rightarrow> None
             | Hangs \<Rightarrow> None
             | Ended (Inl e) \<Rightarrow> Some (Return (Inl (SendCli e)))
             | Ended (Inr _) \<Rightarrow> run_direct_mode env (sa_path args))
          else run_rudp_mode env (sa_path args))"

section \<open>The receive command\<close>

record receive_args =
  ra_peer :: socket_addr
  ra_direct :: bool
  ra_local_port :: u16
  ra_stun :: "socket_addr option"

text \<open>
  The output directory can be created, sockets, the local address can be read, the receiver's side
  of the handshake, the threads start, the writer, and the receiver task: what it did until its
  end, and whether it ended in a panic.
\<close>

record receive_env =
  re_mkdir_ok :: bool
  re_cli :: cli_env
  re_addr_ok :: bool
  re_bind_ok :: bool
  re_accept_ok :: bool
  re_write_ok :: bool
  re_engine_ok :: bool
  re_writer :: writer_env
  re_final :: "poll list"
  re_acts :: "action list"
  re_panicked :: bool

datatype command_error = OutputDir | ReceiveCli cli_error | LocalAddr | ReceiveEngine | ReceiveFailed receive_error

text \<open>
  The direct mode of the receiver: the storage engine gets the blocks of the reassembly task, and
  nobody looks at how that task ended.
\<close>

definition run_direct_receive ::
  "writer_env \<Rightarrow> poll list \<Rightarrow> action list \<Rightarrow> bool \<Rightarrow> (receive_error + (path \<times> bytes) list) outcome option" where
  "run_direct_receive env final acts panicked =
     (let (ended, blocks) = reassemble (\<lambda>_. True) (deliveries acts) [] []
      in join_receiver panicked (receive_files env final blocks))"

definition receive_mode ::
  "receive_env \<Rightarrow> (writer_env \<Rightarrow> poll list \<Rightarrow> action list \<Rightarrow> bool \<Rightarrow> (receive_error + (path \<times> bytes) list) outcome option) \<Rightarrow>
   (command_error + (path \<times> bytes) list) outcome option" where
  "receive_mode env mode =
     (if \<not> re_engine_ok env then Some (Return (Inl ReceiveEngine))
      else case mode (re_writer env) (re_final env) (re_acts env) (re_panicked env) of
             None \<Rightarrow> None
           | Some Panic \<Rightarrow> Some Panic
           | Some (Return (Inl e)) \<Rightarrow> Some (Return (Inl (ReceiveFailed e)))
           | Some (Return (Inr writes)) \<Rightarrow> Some (Return (Inr writes)))"

definition run_receive :: "receive_env \<Rightarrow> receive_args \<Rightarrow> (command_error + (path \<times> bytes) list) outcome option" where
  "run_receive env args =
     (if \<not> re_mkdir_ok env then Some (Return (Inl OutputDir))
      else case open_socket (re_cli env) (ra_direct args) (ra_peer args) (ra_local_port args) (ra_stun args) of
             Panic \<Rightarrow> Some Panic
           | Return (Inl e) \<Rightarrow> Some (Return (Inl (ReceiveCli e)))
           | Return (Inr peer) \<Rightarrow>
               if ra_direct args then
                 (if \<not> re_addr_ok env then Some (Return (Inl LocalAddr))
                  else case tcp_signal_ready (re_bind_ok env) (re_accept_ok env) (re_write_ok env) of
                         Inl e \<Rightarrow> Some (Return (Inl (ReceiveCli e)))
                       | Inr signal \<Rightarrow> receive_mode env run_direct_receive)
               else receive_mode env run_rudp_receive)"

section \<open>Commands that reach the transfer\<close>

text \<open>The set-up of a direct transfer succeeds: socket, handshake, threads, channel.\<close>

definition send_ready :: "send_env \<Rightarrow> send_args \<Rightarrow> bool" where
  "send_ready env args \<longleftrightarrow> sa_direct args \<and> udp_bind_ok (se_cli env) \<and> udp_connect_ok (se_cli env) (sa_peer args) \<and>
     tcp_await_ready (se_start env + int (from_millis 60000)) (se_tries env) = Ended (Inr ()) \<and>
     se_engine_ok env \<and> se_chan_open env"

definition receive_ready :: "receive_env \<Rightarrow> receive_args \<Rightarrow> bool" where
  "receive_ready env args \<longleftrightarrow> ra_direct args \<and> re_mkdir_ok env \<and> udp_bind_ok (re_cli env) \<and>
     udp_connect_ok (re_cli env) (ra_peer args) \<and> re_addr_ok env \<and> re_bind_ok env \<and> re_accept_ok env \<and>
     re_write_ok env \<and> re_engine_ok env"

lemma run_send_ready: "send_ready env args \<Longrightarrow> run_send env args = run_direct_mode env (sa_path args)"
  by (simp add: send_ready_def run_send_def open_socket_def)

lemma run_receive_ready:
  "receive_ready env args \<Longrightarrow> run_receive env args = receive_mode env run_direct_receive"
  by (simp add: receive_ready_def run_receive_def open_socket_def tcp_signal_ready_def)

text \<open>Environments in which everything works, for one file \<open>s/a\<close> sent into the directory \<open>o\<close>.\<close>

definition example_cli :: cli_env where
  "example_cli = \<lparr>udp_bind_ok = True, udp_connect_ok = (\<lambda>_. True), into_std_ok = True, cli_punch = example_env True\<rparr>"

definition example_send_args :: send_args where
  "example_send_args = \<lparr>sa_path = [115], sa_peer = \<lparr>ip = V4 8, port = 9\<rparr>, sa_direct = True, sa_local_port = 0, sa_stun = None\<rparr>"

definition example_send :: send_env where
  "example_send = \<lparr>se_cli = example_cli, se_start = 0, se_tries = [(0, Refused), (500000000, ReadBytes READY)],
     se_engine_ok = True, se_read = (\<lambda>_ _ n. int n), se_disk = [[115, 47, 97] \<mapsto> (2, [1, 2])],
     se_node = Directory [([97], RegFile [1, 2])], se_chan_open = True, se_now_us = (\<lambda>_. 3), se_fin_us = 4\<rparr>"

definition example_receive_args :: receive_args where
  "example_receive_args = \<lparr>ra_peer = \<lparr>ip = V4 7, port = 8\<rparr>, ra_direct = True, ra_local_port = 9, ra_stun = None\<rparr>"

definition example_receive :: receive_env where
  "example_receive = \<lparr>re_mkdir_ok = True, re_cli = example_cli, re_addr_ok = True, re_bind_ok = True, re_accept_ok = True,
     re_write_ok = True, re_engine_ok = True,
     re_writer = \<lparr>output_dir = [111], mkdir_ok = (\<lambda>_. True), thread_open = True, polls = (\<lambda>_. [])\<rparr>,
     re_final = [Completed [] True], re_acts = [], re_panicked = False\<rparr>"

text \<open>
  Until its set-up is complete a command does not touch the transfer: its result is then one of
  the errors of the set-up, whatever the disk, the tasks and the clock would answer.
\<close>

definition set_up :: "send_env \<Rightarrow> send_args \<Rightarrow> bool" where
  "set_up env args \<longleftrightarrow> (\<exists>peer. open_socket (se_cli env) (sa_direct args) (sa_peer args) (sa_local_port args) (sa_stun args) =
       Return (Inr peer)) \<and>
     (sa_direct args \<longrightarrow> tcp_await_ready (se_start env + int (from_millis 60000)) (se_tries env) = Ended (Inr ())) \<and>
     se_engine_ok env"

lemma run_send_needs_set_up:
  assumes "run_send env args = Some (Return (Inr x))"
  shows "set_up env args"
  using assms
  by (auto simp: run_send_def set_up_def run_direct_mode_def run_rudp_mode_def
      split: outcome.splits sum.splits option.splits await_result.splits if_splits)

section \<open>What success of a direct transfer means\<close>

text \<open>
  C36: a direct transfer that loses its end reports success.  Let the receiver deliver any prefix of
  the payload stream of a transfer, cut into payloads in any way, and end.  Then the storage
  engine is given exactly the blocks whose frames are complete in the prefix, and the result of
  the receive command is the result for these blocks: the bytes of the incomplete block are
  dropped and nothing is reported.
\<close>

theorem direct_tail_loss_unnoticed:
  assumes "concat (deliveries acts) @ lost = concat (map frame blocks)" "\<forall>b\<in>set blocks. frame_ok b"
  shows "\<exists>k\<le>length blocks. run_direct_receive env final acts panicked =
      join_receiver panicked (receive_files env final (take k blocks)) \<and>
    length (concat (map frame (take k blocks))) \<le> length (concat (deliveries acts)) \<and>
    (k < length blocks \<longrightarrow> length (concat (deliveries acts)) < length (concat (map frame (take (Suc k) blocks))))"
proof -
  obtain k where "k \<le> length blocks" "reassemble (\<lambda>_. True) (deliveries acts) [] [] = (Drained, [] @ take k blocks)"
    "length (concat (map frame (take k blocks))) \<le> length ([] @ concat (deliveries acts))"
    "k < length blocks \<longrightarrow> length ([] @ concat (deliveries acts)) < length (concat (map frame (take (Suc k) blocks)))"
    using reassemble_prefix[of "[]" "deliveries acts" lost blocks "[]"] assms by auto
  then show ?thesis by (intro exI[of _ k]) (simp add: run_direct_receive_def)
qed

theorem direct_tail_loss_unnoticed_witness:
  "let env = \<lparr>output_dir = [111], mkdir_ok = (\<lambda>_. True), thread_open = True, polls = (\<lambda>_. [])\<rparr> in
   run_direct_receive env [] [Deliver [2, 0, 0, 0, 0, 0, 0, 0, 7]] False = Some (Return (Inr []))"
proof -
  let ?env = "\<lparr>output_dir = [111], mkdir_ok = (\<lambda>_. True), thread_open = True, polls = (\<lambda>_. [])\<rparr>"
  let ?acts = "[Deliver [2, 0, 0, 0, 0, 0, 0, 0, 7]]"
  have d: "deliveries ?acts = [[2, 0, 0, 0, 0, 0, 0, 0, 7]]" by (simp add: deliveries_def)
  have f: "concat (deliveries ?acts) @ [8] = concat (map frame [[7, 8]])" unfolding d by code_simp
  have "\<forall>b\<in>set [[7, 8]]. frame_ok b" by (simp add: frame_ok_def)
  from direct_tail_loss_unnoticed[OF f this, of ?env "[]" False] obtain k where k: "k \<le> 1"
    "run_direct_receive ?env [] ?acts False = join_receiver False (receive_files ?env [] (take k [[7, 8]]))"
    "length (concat (map frame (take k [[7, 8]]))) \<le> 9" by (auto simp: d)
  then have "k = 0" by (cases k) auto
  then show ?thesis using k(2)
    by (simp add: Let_def join_receiver_def receive_files_def receive_and_write_def writer_start_def)
qed

end
