(* ===== verification/Network.thy ===== *)
theory Network
  imports Sender Receiver
begin

text \<open>
  A session as a system: one sender task, one receiver task, the network between them and the
  channel that carries the SACKs of the receiver (\<open>sack_tx\<close>) to the sender (\<open>sack_rx\<close>).  The two tasks
  interleave freely.  The network keeps every datagram the sender's kernel accepted and gives the
  receiver any of them, any number of times and in any order, or none (loss, duplication, delay,
  reordering), and besides them any bytes that are no DATA of the session.  The channel is bounded;
  the receiver offers into it without waiting, and a SACK that finds it full is dropped.

  The wiring is a parameter \<open>wired\<close>.  With \<open>wired = True\<close> the SACKs of the receiver reach the sender, as
  \<open>Receiver::new\<close> documents (\<open>sack_tx\<close> goes back to the sender).  With \<open>wired = False\<close> they do not:
  this is how the commands use the protocol, where \<open>send.rs\<close> keeps the sending end of its channel
  unused (\<open>_sack_tx\<close>) and \<open>receive.rs\<close> the receiving end of its own (\<open>_sack_rx\<close>).  What is safe holds for
  both; what completes a transfer needs the first.

  The state records what happened (chunks handed over, SACKs processed and offered, data arrived
  and delivered) beside the states of the tasks.
\<close>

section \<open>The system\<close>

record network =
  n_sender :: "sender \<times> bool"
  n_running :: bool
  n_receiver :: "receiver \<times> duration"
  n_going :: bool
  n_chan :: "sack_payload list"
  n_wire :: "bytes list"
  n_hist :: "bytes list"
  n_taken :: "sack_payload list"
  n_arrived :: "(u64 \<times> bytes) list"
  n_delivered :: "bytes list"
  n_offered :: "sack_payload list"

text \<open>
  The \<open>biased\<close> select of the sender's loop: the probe timer comes first, a queued SACK goes before
  a command, and a command is taken only when no SACK is queued.  The result is the channel after
  the event was taken; \<open>None\<close> means that this event is not the one that is selected.
\<close>

fun select_event :: "sender_event \<Rightarrow> sack_payload list \<Rightarrow> sack_payload list option" where
  "select_event ProbeTick chan = Some chan"
| "select_event (SackEvent k) [] = None"
| "select_event (SackEvent k) (x # chan) = (if k = x then Some chan else None)"
| "select_event (CommandEvent c) chan = (if chan = [] then Some [] else None)"

definition SACK_CHANNEL :: nat where
  "SACK_CHANNEL = 512"

text \<open>\<open>try_send\<close>: dropped when the channel is full or the sender task has ended.\<close>

definition try_send_sack :: "bool \<Rightarrow> sack_payload list \<Rightarrow> sack_payload \<Rightarrow> sack_payload list" where
  "try_send_sack alive chan k = (if alive \<and> length chan < SACK_CHANNEL then chan @ [k] else chan)"

definition offer_sacks :: "bool \<Rightarrow> sack_payload list \<Rightarrow> sack_payload list \<Rightarrow> sack_payload list" where
  "offer_sacks alive ks chan = foldl (try_send_sack alive) chan ks"

text \<open>What the network may hand to the receiver.\<close>

definition from_network :: "u32 \<Rightarrow> bytes list \<Rightarrow> bytes \<Rightarrow> bool" where
  "from_network sid wire dg \<longleftrightarrow> dg \<in> set wire \<or> data_of sid dg = None"

datatype net_event = Sending sender_event | Pushing u64 | Heartbeat | Reading | StatsChange

definition sender_moves :: "sender_event \<Rightarrow> sender \<times> bool \<Rightarrow> bool \<Rightarrow> sack_payload list \<Rightarrow> bytes list \<Rightarrow> network \<Rightarrow> network" where
  "sender_moves ev st running chan sent w =
     w\<lparr>n_sender := st, n_running := running, n_chan := chan, n_wire := n_wire w @ sent,
       n_hist := n_hist w @ event_chunks ev, n_taken := n_taken w @ event_sacks ev\<rparr>"

definition receiver_moves :: "bool \<Rightarrow> receiver \<times> duration \<Rightarrow> bool \<Rightarrow> (u64 \<times> bytes) list \<Rightarrow> action list \<Rightarrow> network \<Rightarrow> network" where
  "receiver_moves wired st going arrived acts w =
     w\<lparr>n_receiver := st, n_going := going, n_arrived := n_arrived w @ arrived,
       n_delivered := n_delivered w @ deliveries acts, n_offered := n_offered w @ offered acts,
       n_chan := (if wired then offer_sacks (n_running w) (offered acts) (n_chan w) else n_chan w)\<rparr>"

inductive net_step :: "bool \<Rightarrow> u32 \<Rightarrow> net_event \<Rightarrow> network \<Rightarrow> network \<Rightarrow> bool" for wired :: bool and sid :: u32 where
  sending: "n_running w \<Longrightarrow> enumerates (key_order rd) \<Longrightarrow> kernel_ok (kernel rd) \<Longrightarrow>
    select_event ev (n_chan w) = Some chan \<Longrightarrow>
    run_iteration rd ev (n_sender w) = Return (s', shutdown', sent, stop) \<Longrightarrow>
    net_step wired sid (Sending ev) w (sender_moves ev (s', shutdown') (\<not> stop) chan sent w)"
| pushing: "n_running w \<Longrightarrow> n_sender w = (s, shutdown) \<Longrightarrow>
    net_step wired sid (Pushing q) w (w\<lparr>n_sender := (push_urgent q s, shutdown)\<rparr>)"
| heartbeat: "n_going w \<Longrightarrow>
    receiver_iteration (HeartbeatTick now) (n_receiver w) = Some (Return (fin, st', acts)) \<Longrightarrow>
    net_step wired sid Heartbeat w (receiver_moves wired st' (\<not> fin) [] acts w)"
| reading: "n_going w \<Longrightarrow> recv_ok k dgs \<Longrightarrow> \<forall>dg\<in>set dgs. from_network sid (n_wire w) dg \<Longrightarrow>
    receiver_iteration (Readable True k now_us) (n_receiver w) = Some (Return (fin, st', acts)) \<Longrightarrow>
    net_step wired sid Reading w (receiver_moves wired st' (\<not> fin) (arrivals sid dgs) acts w)"
| sender_stats: "n_running w \<Longrightarrow> n_sender w = (s, shutdown) \<Longrightarrow>
    net_step wired sid StatsChange w (w\<lparr>n_sender := (s\<lparr>stats := st\<rparr>, shutdown)\<rparr>)"
| receiver_stats: "n_going w \<Longrightarrow> n_receiver w = (r, period) \<Longrightarrow>
    net_step wired sid StatsChange w (w\<lparr>n_receiver := (r\<lparr>r_stats := st\<rparr>, period)\<rparr>)"

definition net_new :: "u32 \<Rightarrow> instant \<Rightarrow> instant \<Rightarrow> session_stats \<Rightarrow> session_stats \<Rightarrow> network" where
  "net_new sid now now' st st' =
     \<lparr>n_sender = (sender_new now now' sid st, False), n_running = True,
      n_receiver = (receiver_new sid 0 st', from_millis 5), n_going = True, n_chan = [], n_wire = [],
      n_hist = [], n_taken = [], n_arrived = [], n_delivered = [], n_offered = []\<rparr>"

inductive net_reachable :: "bool \<Rightarrow> u32 \<Rightarrow> network \<Rightarrow> bool" for wired :: bool and sid :: u32 where
  start: "net_reachable wired sid (net_new sid now now' st st')"
| step: "net_reachable wired sid w \<Longrightarrow> net_step wired sid ev w w' \<Longrightarrow> net_reachable wired sid w'"

section \<open>A reachable state consists of two runs\<close>

definition net_ok :: "u32 \<Rightarrow> network \<Rightarrow> bool" where
  "net_ok sid w \<longleftrightarrow>
     sender_run sid (n_hist w) (n_taken w) (n_wire w) (n_sender w) (n_running w) \<and>
     receiver_run sid 0 (n_arrived w) (n_delivered w) (n_offered w) (n_receiver w) (n_going w) \<and>
     (\<forall>(q, p)\<in>set (n_arrived w). \<exists>dg\<in>set (n_wire w). data_of sid dg = Some (q, p)) \<and>
     set (n_taken w) \<subseteq> set (n_offered w) \<and> set (n_chan w) \<subseteq> set (n_offered w) \<and> length (n_chan w) \<le> SACK_CHANNEL"

lemma select_event_chan:
  "select_event ev chan = Some chan' \<Longrightarrow>
   set chan' \<subseteq> set chan \<and> set (event_sacks ev) \<subseteq> set chan \<and> length chan' \<le> length chan"
  by (cases "(ev, chan)" rule: select_event.cases) (auto split: if_splits)

lemma offer_sacks_bounds:
  assumes "length chan \<le> SACK_CHANNEL"
  shows "set (offer_sacks alive ks chan) \<subseteq> set chan \<union> set ks \<and> length (offer_sacks alive ks chan) \<le> SACK_CHANNEL"
  using assms
proof (induction ks arbitrary: chan)
  case (Cons k ks)
  have "length (try_send_sack alive chan k) \<le> SACK_CHANNEL" "set (try_send_sack alive chan k) \<subseteq> insert k (set chan)"
    using Cons.prems by (auto simp: try_send_sack_def)
  then show ?case using Cons.IH[of "try_send_sack alive chan k"] by (auto simp: offer_sacks_def)
qed (simp add: offer_sacks_def)

lemma arrivals_from_network:
  assumes "\<forall>dg\<in>set dgs. from_network sid wire dg" "(q, p) \<in> set (arrivals sid dgs)"
  shows "\<exists>dg\<in>set wire. data_of sid dg = Some (q, p)"
  using assms
proof (induction dgs)
  case (Cons dg dgs)
  show ?case
  proof (cases "data_of sid dg = Some (q, p)")
    case True
    then show ?thesis using Cons.prems(1) by (auto simp: from_network_def)
  next
    case False
    then have "(q, p) \<in> set (arrivals sid dgs)"
      using Cons.prems(2) by (auto simp: List.map_filter_simps split: if_splits option.splits)
    then show ?thesis using Cons by simp
  qed
qed (simp add: List.map_filter_simps)

lemma net_ok_new: "net_ok sid (net_new sid now now' st st')"
  using sender_run.start receiver_run.start[of sid 0] by (simp add: net_ok_def net_new_def)

lemma net_ok_step:
  assumes "net_step wired sid ev w w'" "net_ok sid w"
  shows "net_ok sid w'"
  using assms
proof cases
  case (sending rd ev chan s' sd' sent stop)
  have "sender_run sid (n_hist w @ event_chunks ev) (n_taken w @ event_sacks ev) (n_wire w @ sent) (s', sd') (\<not> stop)"
    using sending assms(2) by (intro sender_run.iteration[of _ _ _ _ "n_sender w"]) (auto simp: net_ok_def)
  then show ?thesis using assms(2) sending select_event_chan[OF sending(6)]
    by (fastforce simp: net_ok_def sender_moves_def)
next
  case (pushing s sd q)
  then show ?thesis using assms(2) by (auto simp: net_ok_def intro: sender_run.other_push)
next
  case (heartbeat now fin st' acts)
  have "receiver_run sid 0 (n_arrived w) (n_delivered w @ deliveries acts) (n_offered w @ offered acts) st' (\<not> fin)"
    using heartbeat assms(2) by (intro receiver_run.heartbeat[of _ _ _ _ _ "n_receiver w"]) (auto simp: net_ok_def)
  then show ?thesis using assms(2) heartbeat offer_sacks_bounds[of "n_chan w" "n_running w" "offered acts"]
    by (auto simp: net_ok_def receiver_moves_def)
next
  case (reading k dgs now_us fin st' acts)
  have "receiver_run sid 0 (n_arrived w @ arrivals sid dgs) (n_delivered w @ deliveries acts) (n_offered w @ offered acts) st' (\<not> fin)"
    using reading assms(2) by (intro receiver_run.readable[of _ _ _ _ _ "n_receiver w"]) (auto simp: net_ok_def)
  then show ?thesis using assms(2) reading offer_sacks_bounds[of "n_chan w" "n_running w" "offered acts"]
      arrivals_from_network[OF reading(5)]
    by (auto simp: net_ok_def receiver_moves_def)
next
  case (sender_stats s sd st)
  then show ?thesis using assms(2) by (auto simp: net_ok_def intro: sender_run.other_stats)
next
  case (receiver_stats r period st)
  then show ?thesis using assms(2) by (auto simp: net_ok_def intro: receiver_run.other_stats)
qed

lemma net_reachable_ok: "net_reachable wired sid w \<Longrightarrow> net_ok sid w"
  by (induction rule: net_reachable.induct) (auto intro: net_ok_new net_ok_step)


section \<open>What a reachable state guarantees\<close>

text \<open>The datagram of a chunk is accepted as that chunk.\<close>

lemma data_datagram_data:
  assumes "data_datagram sid hist i dg" "length hist < 2 ^ 64" "\<forall>c\<in>set hist. length c \<le> MAX_PAYLOAD"
  shows "data_of sid dg = Some (of_nat i, hist ! i) \<and> unat (of_nat i :: u64) = i \<and> i < length hist \<and>
    length dg = HEADER_SIZE + length (hist ! i) \<and> \<not> ends_session sid dg"
proof -
  obtain ts where i: "i < length hist"
    and dg: "dg = datagram (new_data sid (of_nat i) ts (of_nat (length (hist ! i)))) (hist ! i)"
    using assms(1) by (auto simp: data_datagram_def)
  have "length (hist ! i) < 2 ^ 16" using assms(3) nth_mem[OF i] by (fastforce simp: MAX_PAYLOAD_def)
  from data_of_datagram[OF this] show ?thesis
    using i assms(2) by (auto simp: dg unat_of_nat_small datagram_eq ends_session_def hdr.dec_enc)
qed

lemma net_sender_inv:
  assumes "net_ok sid w" "length (n_hist w) < 2 ^ 64"
  shows "sender_inv sid (n_hist w) (n_taken w) (fst (n_sender w))"
    and "\<forall>dg\<in>set (n_wire w). \<exists>i. data_datagram sid (n_hist w) i dg"
    and "\<not> n_running w \<longrightarrow> in_flight (fst (n_sender w)) = Map.empty"
    and "\<forall>c\<in>set (n_hist w). 0 < length c \<and> length c \<le> MAX_PAYLOAD"
  using sender_run_inv[of sid "n_hist w" "n_taken w" "n_wire w" "n_sender w" "n_running w"] assms
  by (auto simp: net_ok_def sender_inv_def)

lemma net_arrived:
  assumes "net_ok sid w" "length (n_hist w) < 2 ^ 64" "(q, p) \<in> set (n_arrived w)"
  shows "unat q < length (n_hist w) \<and> p = n_hist w ! unat q"
proof -
  obtain dg where dg: "dg \<in> set (n_wire w)" "data_of sid dg = Some (q, p)"
    using assms(1,3) by (auto simp: net_ok_def)
  then obtain i where "data_datagram sid (n_hist w) i dg" using net_sender_inv(2)[OF assms(1,2)] by blast
  from data_datagram_data[OF this assms(2)] show ?thesis
    using net_sender_inv(4)[OF assms(1,2)] dg(2) by auto
qed

lemma net_receiver_inv:
  assumes "net_ok sid w" "length (n_hist w) + 1025 < 2 ^ 64"
  shows "run_inv sid 0 (length (n_hist w)) (n_arrived w) (n_delivered w) (n_offered w) (n_receiver w)"
proof -
  have "\<forall>(q, p)\<in>set (n_arrived w). unat q < length (n_hist w)" using net_arrived[OF assms(1)] assms(2) by fastforce
  then show ?thesis using assms
    by (intro receiver_run_inv[of sid 0 _ _ _ _ "n_going w"]) (auto simp: net_ok_def)
qed

lemma net_delivered_sent:
  assumes "net_ok sid w" "length (n_hist w) + 1025 < 2 ^ 64"
  shows "set (n_delivered w) \<subseteq> set (n_hist w)"
proof -
  have "n_delivered w = map snd (n_arrived w)" using net_receiver_inv[OF assms] by (simp add: run_inv_def)
  then show ?thesis using net_arrived[OF assms(1)] assms(2) by fastforce
qed

lemma net_gone_delivered:
  assumes "net_ok sid w" "length (n_hist w) + 1025 < 2 ^ 64" "i < length (n_hist w)"
    "of_nat i \<notin> dom (in_flight (fst (n_sender w)))"
  shows "(of_nat i, n_hist w ! i) \<in> set (n_arrived w) \<and> n_hist w ! i \<in> set (n_delivered w)"
proof -
  have len: "length (n_hist w) < 2 ^ 64" using assms(2) by simp
  obtain k where k: "k \<in> set (n_taken w)" "sack_acks k (of_nat i)"
    using net_sender_inv(1)[OF assms(1) len] assms(3,4) unfolding sender_inv_def by blast
  note inv = net_receiver_inv[OF assms(1,2)]
  have "is_received k (of_nat i)" using k(2) by (auto simp: sack_acks_def intro: is_received_below)
  moreover have "k \<in> set (n_offered w)" using k(1) assms(1) by (auto simp: net_ok_def)
  ultimately obtain p where p: "(of_nat i, p) \<in> set (n_arrived w)" using inv by (fastforce simp: run_inv_def)
  have "unat (of_nat i :: u64) = i" using assms(3) len by (simp add: unat_of_nat_small)
  then have "p = n_hist w ! i" using net_arrived[OF assms(1) len p] by simp
  then show ?thesis using p inv by (force simp: run_inv_def)
qed

section \<open>Steps that are always possible\<close>

text \<open>A kernel that has one datagram for the receiver.\<close>

definition recv_one :: "bytes \<Rightarrow> recvmmsg" where
  "recv_one dg st = (1, of_nat (length dg) # replicate 63 0, dg @ drop (length dg) st)"

lemma recv_one_ok: "length dg \<le> BUF_SIZE \<Longrightarrow> recv_ok (recv_one dg) [dg]"
  by (auto simp: recv_ok_def recv_one_def slice_def POOL_SIZE_def RECV_BATCH_def BUF_SIZE_def unat_of_nat_small)

text \<open>
  One datagram of the wire arrives: its chunk is delivered, and its sequence number is
  acknowledged when it lies in the window.
\<close>

lemma net_deliver:
  assumes "net_ok sid w" "length (n_hist w) + 1025 < 2 ^ 64" "n_going w"
    "dg \<in> set (n_wire w)" "data_datagram sid (n_hist w) i dg"
  shows "\<exists>r' period acts. let w' = receiver_moves wired (r', period) True [(of_nat i, n_hist w ! i)] acts w; r = fst (n_receiver w) in
    net_step wired sid Reading w w' \<and> offered acts = [] \<and>
    {q. acked r' q} = {q. acked r q} \<union> {q. q = of_nat i \<and> unat q < unat (base_seq (payload (sack_mgr r))) + 1024}"
proof -
  let ?N = "length (n_hist w)"
  obtain r period where r: "n_receiver w = (r, period)" by fastforce
  have inv: "receiver_inv sid ?N r" using net_receiver_inv[OF assms(1,2)] r by (simp add: run_inv_def)
  have len: "?N < 2 ^ 64" and hist: "\<forall>c\<in>set (n_hist w). length c \<le> MAX_PAYLOAD"
    using assms(2) net_sender_inv(4)[OF assms(1)] by auto
  note d = data_datagram_data[OF assms(5) len hist]
  have "length dg \<le> BUF_SIZE" using d hist nth_mem[of i "n_hist w"]
    by (fastforce simp: HEADER_SIZE_def MAX_PAYLOAD_def BUF_SIZE_def)
  then have ok: "recv_ok (recv_one dg) [dg]" by (rule recv_one_ok)
  have arr: "arrivals sid [dg] = [(of_nat i, n_hist w ! i)]" using d by (simp add: List.map_filter_simps)
  obtain st where st: "length st = length (pool r)"
    "recv_batch (recv_one dg) (\<lambda>_. 0) r = process_stream (\<lambda>_. 0) 0 [dg] (r\<lparr>pool := st\<rparr>) []"
    using recv_batch_stream[OF inv _ _ ok, of "\<lambda>_. 0"] assms(2) d unfolding arr by auto
  have base: "unat (base_seq (payload (sack_mgr r))) \<le> ?N"
    using inv len by (intro base_bound) (auto simp: receiver_inv_def)
  have mgr: "manager_inv (sack_mgr (r\<lparr>pool := st\<rparr>))" "r_session_id (r\<lparr>pool := st\<rparr>) = sid"
    using inv by (simp_all add: receiver_inv_def)
  obtain res r' acts where pd: "process_datagram 0 (r\<lparr>pool := st\<rparr>) dg = Some (Return (res, r', acts))" "res \<noteq> Some True"
    and ack: "{q. acked r' q} = {q. acked r q} \<union> {q. q = of_nat i \<and> unat q < unat (base_seq (payload (sack_mgr r))) + 1024}"
    using process_datagram_exact[OF mgr(1), of 0 dg] base assms(2) d mgr(2) by auto
  have acts: "offered acts = []"
    using pd(1) d mgr(2)
    by (auto simp: process_datagram_def data_of_def process_data_def Let_def split: option.splits if_splits)
  have "receiver_iteration (Readable True (recv_one dg) (\<lambda>_. 0)) (n_receiver w) = Some (Return (False, (r', period), acts))"
    using st(2) pd by (simp add: r)
  from net_step.reading[OF assms(3) ok _ this, of sid wired] show ?thesis
    using assms(4) ack acts unfolding arr r
    by (intro exI[of _ r'] exI[of _ period] exI[of _ acts]) (auto simp: from_network_def Let_def)
qed

text \<open>A heartbeat of the receiver, into a channel with room.\<close>

lemma net_heartbeat:
  assumes "net_ok sid w" "length (n_hist w) + 1025 < 2 ^ 64" "n_going w" "n_running w" "n_chan w = []"
  shows "\<exists>r' period acts. let w' = receiver_moves True (r', period) True [] acts w; k = payload (sack_mgr (fst (n_receiver w))) in
    net_step True sid Heartbeat w w' \<and> n_chan w' = [k]"
proof -
  obtain r period where r: "n_receiver w = (r, period)" by fastforce
  have wf: "sack_wf (payload (sack_mgr r))"
    using net_receiver_inv[OF assms(1,2)] r by (simp add: run_inv_def receiver_inv_def manager_inv_def)
  define r' where "r' = r\<lparr>sack_mgr := snd (tick (sack_mgr r))\<rparr>"
  obtain acts where hb: "receiver_iteration (HeartbeatTick 0) (n_receiver w) = Some (Return (False, (r', period), acts))"
    "offered acts = [payload (sack_mgr r)]"
    using send_heartbeat_sack_eq[OF wf, of 0] by (simp add: r r'_def)
  show ?thesis using net_step.heartbeat[OF assms(3) hb(1), of True sid] hb(2) assms(4,5)
    by (intro exI[of _ r'] exI[of _ period] exI[of _ acts])
      (auto simp: r Let_def receiver_moves_def offer_sacks_def try_send_sack_def SACK_CHANNEL_def)
qed

section \<open>Reliable delivery\<close>

text \<open>
  C1: reliable delivery, whether or not the SACKs of the receiver reach the sender.  In every
  reachable state of a session over a network that loses, duplicates, delays and reorders datagrams, with any interleaving of the two tasks, of the
  application's commands and of the pushes of other tasks, the receiver has handed to the
  application only chunks of the sender, each arrival under its own sequence number; a chunk
  that left the sender's store was delivered; and when the sender's loop has ended, every chunk
  was delivered.
\<close>

theorem reliable_delivery:
  assumes "net_reachable wired sid w" "length (n_hist w) + 1025 < 2 ^ 64"
  shows "n_delivered w = map snd (n_arrived w) \<and>
    (\<forall>(q, p)\<in>set (n_arrived w). unat q < length (n_hist w) \<and> p = n_hist w ! unat q) \<and>
    (\<forall>i < length (n_hist w). of_nat i \<notin> dom (in_flight (fst (n_sender w))) \<longrightarrow> n_hist w ! i \<in> set (n_delivered w)) \<and>
    (\<not> n_running w \<longrightarrow> set (n_hist w) \<subseteq> set (n_delivered w))"
proof -
  have ok: "net_ok sid w" using assms(1) by (rule net_reachable_ok)
  have len: "length (n_hist w) < 2 ^ 64" using assms(2) by simp
  have "set (n_hist w) \<subseteq> set (n_delivered w)" if "\<not> n_running w"
    using that net_sender_inv(3)[OF ok len] net_gone_delivered[OF ok assms(2)] by (fastforce simp: in_set_conv_nth)
  moreover have "n_delivered w = map snd (n_arrived w)"
    using net_receiver_inv[OF ok assms(2)] by (simp add: run_inv_def)
  ultimately show ?thesis using net_arrived[OF ok len] net_gone_delivered[OF ok assms(2)] by auto
qed

text \<open>A session in which a chunk of two bytes was sent, and one in which it then arrived.\<close>

definition example_chunk_sent :: "sender \<Rightarrow> network" where
  "example_chunk_sent s =
     sender_moves (CommandEvent (SendChunk [65, 66])) (s, False) True [] [datagram (new_data 7 0 5 2) [65, 66]]
       (net_new 7 0 0 stats_new stats_new)"

lemma example_net:
  "\<exists>s. net_reachable wired 7 (example_chunk_sent s) \<and> n_hist (example_chunk_sent s) = [[65, 66]]"
proof -
  obtain s where it: "run_iteration example_readings (CommandEvent (SendChunk [65, 66])) (sender_new 0 0 7 stats_new, False) =
      Return (s, False, [datagram (new_data 7 0 5 2) [65, 66]], False)"
    using example_iteration by blast
  have rd: "enumerates (key_order example_readings)" "kernel_ok (kernel example_readings)"
    by (simp_all add: example_readings_def enumerates_sorted kernel_ok_send_all)
  have "net_step wired 7 (Sending (CommandEvent (SendChunk [65, 66]))) (net_new 7 0 0 stats_new stats_new) (example_chunk_sent s)"
    using net_step.sending[OF _ rd, of "net_new 7 0 0 stats_new stats_new" "CommandEvent (SendChunk [65, 66])"] it
    by (fastforce simp: example_chunk_sent_def net_new_def)
  from net_reachable.step[OF net_reachable.start this] show ?thesis
    by (auto simp: example_chunk_sent_def sender_moves_def net_new_def chunks_step MAX_PAYLOAD_def)
qed

theorem reliable_delivery_witness:
  "\<exists>w. net_reachable False 7 w \<and> n_hist w = [[65, 66]] \<and> n_delivered w = [[65, 66]] \<and> n_arrived w = [(0, [65, 66])]"
proof -
  obtain s where w: "net_reachable False 7 (example_chunk_sent s)" "n_hist (example_chunk_sent s) = [[65, 66]]"
    using example_net[of False] by blast
  have dd: "data_datagram 7 (n_hist (example_chunk_sent s)) 0 (datagram (new_data 7 0 5 2) [65, 66])"
    unfolding w(2) by (auto simp: data_datagram_def)
  have "datagram (new_data 7 0 5 2) [65, 66] \<in> set (n_wire (example_chunk_sent s))"
    "n_going (example_chunk_sent s)"
    by (simp_all add: example_chunk_sent_def sender_moves_def net_new_def)
  from net_deliver[of 7 _ _ 0 False, OF net_reachable_ok[OF w(1)] _ this(2,1) dd] obtain r' period acts where
    "net_step False 7 Reading (example_chunk_sent s) (receiver_moves False (r', period) True [(0, [65, 66])] acts (example_chunk_sent s))"
    using w(2) by (auto simp: Let_def)
  from net_reachable.step[OF w(1) this] have r:
    "net_reachable False 7 (receiver_moves False (r', period) True [(0, [65, 66])] acts (example_chunk_sent s))" (is "net_reachable False 7 ?w") .
  have h: "n_hist ?w = [[65, 66]]" "n_arrived ?w = [(0, [65, 66])]"
    using w(2) by (simp_all add: receiver_moves_def example_chunk_sent_def sender_moves_def net_new_def)
  then show ?thesis using r reliable_delivery[OF r] by auto
qed

end
