(* ===== verification/Completion.thy ===== *)
theory Completion
  imports Network
begin

text \<open>
  When a transfer can be completed.  If the SACKs of the receiver reach the sender: from every
  reachable state of a session in which both tasks still run, however much was lost so far, heartbeats, SACKs, probe ticks and arrivals lead
  to a state in which every chunk was delivered and nothing is in flight.  The argument follows
  the protocol.  The queued SACKs are processed; a heartbeat then makes the sender queue every
  packet that is still in flight; the batches empty the two queues, because the pacer always
  regains its full capacity; so every chunk is on the wire, and when the chunks arrive in their
  order the window takes all of them; the next heartbeat acknowledges everything.  The paths
  constructed here are therefore paths of the wired session.  In the wiring of the commands, where no
  SACK reaches the sender, no transfer completes in this sense, which the last section proves too.
\<close>

section \<open>The pacer never starves\<close>

definition paced :: "sender \<Rightarrow> bool" where
  "paced s \<longleftrightarrow> prober_inv (s_profiler s) \<and> 1250000 \<le> rate_bytes_per_sec (s_pacer s)"

lemma enqueue_chunks_paced: "paced (enqueue_chunks nu now i cs s) = paced s"
  by (induction cs arbitrary: i s) (simp_all add: Let_def paced_def)

lemma handle_event_paced:
  assumes "paced s" "enumerates (key_order rd)" "handle_event rd ev (s, sd) = (s', sd')"
  shows "paced s'"
proof (cases ev)
  case ProbeTick
  obtain r p where ep: "evaluate_probe (event_now rd) (probe_reset_now rd) (s_profiler s) = (r, p)" by fastforce
  have p: "prober_inv p" using evaluate_probe_step[of "s_profiler s" "event_now rd" "probe_reset_now rd"] assms(1) ep by (simp add: paced_def)
  show ?thesis
  proof (cases r)
    case None
    then show ?thesis using assms ProbeTick ep p by (auto simp: paced_def)
  next
    case (Some x)
    then have "x \<in> set PROBE_STEPS_BPS" using evaluate_probe_rate[of "s_profiler s"] assms(1) ep by (auto simp: paced_def)
    then show ?thesis using Some assms ProbeTick ep p set_rate_floor[of x "s_pacer s"] by (auto simp: paced_def)
  qed
next
  case (SackEvent k)
  obtain fl us ns st n where "s' = s\<lparr>in_flight := fl, urgent_retransmits := us, normal_retransmits := ns, stats := st,
      s_profiler := snd (on_bytes_acked (event_now rd) (s_profiler s) n)\<rparr>"
    using process_sack_eq[OF assms(2), of "event_now rd" k s] assms(3) SackEvent by auto
  then show ?thesis using assms(1) on_bytes_acked_step[of "s_profiler s" "event_now rd" n] by (simp add: paced_def)
next
  case (CommandEvent c)
  then show ?thesis using assms(1,3) by (cases c) (auto simp: enqueue_data_def enqueue_chunks_paced)
qed

lemma run_iteration_paced:
  assumes "paced s" "bucket_inv (s_pacer s)" "enumerates (key_order rd)" "kernel_ok (kernel rd)"
    "run_iteration rd ev (s, sd) = Return (s', sd', sent, stop)" "bucket_inv (s_pacer (fst (handle_event rd ev (s, sd))))"
  shows "paced s'"
proof -
  obtain s1 sd1 where ev: "handle_event rd ev (s, sd) = (s1, sd1)" by fastforce
  define s2 where "s2 = s1\<lparr>s_pacer := refill (refill_now rd) (s_pacer s1)\<rparr>"
  have "paced s2" using handle_event_paced[OF assms(1,3) ev] by (simp add: paced_def s2_def refill_def Let_def)
  moreover have "bucket_inv (s_pacer s2)" using assms(6) ev by (simp add: s2_def bucket_inv_refill)
  moreover have "send_batch (kernel rd) (key_order rd) (push_now rd) (seen_now rd) s2 = Return (s', sent)"
    using assms(5) ev by (auto simp: run_iteration_def s2_def split: outcome.splits)
  ultimately show ?thesis
    using send_batch_ok[OF assms(4), of s2 "key_order rd" "push_now rd" "seen_now rd"]
    by (auto simp: paced_def prober_inv_sent)
qed

lemma sender_run_paced:
  assumes "sender_run sid hist sacks wire st running" "length hist < 2 ^ 64"
  shows "paced (fst st)"
  using assms
proof (induction rule: sender_run.induct)
  case (start now now' st)
  have "rnd 1250000 = 1250000" by simp
  then show ?case by (simp add: paced_def sender_new_def prober_inv_new bucket_new_def f64_div_def Let_def)
next
  case (iteration hist sacks wire st rd ev s' sd' sent stop)
  obtain s sd where st: "st = (s, sd)" by fastforce
  have len: "length hist < 2 ^ 64" "length hist + length (event_chunks ev) < 2 ^ 64" using iteration.prems by simp_all
  have inv: "sender_inv sid hist sacks s" using sender_run_inv[OF iteration.hyps(1) len(1)] st by simp
  obtain s1 sd1 where ev: "handle_event rd ev (s, sd) = (s1, sd1)" by fastforce
  have "bucket_inv (s_pacer s1)"
    using handle_event_inv[OF inv iteration.hyps(2) len(2) ev] by (simp add: sender_inv_def)
  then show ?case
    using run_iteration_paced[of s rd ev sd s' sd' sent stop] iteration len(1) st inv ev
    by (simp add: sender_inv_def)
next
  case (other_push hist sacks wire s sd q)
  then show ?case by (simp add: paced_def push_urgent_def)
next
  case (other_stats hist sacks wire s sd st)
  then show ?case by (simp add: paced_def)
qed

section \<open>A batch shortens the queues\<close>

definition queued :: "sender \<Rightarrow> u64 set" where
  "queued s = set (urgent_retransmits s) \<union> set (normal_retransmits s)"

definition backlog :: "sender \<Rightarrow> nat" where
  "backlog s = length (urgent_retransmits s) + length (normal_retransmits s)"

definition on_wire :: "sender \<Rightarrow> bytes list \<Rightarrow> u64 \<Rightarrow> bool" where
  "on_wire s b q \<longleftrightarrow> (\<forall>dg n. packets s q = Some (dg, n) \<longrightarrow> dg \<in> set b)"

lemma retransmit_leaves:
  assumes "retransmit now queue s b = (q', s', b')" "bucket_inv (s_pacer s)"
  shows "length q' \<le> length queue \<and> (\<forall>q\<in>set queue. q \<in> set q' \<or> on_wire s b' q) \<and>
    urgent_retransmits s' = urgent_retransmits s \<and> normal_retransmits s' = normal_retransmits s"
  using assms
proof (induction queue arbitrary: s b)
  case (Cons seq queue)
  show ?case
  proof (cases "BATCH_SIZE \<le> length b \<or> in_flight s seq = None")
    case True
    then show ?thesis using Cons by (fastforce simp: on_wire_def packets_def split: if_splits)
  next
    case False
    then obtain e where e: "in_flight s seq = Some e" by auto
    obtain ok bk where tc: "try_consume (s_pacer s) (length (ent_datagram e)) = (ok, bk)" by fastforce
    show ?thesis
    proof (cases ok)
      case True
      let ?s = "s\<lparr>s_pacer := bk, in_flight := (in_flight s)(seq \<mapsto> e\<lparr>last_sent := now (length b)\<rparr>),
         stats := (stats s)\<lparr>retransmits := retransmits (stats s) + 1\<rparr>\<rparr>"
      have one: "sends s b ?s (b @ [ent_datagram e])"
        using Cons.prems(2) e tc True by (intro sends_one[where e = e]) simp_all
      have r: "retransmit now queue ?s (b @ [ent_datagram e]) = (q', s', b')"
        using Cons.prems(1) False e tc True by simp
      have pk: "packets ?s = packets s" using one by (simp add: sends_def)
      have "ent_datagram e \<in> set b'" using retransmit_sends[OF r sends_inv[OF one]] by (auto simp: sends_def)
      then have "on_wire s b' seq" using e by (auto simp: on_wire_def packets_def)
      then show ?thesis using Cons.IH[OF r sends_inv[OF one]] pk by (auto simp: on_wire_def)
    next
      case ok: False
      then show ?thesis using Cons.prems False e tc by auto
    qed
  qed
qed simp

text \<open>With room in the batch and tokens for any packet, the head of a queue leaves it.\<close>

lemma retransmit_shrinks:
  assumes "retransmit now queue s b = (q', s', b')" "bucket_inv (s_pacer s)" "queue \<noteq> []" "length b < BATCH_SIZE"
    "\<forall>q dg n. packets s q = Some (dg, n) \<longrightarrow> of_nat (length dg) \<le> tokens (s_pacer s) \<and> length dg \<le> 2 ^ 53"
  shows "length q' < length queue"
proof -
  obtain seq rest where q: "queue = seq # rest" using assms(3) by (cases queue) auto
  show ?thesis
  proof (cases "in_flight s seq")
    case None
    then have "retransmit now rest s b = (q', s', b')" using assms(1,4) q by simp
    from retransmit_leaves[OF this assms(2)] show ?thesis using q by simp
  next
    case (Some e)
    then have "packets s seq = Some (ent_datagram e, nak_count e)" by (simp add: packets_def)
    then have "f64_of_nat (length (ent_datagram e)) \<le> tokens (s_pacer s)" using assms(5) by fastforce
    then obtain bk where tc: "try_consume (s_pacer s) (length (ent_datagram e)) = (True, bk)"
      by (simp add: try_consume_def)
    let ?s = "s\<lparr>s_pacer := bk, in_flight := (in_flight s)(seq \<mapsto> e\<lparr>last_sent := now (length b)\<rparr>),
       stats := (stats s)\<lparr>retransmits := retransmits (stats s) + 1\<rparr>\<rparr>"
    have "retransmit now rest ?s (b @ [ent_datagram e]) = (q', s', b')" using assms(1,4) q Some tc by simp
    moreover have "bucket_inv (s_pacer ?s)" using tb.granted[OF assms(2) tc] by simp
    ultimately show ?thesis using retransmit_leaves q by fastforce
  qed
qed

lemma send_unsent_queues:
  "send_unsent now unsent s b = (s', b') \<Longrightarrow>
   urgent_retransmits s' = urgent_retransmits s \<and> normal_retransmits s' = normal_retransmits s"
  by (induction unsent arbitrary: s b) (auto split: option.splits prod.splits bool.splits)

lemma send_urgent_drains:
  assumes "send_urgent now s b = (s', b')" "bucket_inv (s_pacer s)"
  shows "length (urgent_retransmits s') \<le> length (urgent_retransmits s)"
    and "\<forall>q\<in>set (urgent_retransmits s). q \<in> set (urgent_retransmits s') \<or> on_wire s b' q"
    and "normal_retransmits s' = normal_retransmits s" "urgent_retransmits s = [] \<Longrightarrow> s' = s \<and> b' = b"
  using assms retransmit_leaves[of now "urgent_retransmits s" s b]
  by (auto simp: send_urgent_def split: prod.splits)

lemma send_normal_drains:
  assumes "send_normal now s b = (s', b')" "bucket_inv (s_pacer s)"
  shows "length (normal_retransmits s') \<le> length (normal_retransmits s)"
    and "\<forall>q\<in>set (normal_retransmits s). q \<in> set (normal_retransmits s') \<or> on_wire s b' q"
    and "urgent_retransmits s' = urgent_retransmits s"
  using assms retransmit_leaves[of now "normal_retransmits s" s b]
  by (auto simp: send_normal_def split: prod.splits)

lemma build_batch_drains:
  assumes "build_batch ko now seen s = (s', b)" "bucket_inv (s_pacer s)" "tokens (s_pacer s) = 3000"
    "\<forall>q dg n. packets s q = Some (dg, n) \<longrightarrow> length dg \<le> 1472"
  shows "(backlog s = 0 \<or> backlog s' < backlog s) \<and> (\<forall>q\<in>queued s. q \<in> queued s' \<or> on_wire s b q)"
proof -
  have room: "\<forall>q dg n. packets s q = Some (dg, n) \<longrightarrow> of_nat (length dg) \<le> tokens (s_pacer s) \<and> length dg \<le> 2 ^ 53"
  proof (intro allI impI)
    fix q dg n assume "packets s q = Some (dg, n)"
    then have "length dg \<le> 1472" using assms(4) by blast
    moreover from this have "(of_nat (length dg) :: rat) \<le> of_nat 3000" by (subst of_nat_le_iff) simp
    ultimately show "of_nat (length dg) \<le> tokens (s_pacer s) \<and> length dg \<le> 2 ^ 53" using assms(3) by simp
  qed
  obtain s1 b1 where u: "send_urgent now s [] = (s1, b1)" by fastforce
  obtain s2 b2 where n: "send_normal now s1 b1 = (s2, b2)" by fastforce
  note su = send_urgent_sends[OF u assms(2)]
  have i1: "bucket_inv (s_pacer s1)" using su sends_inv by blast
  note sn = send_normal_sends[OF n i1]
  have i2: "bucket_inv (s_pacer s2)" using sn sends_inv by blast
  have x: "send_unsent now (take (BATCH_SIZE - length b2)
      (filter (is_unsent seen (rto (stats s2)) s2) (ko (dom (in_flight s2))))) s2 b2 = (s', b)"
    using assms(1) u n by (simp add: build_batch_def)
  note sx = send_unsent_sends[OF x i2] send_unsent_queues[OF x]
  note du = send_urgent_drains[OF u assms(2)] and dn = send_normal_drains[OF n i1]
  have sub: "set b1 \<subseteq> set b2" "set b2 \<subseteq> set b" and pk: "packets s1 = packets s"
    using sn sx su by (auto simp: sends_def)
  have "backlog s' < backlog s" if "backlog s \<noteq> 0"
  proof (cases "urgent_retransmits s = []")
    case True
    then have s1: "s1 = s" "b1 = []" using du(4) by simp_all
    have "length (normal_retransmits s2) < length (normal_retransmits s)"
      using n retransmit_shrinks[OF _ assms(2) _ _ room, of now "normal_retransmits s" "[]"] that True unfolding s1
      by (auto simp: send_normal_def backlog_def BATCH_SIZE_def split: prod.splits)
    then show ?thesis using True dn sx s1 by (simp add: backlog_def)
  next
    case False
    then have "length (urgent_retransmits s1) < length (urgent_retransmits s)"
      using u retransmit_shrinks[OF _ assms(2) _ _ room, of now "urgent_retransmits s" "[]"]
      by (auto simp: send_urgent_def BATCH_SIZE_def split: prod.splits)
    then show ?thesis using du dn sx by (simp add: backlog_def)
  qed
  moreover have "on_wire s b q" if "on_wire s b1 q \<or> on_wire s1 b2 q" for q
    using that sub pk by (auto simp: on_wire_def)
  ultimately show ?thesis using du(2,3) dn(2,3) sx by (auto simp: queued_def)
qed

section \<open>One iteration with a patient clock\<close>

text \<open>
  Readings of an iteration a second after the last refill, with a kernel that accepts the batch.
\<close>

definition patient :: "sender \<Rightarrow> readings" where
  "patient s = (let t = last_refill (s_pacer s) + 1000000000 in
     \<lparr>key_order = sorted_list_of_set, event_now = t, probe_reset_now = t, chunk_us = (\<lambda>_. 0), chunk_now = (\<lambda>_. t),
      refill_now = t, push_now = (\<lambda>_. t), seen_now = (\<lambda>_. t), kernel = send_all\<rparr>)"

lemma patient_ok [simp]: "enumerates (key_order (patient s))" "kernel_ok (kernel (patient s))"
  by (simp_all add: patient_def Let_def enumerates_sorted kernel_ok_send_all)

fun own_event :: "sender_event \<Rightarrow> bool" where
  "own_event (CommandEvent _) \<longleftrightarrow> False"
| "own_event _ \<longleftrightarrow> True"

lemma handle_own_event:
  assumes "own_event ev" "handle_event rd ev (s, sd) = (s1, sd1)" "enumerates (key_order rd)"
  shows "sd1 = sd \<and> last_refill (s_pacer s1) = last_refill (s_pacer s)"
proof (cases ev)
  case ProbeTick
  then show ?thesis using assms(2) by (auto simp: set_rate_def split: prod.splits option.splits)
next
  case (SackEvent k)
  then show ?thesis using assms(2) process_sack_eq[OF assms(3), of "event_now rd" k s] by auto
qed (use assms(1) in auto)

lemma send_all_batch:
  assumes "\<forall>dg\<in>set batch. length dg \<le> 1472"
  shows "take (nat (fst (send_all batch))) batch = batch"
  using assms by (fastforce simp: send_all_def)

lemma sender_inv_lengths:
  assumes "sender_inv sid hist sacks s" "length hist < 2 ^ 64"
  shows "\<forall>q dg n. packets s q = Some (dg, n) \<longrightarrow> length dg \<le> 1472"
proof (intro allI impI)
  fix q dg n assume "packets s q = Some (dg, n)"
  then have dd: "data_datagram sid hist (unat q) dg" and hist: "\<forall>c\<in>set hist. length c \<le> MAX_PAYLOAD"
    using assms(1) by (auto simp: sender_inv_def)
  note d = data_datagram_data[OF dd assms(2) hist]
  have "length (hist ! unat q) \<le> 1443" using d hist nth_mem by (fastforce simp: MAX_PAYLOAD_def)
  then show "length dg \<le> 1472" using d by (simp add: HEADER_SIZE_def)
qed

lemma patient_iteration:
  assumes "sender_inv sid hist sacks s" "paced s" "own_event ev" "length hist < 2 ^ 64"
    and ev: "handle_event (patient s) ev (s, sd) = (s1, sd1)"
  shows "\<exists>s' sent. run_iteration (patient s) ev (s, sd) = Return (s', sd, sent, sd \<and> in_flight s' = Map.empty) \<and>
    packets s' = packets s1 \<and> (backlog s1 = 0 \<or> backlog s' < backlog s1) \<and>
    (\<forall>q\<in>queued s1. q \<in> queued s' \<or> on_wire s1 sent q)"
proof -
  have ch: "event_chunks ev = []" using assms(3) by (cases ev) auto
  have inv1: "sender_inv sid hist (sacks @ event_sacks ev) s1"
    using handle_event_inv[OF assms(1) _ _ ev] assms(4) ch by simp
  have sd: "sd1 = sd" "last_refill (s_pacer s1) = last_refill (s_pacer s)"
    using handle_own_event[OF assms(3) ev] by simp_all
  define s2 where "s2 = s1\<lparr>s_pacer := refill (refill_now (patient s)) (s_pacer s1)\<rparr>"
  have b: "bucket_inv (s_pacer s1)" using inv1 by (simp add: sender_inv_def)
  have "paced s1" using handle_event_paced[OF assms(2) _ ev] by simp
  then have t2: "bucket_inv (s_pacer s2)" "tokens (s_pacer s2) = 3000"
    using b refill_second[OF b] bucket_inv_refill[OF b] by (simp_all add: s2_def paced_def patient_def sd(2) Let_def)
  have same: "packets s2 = packets s1" "queued s2 = queued s1" "backlog s2 = backlog s1"
    by (simp_all add: s2_def packets_def queued_def backlog_def)
  have len: "\<forall>q dg n. packets s2 q = Some (dg, n) \<longrightarrow> length dg \<le> 1472"
    using sender_inv_lengths[OF inv1 assms(4)] same(1) by simp
  obtain s3 batch where bb: "build_batch (key_order (patient s)) (push_now (patient s)) (seen_now (patient s)) s2 = (s3, batch)"
    by fastforce
  note dr = build_batch_drains[OF bb t2 len] and bs = build_batch_sends[OF bb t2(1)]
  have "set batch \<subseteq> {dg. \<exists>q n. packets s2 q = Some (dg, n)}" using bs by (auto simp: sends_def)
  then have "\<forall>dg\<in>set batch. length dg \<le> 1472" using len by blast
  from send_all_batch[OF this] have all: "take (nat (fst (kernel (patient s) batch))) batch = batch"
    by (simp add: patient_def Let_def)
  obtain n where n: "send_batch_sendmmsg (kernel (patient s)) batch = Return n"
    using send_batch_sendmmsg_returns patient_ok(2) by blast
  obtain s' where s': "send_batch (kernel (patient s)) (key_order (patient s)) (push_now (patient s)) (seen_now (patient s)) s2 =
      Return (s', batch)" "packets s' = packets s3" "queued s' = queued s3" "backlog s' = backlog s3"
    using bb n all by (cases "batch = []") (simp_all add: send_batch_def packets_def queued_def backlog_def)
  have "run_iteration (patient s) ev (s, sd) = Return (s', sd, batch, sd \<and> in_flight s' = Map.empty)"
    using ev s'(1) sd(1) by (simp add: run_iteration_def s2_def)
  moreover have "packets s3 = packets s1" using bs same(1) by (simp add: sends_def)
  ultimately show ?thesis using dr s' same by (intro exI[of _ s'] exI[of _ batch]) (auto simp: on_wire_def)
qed

section \<open>Paths of the system\<close>

text \<open>The steps that need nothing from the application and from other tasks.\<close>

fun protocol_event :: "net_event \<Rightarrow> bool" where
  "protocol_event (Sending ev) \<longleftrightarrow> own_event ev"
| "protocol_event Heartbeat \<longleftrightarrow> True"
| "protocol_event Reading \<longleftrightarrow> True"
| "protocol_event _ \<longleftrightarrow> False"

definition protocol_path :: "u32 \<Rightarrow> network \<Rightarrow> network \<Rightarrow> bool" where
  "protocol_path sid = (\<lambda>w w'. \<exists>ev. protocol_event ev \<and> net_step True sid ev w w')\<^sup>*\<^sup>*"

lemma protocol_path_refl [simp]: "protocol_path sid w w"
  by (simp add: protocol_path_def)

lemma protocol_path_step: "net_step True sid ev w w' \<Longrightarrow> protocol_event ev \<Longrightarrow> protocol_path sid w w'"
  unfolding protocol_path_def by blast

lemma protocol_path_trans: "protocol_path sid w w' \<Longrightarrow> protocol_path sid w' w'' \<Longrightarrow> protocol_path sid w w''"
  unfolding protocol_path_def by (rule rtranclp_trans)

text \<open>A path keeps the session consistent and the application's data as they are.\<close>

lemma protocol_step_keeps:
  assumes "net_step True sid ev w w'" "protocol_event ev"
  shows "n_hist w' = n_hist w \<and> snd (n_sender w') = snd (n_sender w)"
  using assms
proof cases
  case (sending rd e chan s' sd' sent stop)
  have own: "own_event e" using assms(2) sending by simp
  obtain s sd where s: "n_sender w = (s, sd)" by fastforce
  obtain s1 sd1 where ev: "handle_event rd e (s, sd) = (s1, sd1)" by fastforce
  have "sd' = sd1" using sending s ev by (auto simp: run_iteration_def split: outcome.splits)
  moreover have "event_chunks e = []" using own by (cases e) auto
  ultimately show ?thesis using sending s handle_own_event[OF own ev] by (simp add: sender_moves_def)
qed (use assms(2) in \<open>auto simp: receiver_moves_def\<close>)

lemma protocol_path_keeps:
  assumes "protocol_path sid w w'" "net_ok sid w"
  shows "net_ok sid w' \<and> n_hist w' = n_hist w \<and> snd (n_sender w') = snd (n_sender w)"
  using assms unfolding protocol_path_def
  by (induction rule: rtranclp_induct) (use protocol_step_keeps net_ok_step in \<open>metis+\<close>)

text \<open>An iteration of the sender, as a step of the system.\<close>

lemma patient_step:
  assumes ok: "net_ok sid w" and len: "length (n_hist w) < 2 ^ 64" and run: "n_running w" and own: "own_event ev"
    and sel: "select_event ev (n_chan w) = Some chan" and snd: "n_sender w = (s, sd)"
    and ev: "handle_event (patient s) ev (s, sd) = (s1, sd1)"
  shows "\<exists>s' sent. let w' = sender_moves ev (s', sd) (\<not> (sd \<and> in_flight s' = Map.empty)) chan sent w in
    net_step True sid (Sending ev) w w' \<and> packets s' = packets s1 \<and> (backlog s1 = 0 \<or> backlog s' < backlog s1) \<and>
    (\<forall>q\<in>queued s1. q \<in> queued s' \<or> on_wire s1 sent q)"
proof -
  have "sender_inv sid (n_hist w) (n_taken w) s" using net_sender_inv(1)[OF ok len] snd by simp
  moreover have "paced s" using sender_run_paced[of sid "n_hist w"] ok len snd unfolding net_ok_def by (metis fst_conv)
  ultimately obtain s' sent where it: "run_iteration (patient s) ev (n_sender w) = Return (s', sd, sent, sd \<and> in_flight s' = Map.empty)"
    and rest: "packets s' = packets s1 \<and> (backlog s1 = 0 \<or> backlog s' < backlog s1) \<and>
      (\<forall>q\<in>queued s1. q \<in> queued s' \<or> on_wire s1 sent q)"
    using patient_iteration[OF _ _ own len ev] snd by metis
  show ?thesis using net_step.sending[OF run patient_ok sel it] rest unfolding Let_def by blast
qed

text \<open>First: the SACKs that are queued are processed, unless the loop of the sender ends.\<close>

lemma drain_channel:
  assumes "net_ok sid w" "length (n_hist w) + 1025 < 2 ^ 64" "n_going w" "n_running w"
  shows "\<exists>w'. protocol_path sid w w' \<and> n_going w' \<and> (n_running w' \<longrightarrow> n_chan w' = [])"
  using assms
proof (induction "length (n_chan w)" arbitrary: w rule: less_induct)
  case less
  show ?case
  proof (cases "n_chan w")
    case Nil
    then show ?thesis using less.prems by (intro exI[of _ w]) simp
  next
    case (Cons k chan)
    obtain s sd where s: "n_sender w = (s, sd)" by fastforce
    obtain s1 sd1 where ev: "handle_event (patient s) (SackEvent k) (s, sd) = (s1, sd1)" by fastforce
    obtain s' running sent where step: "net_step True sid (Sending (SackEvent k)) w (sender_moves (SackEvent k) (s', sd) running chan sent w)"
      using patient_step[OF less.prems(1) _ less.prems(4) _ _ s ev, of chan] less.prems(2) Cons by (auto simp: Let_def)
    define w1 where "w1 = sender_moves (SackEvent k) (s', sd) running chan sent w"
    have w1: "n_chan w1 = chan" "n_going w1" "n_hist w1 = n_hist w" "net_ok sid w1" "protocol_path sid w w1"
      using step less.prems net_ok_step[OF step] protocol_path_step[OF step]
      by (simp_all add: w1_def sender_moves_def)
    show ?thesis
    proof (cases "n_running w1")
      case True
      then obtain w' where "protocol_path sid w1 w'" "n_going w'" "n_running w' \<longrightarrow> n_chan w' = []"
        using less.hyps[of w1] w1 Cons less.prems(2) by auto
      then show ?thesis using protocol_path_trans[OF w1(5)] by blast
    qed (use w1 in blast)
  qed
qed

text \<open>A heartbeat and the iteration that processes its SACK.\<close>

lemma heartbeat_round:
  assumes "net_ok sid w" "length (n_hist w) + 1025 < 2 ^ 64" "n_going w" "n_running w" "n_chan w = []"
    "n_sender w = (s, sd)"
  defines "k \<equiv> payload (sack_mgr (fst (n_receiver w)))"
  shows "\<exists>w' s' s1. protocol_path sid w w' \<and> n_going w' \<and> n_chan w' = [] \<and> n_sender w' = (s', sd) \<and>
    n_running w' = (\<not> (sd \<and> in_flight s' = Map.empty)) \<and>
    packets s' = packets s1 \<and> s1 = process_sack (key_order (patient s)) (event_now (patient s)) k s \<and>
    (\<forall>q\<in>queued s1. q \<in> queued s' \<or> on_wire s1 (n_wire w') q)"
proof -
  obtain r' period acts where hb: "net_step True sid Heartbeat w (receiver_moves True (r', period) True [] acts w)"
    "n_chan (receiver_moves True (r', period) True [] acts w) = [k]"
    using net_heartbeat[OF assms(1-5)] by (auto simp: Let_def k_def)
  define w1 where "w1 = receiver_moves True (r', period) True [] acts w"
  have w1: "net_ok sid w1" "n_hist w1 = n_hist w" "n_running w1" "n_going w1" "n_chan w1 = [k]" "n_sender w1 = (s, sd)"
    using net_ok_step[OF hb(1) assms(1)] hb(2) assms(4,6) by (simp_all add: w1_def receiver_moves_def)
  define s1 where "s1 = process_sack (key_order (patient s)) (event_now (patient s)) k s"
  have ev: "handle_event (patient s) (SackEvent k) (s, sd) = (s1, sd)" by (simp add: s1_def)
  have len: "length (n_hist w1) < 2 ^ 64" using assms(2) w1(2) by simp
  obtain s' sent where
    step: "net_step True sid (Sending (SackEvent k)) w1 (sender_moves (SackEvent k) (s', sd) (\<not> (sd \<and> in_flight s' = Map.empty)) [] sent w1)"
    and s': "packets s' = packets s1" "\<forall>q\<in>queued s1. q \<in> queued s' \<or> on_wire s1 sent q"
    using patient_step[OF w1(1) len w1(3) _ _ w1(6) ev, of "[]"] w1(5) by (auto simp: Let_def)
  define w2 where "w2 = sender_moves (SackEvent k) (s', sd) (\<not> (sd \<and> in_flight s' = Map.empty)) [] sent w1"
  have "protocol_path sid w w2"
    using protocol_path_trans[of sid w w1 w2] protocol_path_step[OF hb(1)] protocol_path_step[OF step]
    by (simp add: w2_def w1_def)
  then show ?thesis using s' w1(4) unfolding s1_def[symmetric]
    by (intro exI[of _ w2] exI[of _ s'] exI[of _ s1]) (auto simp: w2_def sender_moves_def on_wire_def)
qed

text \<open>Every packet in flight is queued or was sent.\<close>

definition covered :: "network \<Rightarrow> bool" where
  "covered w \<longleftrightarrow> (\<forall>q. q \<in> queued (fst (n_sender w)) \<or> on_wire (fst (n_sender w)) (n_wire w) q)"

text \<open>Second: a heartbeat covers the packets in flight, whatever was lost.\<close>

lemma process_sack_queues:
  assumes "enumerates ko" "packets (process_sack ko now k s) q \<noteq> None"
  shows "q \<in> queued (process_sack ko now k s)"
proof -
  define s1 where "s1 = process_sack ko now k s"
  obtain us ns where s1: "in_flight s1 = (\<lambda>q. if sack_acks k q then None else map_option bump (in_flight s q))"
    "urgent_retransmits s1 = urgent_retransmits s @ us" "normal_retransmits s1 = normal_retransmits s @ ns"
    "set us = {q. is_gap k s True q}" "set ns = {q. is_gap k s False q}"
    using process_sack_eq[OF assms(1), of now k s] unfolding s1_def by auto
  have "in_flight s1 q \<noteq> None" using assms(2) by (simp add: packets_def s1_def)
  then have "is_gap k s True q \<or> is_gap k s False q" by (auto simp: s1(1) is_gap_def split: if_splits)
  then show ?thesis using s1 unfolding s1_def[symmetric] by (auto simp: queued_def)
qed

lemma cover:
  assumes "net_ok sid w" "length (n_hist w) + 1025 < 2 ^ 64" "n_going w" "n_running w" "n_chan w = []"
  shows "\<exists>w'. protocol_path sid w w' \<and> n_going w' \<and> n_chan w' = [] \<and> covered w'"
proof -
  obtain s sd where s: "n_sender w = (s, sd)" by fastforce
  obtain w' s' s1 where w': "protocol_path sid w w'" "n_going w'" "n_chan w' = []" "n_sender w' = (s', sd)"
    "packets s' = packets s1" "\<forall>q\<in>queued s1. q \<in> queued s' \<or> on_wire s1 (n_wire w') q"
    and s1: "\<And>q. packets s1 q \<noteq> None \<Longrightarrow> q \<in> queued s1"
    using heartbeat_round[OF assms s] process_sack_queues[OF patient_ok(1)] by blast
  have "q \<in> queued s' \<or> on_wire s' (n_wire w') q" for q
    using s1[of q] w'(5,6) by (cases "packets s1 q") (auto simp: on_wire_def)
  then have "covered w'" using w'(4) by (simp add: covered_def)
  then show ?thesis using w' by blast
qed

text \<open>Third: the queues drain, one iteration after the other.\<close>

lemma probe_tick_keeps:
  assumes "handle_event rd ProbeTick (s, sd) = (s1, sd1)"
  shows "packets s1 = packets s" "queued s1 = queued s" "backlog s1 = backlog s"
  using assms by (auto simp: packets_def queued_def backlog_def split: prod.splits option.splits)

lemma drain_queues:
  assumes "net_ok sid w" "length (n_hist w) + 1025 < 2 ^ 64" "n_going w" "n_running w" "n_chan w = []" "covered w"
  shows "\<exists>w'. protocol_path sid w w' \<and> n_going w' \<and>
    (n_running w' \<longrightarrow> n_chan w' = [] \<and> (\<forall>q. on_wire (fst (n_sender w')) (n_wire w') q))"
  using assms
proof (induction "backlog (fst (n_sender w))" arbitrary: w rule: less_induct)
  case less
  obtain s sd where s: "n_sender w = (s, sd)" by fastforce
  show ?case
  proof (cases "backlog s = 0")
    case True
    then have "queued s = {}" by (simp add: backlog_def queued_def)
    then show ?thesis using less.prems s by (intro exI[of _ w]) (auto simp: covered_def)
  next
    case False
    obtain s1 sd1 where ev: "handle_event (patient s) ProbeTick (s, sd) = (s1, sd1)" by fastforce
    note keep = probe_tick_keeps[OF ev]
    obtain s' running sent where
      step: "net_step True sid (Sending ProbeTick) w (sender_moves ProbeTick (s', sd) running [] sent w)"
      and s': "packets s' = packets s" "backlog s' < backlog s" "\<forall>q\<in>queued s. q \<in> queued s' \<or> on_wire s sent q"
      using patient_step[OF less.prems(1) _ less.prems(4) _ _ s ev, of "[]"] less.prems(2,5) False keep
      by (auto simp: Let_def on_wire_def)
    define w1 where "w1 = sender_moves ProbeTick (s', sd) running [] sent w"
    have w1: "n_chan w1 = []" "n_going w1" "n_hist w1 = n_hist w" "net_ok sid w1" "protocol_path sid w w1"
      "n_sender w1 = (s', sd)" "n_wire w1 = n_wire w @ sent"
      using step less.prems net_ok_step[OF step] protocol_path_step[OF step]
      by (simp_all add: w1_def sender_moves_def)
    have "covered w1" using less.prems(6) s' s w1(6,7) by (fastforce simp: covered_def on_wire_def)
    then show ?thesis
    proof (cases "n_running w1")
      case True
      then obtain w' where "protocol_path sid w1 w'" "n_going w'"
        "n_running w' \<longrightarrow> n_chan w' = [] \<and> (\<forall>q. on_wire (fst (n_sender w')) (n_wire w') q)"
        using less.hyps[of w1] w1 s s'(2) less.prems(2) \<open>covered w1\<close> by auto
      then show ?thesis using protocol_path_trans[OF w1(5)] by blast
    qed (use w1 in blast)
  qed
qed

text \<open>So every chunk is on the wire, those that were acknowledged because they arrived from it.\<close>

lemma all_on_wire:
  assumes "net_ok sid w" "length (n_hist w) + 1025 < 2 ^ 64" "\<forall>q. on_wire (fst (n_sender w)) (n_wire w) q"
    "i < length (n_hist w)"
  shows "\<exists>dg\<in>set (n_wire w). data_datagram sid (n_hist w) i dg"
proof (cases "packets (fst (n_sender w)) (of_nat i)")
  case (Some x)
  obtain dg n where x: "x = (dg, n)" by fastforce
  have "unat (of_nat i :: u64) = i" using assms(2,4) by (simp add: unat_of_nat_small)
  then have "data_datagram sid (n_hist w) i dg"
    using net_sender_inv(1)[OF assms(1)] assms(2) Some x unfolding sender_inv_def by fastforce
  then show ?thesis using assms(3) Some x by (auto simp: on_wire_def)
next
  case None
  have len: "length (n_hist w) < 2 ^ 64" using assms(2) by simp
  have "of_nat i \<notin> dom (in_flight (fst (n_sender w)))" using None unfolding dom_packets[symmetric] by (simp add: domIff)
  from net_gone_delivered[OF assms(1,2,4) this] have "(of_nat i, n_hist w ! i) \<in> set (n_arrived w)" by simp
  then obtain dg where dg: "dg \<in> set (n_wire w)" "data_of sid dg = Some (of_nat i, n_hist w ! i)"
    using assms(1) by (fastforce simp: net_ok_def)
  obtain j where j: "data_datagram sid (n_hist w) j dg" using net_sender_inv(2)[OF assms(1) len] dg(1) by blast
  have "(of_nat j :: u64) = of_nat i" "unat (of_nat j :: u64) = j"
    using data_datagram_data[OF j len] net_sender_inv(4)[OF assms(1) len] dg(2) by auto
  moreover have "unat (of_nat i :: u64) = i" using assms(4) len by (simp add: unat_of_nat_small)
  ultimately show ?thesis using dg(1) j by metis
qed

text \<open>Fourth: the chunks arrive in their order, each inside the window.\<close>

lemma deliver_upto:
  assumes "net_ok sid w" "length (n_hist w) + 1025 < 2 ^ 64" "n_going w"
    "\<forall>i < length (n_hist w). \<exists>dg\<in>set (n_wire w). data_datagram sid (n_hist w) i dg" "m \<le> length (n_hist w)"
  shows "\<exists>w'. protocol_path sid w w' \<and> n_going w' \<and> n_sender w' = n_sender w \<and> n_running w' = n_running w \<and>
    n_chan w' = n_chan w \<and> n_wire w' = n_wire w \<and> (\<forall>j < m. acked (fst (n_receiver w')) (of_nat j))"
  using assms(5)
proof (induction m)
  case 0
  then show ?case using assms(3) by (intro exI[of _ w]) simp
next
  case (Suc m)
  then obtain w1 where w1: "protocol_path sid w w1" "n_going w1" "n_sender w1 = n_sender w" "n_running w1 = n_running w"
    "n_chan w1 = n_chan w" "n_wire w1 = n_wire w" and ack: "\<forall>j < m. acked (fst (n_receiver w1)) (of_nat j)" by auto
  have ok: "net_ok sid w1" and hist: "n_hist w1 = n_hist w" using protocol_path_keeps[OF w1(1) assms(1)] by simp_all
  obtain dg where dg: "dg \<in> set (n_wire w1)" "data_datagram sid (n_hist w1) m dg"
    using assms(4) Suc.prems w1(6) hist by (auto simp: Suc_le_eq)
  define r where "r = fst (n_receiver w1)"
  obtain r' period acts where step: "net_step True sid Reading w1 (receiver_moves True (r', period) True [(of_nat m, n_hist w1 ! m)] acts w1)"
    and acts: "offered acts = []"
    and new: "{q. acked r' q} = {q. acked r q} \<union> {q. q = of_nat m \<and> unat q < unat (base_seq (payload (sack_mgr r))) + 1024}"
    using net_deliver[OF ok _ w1(2) dg, of True] assms(2) hist by (auto simp: Let_def r_def)
  have "manager_inv (sack_mgr r)"
    using net_receiver_inv[OF ok] assms(2) hist by (simp add: run_inv_def receiver_inv_def r_def)
  then have "\<not> acked r (of_nat (unat (base_seq (payload (sack_mgr r)))))" by (simp add: manager_inv_def)
  then have "m \<le> unat (base_seq (payload (sack_mgr r)))" using ack unfolding r_def by (meson not_le)
  moreover have "unat (of_nat m :: u64) = m" using Suc.prems assms(2) by (simp add: unat_of_nat_small)
  ultimately have "acked r' (of_nat j)" if "j < Suc m" for j
    using new ack that by (cases "j = m") (auto simp: r_def set_eq_iff)
  moreover define w2 where "w2 = receiver_moves True (r', period) True [(of_nat m, n_hist w1 ! m)] acts w1"
  moreover have "protocol_path sid w w2"
    using protocol_path_trans[OF w1(1)] protocol_path_step[OF step] by (simp add: w2_def)
  ultimately show ?case using w1 acts
    by (intro exI[of _ w2]) (simp add: receiver_moves_def offer_sacks_def)
qed

text \<open>What a completed transfer is.\<close>

definition completed :: "network \<Rightarrow> bool" where
  "completed w \<longleftrightarrow> set (n_hist w) \<subseteq> set (n_delivered w) \<and> in_flight (fst (n_sender w)) = Map.empty \<and>
     (snd (n_sender w) \<longrightarrow> \<not> n_running w)"

lemma empty_completed:
  assumes "net_ok sid w" "length (n_hist w) + 1025 < 2 ^ 64" "in_flight (fst (n_sender w)) = Map.empty"
    "snd (n_sender w) \<longrightarrow> \<not> n_running w"
  shows "completed w"
  using assms net_gone_delivered[OF assms(1,2)] by (fastforce simp: completed_def in_set_conv_nth)

lemma stopped_completed:
  assumes "net_ok sid w" "length (n_hist w) + 1025 < 2 ^ 64" "\<not> n_running w"
  shows "completed w"
  using assms net_sender_inv(3)[OF assms(1)] by (intro empty_completed) auto

text \<open>Fifth: a heartbeat after all arrivals empties the sender's store.\<close>

lemma last_round:
  assumes "net_ok sid w" "length (n_hist w) + 1025 < 2 ^ 64" "n_going w" "n_running w" "n_chan w = []"
    "\<forall>j < length (n_hist w). acked (fst (n_receiver w)) (of_nat j)"
  shows "\<exists>w'. protocol_path sid w w' \<and> completed w'"
proof -
  obtain s sd where s: "n_sender w = (s, sd)" by fastforce
  define k where "k = payload (sack_mgr (fst (n_receiver w)))"
  obtain w' s' s1 where w': "protocol_path sid w w'" "n_sender w' = (s', sd)" "n_running w' = (\<not> (sd \<and> in_flight s' = Map.empty))"
    "packets s' = packets s1" "s1 = process_sack (key_order (patient s)) (event_now (patient s)) k s"
    using heartbeat_round[OF assms(1-5) s] unfolding k_def by blast
  have fl: "in_flight s1 = (\<lambda>q. if sack_acks k q then None else map_option bump (in_flight s q))"
    using process_sack_eq[OF patient_ok(1)[of s], of "event_now (patient s)" k s] w'(5) by auto
  have "sack_acks k q" if fq: "in_flight s q = Some e" for q e
  proof -
    have "q \<in> dom (packets s)" using fq unfolding dom_packets by blast
    then have "unat q < length (n_hist w)"
      using net_sender_inv(1)[OF assms(1)] assms(2) s by (fastforce simp: sender_inv_def data_datagram_def)
    then have "acked (fst (n_receiver w)) (of_nat (unat q))" using assms(6) by blast
    then show "sack_acks k q" by (simp add: sack_acks_def k_def)
  qed
  then have "in_flight s1 q = None" for q unfolding fl by (cases "in_flight s q") auto
  then have "dom (packets s') = {}" unfolding w'(4) dom_packets by (simp add: dom_def)
  then have "in_flight s' = Map.empty" by (simp add: dom_packets)
  moreover have "net_ok sid w'" "n_hist w' = n_hist w" using protocol_path_keeps[OF w'(1) assms(1)] by simp_all
  ultimately show ?thesis using w' assms(2) empty_completed[of sid w'] by auto
qed

section \<open>Completion\<close>

lemma continue_path:
  assumes "protocol_path sid w w1" "net_ok sid w" "length (n_hist w) + 1025 < 2 ^ 64"
    "n_running w1 \<Longrightarrow> net_ok sid w1 \<Longrightarrow> length (n_hist w1) + 1025 < 2 ^ 64 \<Longrightarrow> \<exists>w'. protocol_path sid w1 w' \<and> completed w'"
  shows "\<exists>w'. protocol_path sid w w' \<and> completed w'"
proof -
  have w1: "net_ok sid w1" "length (n_hist w1) + 1025 < 2 ^ 64"
    using protocol_path_keeps[OF assms(1,2)] assms(3) by simp_all
  show ?thesis
  proof (cases "n_running w1")
    case True
    then show ?thesis using assms(4)[OF _ w1] protocol_path_trans[OF assms(1)] by blast
  next
    case False
    then show ?thesis using stopped_completed[OF w1] assms(1) by blast
  qed
qed

lemma completes_on_wire:
  assumes "n_running w" "net_ok sid w" "length (n_hist w) + 1025 < 2 ^ 64" "n_going w" "n_chan w = []"
    "\<forall>q. on_wire (fst (n_sender w)) (n_wire w) q"
  shows "\<exists>w'. protocol_path sid w w' \<and> completed w'"
proof -
  obtain w1 where w1: "protocol_path sid w w1" "n_going w1" "n_chan w1 = []"
    "\<forall>j < length (n_hist w). acked (fst (n_receiver w1)) (of_nat j)"
    using deliver_upto[OF assms(2,3,4) _ order_refl] all_on_wire[OF assms(2,3,6)] assms(5) by auto
  have "n_hist w1 = n_hist w" using protocol_path_keeps[OF w1(1) assms(2)] by simp
  then show ?thesis using w1 by (intro continue_path[OF w1(1) assms(2,3)] last_round) auto
qed

lemma completes_covered:
  assumes "n_running w" "net_ok sid w" "length (n_hist w) + 1025 < 2 ^ 64" "n_going w" "n_chan w = []" "covered w"
  shows "\<exists>w'. protocol_path sid w w' \<and> completed w'"
proof -
  obtain w1 where w1: "protocol_path sid w w1" "n_going w1"
    "n_running w1 \<longrightarrow> n_chan w1 = [] \<and> (\<forall>q. on_wire (fst (n_sender w1)) (n_wire w1) q)"
    using drain_queues[OF assms(2-4,1,5,6)] by blast
  then show ?thesis by (intro continue_path[OF w1(1) assms(2,3)] completes_on_wire) auto
qed

lemma completes_reachable:
  assumes "n_running w" "net_ok sid w" "length (n_hist w) + 1025 < 2 ^ 64" "n_going w"
  shows "\<exists>w'. protocol_path sid w w' \<and> completed w'"
proof -
  obtain w1 where w1: "protocol_path sid w w1" "n_going w1" "n_running w1 \<longrightarrow> n_chan w1 = []"
    using drain_channel[OF assms(2-4,1)] by blast
  show ?thesis
  proof (rule continue_path[OF w1(1) assms(2,3)])
    assume run: "n_running w1" and ok: "net_ok sid w1" and len: "length (n_hist w1) + 1025 < 2 ^ 64"
    then obtain w2 where w2: "protocol_path sid w1 w2" "n_going w2" "n_chan w2 = []" "covered w2"
      using cover[OF ok len w1(2) run] w1(3) by blast
    show "\<exists>w'. protocol_path sid w1 w' \<and> completed w'"
      using w2 by (intro continue_path[OF w2(1) ok len] completes_covered) auto
  qed
qed

text \<open>Without the SACK channel nothing is ever acknowledged, so nothing leaves the store and the loop goes on.\<close>

lemma unwired_silent: "net_reachable wired sid w \<Longrightarrow> \<not> wired \<Longrightarrow> n_chan w = [] \<and> n_taken w = []"
proof (induction rule: net_reachable.induct)
  case (step w ev w')
  from step.hyps(2) show ?case
  proof cases
    case (sending rd ev chan s' sd' sent stop)
    then show ?thesis using step select_event_chan[of ev "[]" chan] by (simp add: sender_moves_def)
  qed (use step in \<open>simp_all add: receiver_moves_def\<close>)
qed (simp add: net_new_def)

lemma unacknowledged_in_flight:
  assumes "sender_inv sid hist [] s" "length hist < 2 ^ 64" "i < length hist"
  shows "\<exists>e. in_flight s (of_nat i) = Some e \<and> data_datagram sid hist i (ent_datagram e)"
proof -
  have "unat (of_nat i :: u64) = i" using assms(2,3) by (simp add: unat_of_nat_small)
  moreover obtain e where e: "in_flight s (of_nat i) = Some e" using assms(1,3) by (auto simp: sender_inv_def)
  moreover have "packets s (of_nat i) = Some (ent_datagram e, nak_count e)" using e by (simp add: packets_def)
  ultimately show ?thesis using assms(1) unfolding sender_inv_def by fastforce
qed

text \<open>
  C2: completion depends on the SACK channel.  Take any reachable state of a session: any chunks
  handed over, any datagrams lost, any interleaving so far.  If the SACKs of the receiver reach
  the sender, as \<open>Receiver::new\<close> documents, and the receiver has not ended, then probe ticks,
  heartbeats, SACKs and arrivals alone, with no help of the application or of other tasks, lead to a
  state in which every chunk was delivered, nothing is in flight, and the loop of the sender has
  ended if a shutdown was requested: no packet is forgotten, no queue gets stuck behind the pacer,
  and the 1024-packet window never locks out a packet that is needed.  In the wiring of the commands,
  where no SACK reaches the sender, the opposite holds: once a chunk was handed over, every chunk
  stays in flight under its datagram and the loop has not ended, in every reachable state and whatever
  was delivered; only the command's timeout ends the wait for it.
\<close>

theorem completion_depends_on_sacks:
  assumes "net_reachable wired sid w" "length (n_hist w) + 1025 < 2 ^ 64"
  shows "(wired \<and> n_going w \<longrightarrow>
      (\<exists>w'. protocol_path sid w w' \<and> n_hist w' = n_hist w \<and> snd (n_sender w') = snd (n_sender w) \<and>
        set (n_hist w) \<subseteq> set (n_delivered w') \<and> in_flight (fst (n_sender w')) = Map.empty \<and>
        (snd (n_sender w) \<longrightarrow> \<not> n_running w'))) \<and>
    (\<not> wired \<and> n_hist w \<noteq> [] \<longrightarrow> n_running w \<and>
      (\<forall>i < length (n_hist w). \<exists>e. in_flight (fst (n_sender w)) (of_nat i) = Some e \<and>
        data_datagram sid (n_hist w) i (ent_datagram e)))"
proof -
  have ok: "net_ok sid w" using assms(1) by (rule net_reachable_ok)
  have len: "length (n_hist w) < 2 ^ 64" using assms(2) by simp
  have "\<exists>w'. protocol_path sid w w' \<and> n_hist w' = n_hist w \<and> snd (n_sender w') = snd (n_sender w) \<and>
      set (n_hist w) \<subseteq> set (n_delivered w') \<and> in_flight (fst (n_sender w')) = Map.empty \<and>
      (snd (n_sender w) \<longrightarrow> \<not> n_running w')" if going: "n_going w"
  proof -
    obtain w' where w': "protocol_path sid w w'" "completed w'"
      using completes_reachable[OF _ ok assms(2) going] stopped_completed[OF ok assms(2)] protocol_path_refl by blast
    then show ?thesis using protocol_path_keeps[OF w'(1) ok] by (auto simp: completed_def)
  qed
  moreover have flight: "\<forall>i < length (n_hist w). \<exists>e. in_flight (fst (n_sender w)) (of_nat i) = Some e \<and>
      data_datagram sid (n_hist w) i (ent_datagram e)" if "\<not> wired"
    using net_sender_inv(1)[OF ok len] unwired_silent[OF assms(1) that] unacknowledged_in_flight[OF _ len] by simp
  moreover have "n_running w" if "\<not> wired" "n_hist w \<noteq> []"
    using net_sender_inv(3)[OF ok len] flight[OF that(1)] that(2) by fastforce
  ultimately show ?thesis by blast
qed

text \<open>Both wirings: with SACKs the chunk of the example can be completed, without it stays in flight.\<close>

theorem completion_depends_on_sacks_witness:
  "(\<exists>s w'. net_reachable True 7 (example_chunk_sent s) \<and> protocol_path 7 (example_chunk_sent s) w' \<and>
     n_hist w' = [[65, 66]] \<and> [65, 66] \<in> set (n_delivered w') \<and> in_flight (fst (n_sender w')) = Map.empty) \<and>
   (\<exists>s. net_reachable False 7 (example_chunk_sent s) \<and> n_running (example_chunk_sent s) \<and>
     in_flight (fst (n_sender (example_chunk_sent s))) 0 \<noteq> None)"
proof
  obtain s where w: "net_reachable True 7 (example_chunk_sent s)" "n_hist (example_chunk_sent s) = [[65, 66]]"
    using example_net by blast
  have "n_going (example_chunk_sent s)" by (simp add: example_chunk_sent_def sender_moves_def net_new_def)
  then show "\<exists>s w'. net_reachable True 7 (example_chunk_sent s) \<and> protocol_path 7 (example_chunk_sent s) w' \<and>
     n_hist w' = [[65, 66]] \<and> [65, 66] \<in> set (n_delivered w') \<and> in_flight (fst (n_sender w')) = Map.empty"
    using completion_depends_on_sacks[OF w(1)] w by auto
next
  obtain s where w: "net_reachable False 7 (example_chunk_sent s)" "n_hist (example_chunk_sent s) = [[65, 66]]"
    using example_net by blast
  then show "\<exists>s. net_reachable False 7 (example_chunk_sent s) \<and> n_running (example_chunk_sent s) \<and>
     in_flight (fst (n_sender (example_chunk_sent s))) 0 \<noteq> None"
    using completion_depends_on_sacks[OF w(1)] by auto
qed

end
