(* ===== verification/Lifecycle.thy ===== *)
theory Lifecycle
  imports Reader
begin

text \<open>
  How the storage engine starts and stops its background threads: \<open>AsyncReader::new\<close>,
  \<open>AsyncWriter::new\<close> and \<open>IoEngine::new\<close> (\<^verbatim>\<open>crates/ioengine/src/reader.rs\<close>, \<^verbatim>\<open>writer.rs\<close>, \<^verbatim>\<open>lib.rs\<close>), and
  \<open>Drop\<close>, which sends the shutdown request into the request channel and only then closes the
  channels.  That \<open>send\<close> blocks while the channel is full, so it is not clear that a reader or a
  writer can be dropped after an error left work in the channels; the theory shows that it can.  A
  file operation of a thread is one step here: it is assumed to return, which the loops over the
  ring do as long as the kernel moves bytes (\<open>Platforms\<close>).  Nothing joins the threads, so what a thread
  still does after its owner is gone it does only if the process lives on.
\<close>

section \<open>Construction\<close>

datatype engine_error = ReaderNotStarted | WriterNotStarted

definition async_reader_new :: "bool \<Rightarrow> engine_error + (path, path \<times> (io_error + bytes)) worker" where
  "async_reader_new spawned =
     (if spawned then Inr \<lparr>req_chan = [], in_hand = None, res_chan = []\<rparr> else Inl ReaderNotStarted)"

record async_writer =
  aw_output_dir :: path
  aw_worker :: "(path \<times> bytes, poll) worker"

definition async_writer_new :: "bool \<Rightarrow> path \<Rightarrow> engine_error + async_writer" where
  "async_writer_new spawned out =
     (if spawned then Inr \<lparr>aw_output_dir = out, aw_worker = \<lparr>req_chan = [], in_hand = None, res_chan = []\<rparr>\<rparr>
      else Inl WriterNotStarted)"

record io_engine =
  eng_reader :: "(path, path \<times> (io_error + bytes)) worker"
  eng_writer :: async_writer

text \<open>When the writer cannot be started the reader that was is dropped again.\<close>

definition io_engine_new :: "bool \<Rightarrow> bool \<Rightarrow> path \<Rightarrow> engine_error + io_engine" where
  "io_engine_new reader_spawned writer_spawned out =
     (case async_reader_new reader_spawned of
        Inl e \<Rightarrow> Inl e
      | Inr r \<Rightarrow>
          (case async_writer_new writer_spawned out of
             Inl e \<Rightarrow> Inl e
           | Inr w \<Rightarrow> Inr \<lparr>eng_reader = r, eng_writer = w\<rparr>))"

section \<open>Drop\<close>

text \<open>
  The requests (\<open>None\<close> is the shutdown), the result in the thread's hands, the results, what the
  thread has worked on since, whether the owner is gone (its end of the result channel is then
  closed and a \<open>send\<close> of the thread fails at once), and whether the thread has ended.
\<close>

record ('a, 'b) drop_sys =
  d_req :: "'a option list"
  d_hand :: "'b option"
  d_res :: "'b list"
  d_worked :: "'b list"
  d_dropped :: bool
  d_exited :: bool

definition drop_init :: "('a, 'b) worker \<Rightarrow> ('a, 'b) drop_sys" where
  "drop_init w = \<lparr>d_req = map Some (req_chan w), d_hand = in_hand w, d_res = res_chan w, d_worked = [],
     d_dropped = False, d_exited = False\<rparr>"

inductive drop_step :: "nat \<Rightarrow> ('a \<Rightarrow> 'b) \<Rightarrow> ('a, 'b) drop_sys \<Rightarrow> ('a, 'b) drop_sys \<Rightarrow> bool" for cap work where
  send_shutdown: "\<not> d_dropped s \<Longrightarrow> length (d_req s) < cap \<Longrightarrow>
     drop_step cap work s (s\<lparr>d_req := d_req s @ [None], d_dropped := True\<rparr>)"
| take_request: "\<not> d_exited s \<Longrightarrow> d_hand s = None \<Longrightarrow> d_req s = Some r # rs \<Longrightarrow>
     drop_step cap work s (s\<lparr>d_req := rs, d_hand := Some (work r), d_worked := d_worked s @ [work r]\<rparr>)"
| take_shutdown: "\<not> d_exited s \<Longrightarrow> d_hand s = None \<Longrightarrow> d_req s = None # rs \<Longrightarrow>
     drop_step cap work s (s\<lparr>d_req := rs, d_exited := True\<rparr>)"
| put_result: "d_hand s = Some v \<Longrightarrow> \<not> d_dropped s \<Longrightarrow> length (d_res s) < cap \<Longrightarrow>
     drop_step cap work s (s\<lparr>d_hand := None, d_res := d_res s @ [v]\<rparr>)"
| lose_result: "d_hand s = Some v \<Longrightarrow> d_dropped s \<Longrightarrow> drop_step cap work s (s\<lparr>d_hand := None\<rparr>)"

inductive_cases drop_stepE: "drop_step cap work s s'"

definition drop_done :: "('a, 'b) drop_sys \<Rightarrow> bool" where
  "drop_done s \<longleftrightarrow> d_dropped s \<and> d_exited s"

text \<open>
  Until the shutdown is sent there is a free place somewhere: in a channel or in the hands.  The
  shutdown is the last request, and no request is lost.
\<close>

definition drop_inv :: "nat \<Rightarrow> ('a \<Rightarrow> 'b) \<Rightarrow> 'a list \<Rightarrow> ('a, 'b) drop_sys \<Rightarrow> bool" where
  "drop_inv cap work xs s \<longleftrightarrow> 0 < cap \<and>
     (\<exists>ys. d_req s = map Some ys @ (if d_dropped s \<and> \<not> d_exited s then [None] else []) \<and>
        d_worked s @ map work ys = map work xs \<and> (d_exited s \<longrightarrow> ys = [])) \<and>
     (d_exited s \<longrightarrow> d_dropped s \<and> d_hand s = None) \<and>
     (\<not> d_dropped s \<longrightarrow> length (d_req s) \<le> cap \<and>
        length (d_req s) + (if d_hand s = None then 0 else 1) + length (d_res s) \<le> 2 * cap)"

definition drop_mea :: "('a, 'b) drop_sys \<Rightarrow> nat" where
  "drop_mea s = 3 * length (d_req s) + (if d_hand s = None then 0 else 1) + (if d_dropped s then 0 else 4)"

lemma drop_inv_init:
  assumes "0 < cap" "length (req_chan w) \<le> cap" "length (pending work w) \<le> 2 * cap"
  shows "drop_inv cap work (req_chan w) (drop_init w)"
  using assms unfolding length_pending by (auto simp: drop_inv_def drop_init_def)

lemma drop_mea_step: "drop_step cap work s s' \<Longrightarrow> drop_mea s' < drop_mea s"
  by (erule drop_stepE) (auto simp: drop_mea_def)

lemma drop_inv_step:
  assumes "drop_inv cap work xs s" "drop_step cap work s s'"
  shows "drop_inv cap work xs s'"
  using assms(2)
proof cases
  case send_shutdown
  then show ?thesis using assms(1) by (auto simp: drop_inv_def)
next
  case (take_request r rs)
  then obtain ys where "d_req s = map Some ys @ (if d_dropped s then [None] else [])" "d_worked s @ map work ys = map work xs"
    using assms(1) by (auto simp: drop_inv_def)
  then obtain zs where "ys = r # zs" "rs = map Some zs @ (if d_dropped s then [None] else [])"
    using take_request(4) by (cases ys) (auto split: if_splits)
  then show ?thesis using assms(1) take_request \<open>d_worked s @ map work ys = map work xs\<close>
    by (auto simp: drop_inv_def)
next
  case (take_shutdown rs)
  then show ?thesis using assms(1) by (auto simp: drop_inv_def Cons_eq_append_conv split: if_splits)
next
  case (put_result v)
  then show ?thesis using assms(1) by (auto simp: drop_inv_def)
next
  case (lose_result v)
  then show ?thesis using assms(1) by (auto simp: drop_inv_def)
qed

lemma drop_progress:
  assumes "drop_inv cap work xs s" "\<not> drop_done s"
  shows "\<exists>s'. drop_step cap work s s'"
proof (cases "d_dropped s")
  case True
  then have run: "\<not> d_exited s" using assms(2) by (simp add: drop_done_def)
  show ?thesis
  proof (cases "d_hand s")
    case None
    obtain x rs where "d_req s = x # rs" using assms(1) True run by (cases "d_req s") (auto simp: drop_inv_def)
    then show ?thesis using run None by (cases x) (blast intro: drop_step.intros)+
  qed (use True in \<open>blast intro: drop_step.lose_result\<close>)
next
  case False
  then have run: "\<not> d_exited s" using assms(1) by (auto simp: drop_inv_def)
  show ?thesis
  proof (cases "length (d_req s) < cap")
    case full: False
    show ?thesis
    proof (cases "d_hand s")
      case None
      obtain x rs where x: "d_req s = x # rs" using assms(1) full by (cases "d_req s") (auto simp: drop_inv_def)
      then have "x \<noteq> None" using assms(1) False by (auto simp: drop_inv_def)
      then show ?thesis using run None x by (blast intro: drop_step.take_request)
    next
      case (Some v)
      then have "length (d_res s) < cap" using assms(1) False full by (auto simp: drop_inv_def)
      then show ?thesis using Some False by (blast intro: drop_step.put_result)
    qed
  qed (use False in \<open>blast intro: drop_step.send_shutdown\<close>)
qed

interpretation dr: completing "drop_step cap work" "drop_inv cap work xs" drop_mea drop_done
  for cap work xs
  by unfold_locales (use drop_inv_step drop_mea_step drop_progress in blast)+

interpretation dr_stuck: completing "drop_step cap work" "\<lambda>_. True" drop_mea "\<lambda>s. \<nexists>s'. drop_step cap work s s'"
  for cap work
  by unfold_locales (use drop_mea_step in blast)+

text \<open>A run of \<open>Drop\<close> ends, and the thread first works off every request that was queued.\<close>

lemma drop_ends:
  assumes "0 < cap" "length (req_chan w) \<le> cap" "length (pending work w) \<le> 2 * cap"
  shows "(drop_step cap work ^^ n) (drop_init w) s \<Longrightarrow> n \<le> 3 * length (req_chan w) + 5"
    and "(drop_step cap work)\<^sup>*\<^sup>* (drop_init w) s \<Longrightarrow> \<nexists>s'. drop_step cap work s s' \<Longrightarrow>
      d_dropped s \<and> d_exited s \<and> d_worked s = map work (req_chan w)"
proof -
  note inv = drop_inv_init[OF assms]
  show "n \<le> 3 * length (req_chan w) + 5" if "(drop_step cap work ^^ n) (drop_init w) s"
    using dr.run_length[OF that inv] by (auto simp: drop_mea_def drop_init_def split: if_splits)
  show "d_dropped s \<and> d_exited s \<and> d_worked s = map work (req_chan w)"
    if run: "(drop_step cap work)\<^sup>*\<^sup>* (drop_init w) s" and stuck: "\<nexists>s'. drop_step cap work s s'"
    using dr.stuck_final[OF run inv stuck] dr.inv_steps[OF run inv] by (auto simp: drop_done_def drop_inv_def)
qed

section \<open>What an owner leaves behind\<close>

text \<open>
  \<open>stream_directory\<close> returns before it submitted anything (there is nothing to read), or after it
  took at least one result, an error or the last one.
\<close>

lemma reader_leaves:
  assumes "(reader_step ok cap work)\<^sup>*\<^sup>* (reader_init files) s" "0 < cap" "to_submit s = []"
    "collected s \<noteq> [] \<or> rd_error s \<noteq> None \<or> files = []"
  shows "length (req_chan (rd_worker s)) \<le> cap" and "length (pending work (rd_worker s)) \<le> 2 * cap"
proof -
  have inv: "reader_inv ok cap work files s" by (rule reader_inv_reachable[OF assms(1,2)])
  then show "length (req_chan (rd_worker s)) \<le> cap" by (simp add: reader_inv_def)
  have eq: "(collected s @ (case rd_error s of None \<Rightarrow> [] | Some v \<Rightarrow> [v])) @ pending work (rd_worker s) = map work files"
    using inv assms(3) by (simp add: reader_inv_def)
  have "length files \<le> 2 * cap + 1" using inv assms(3) by (simp add: reader_inv_def)
  then show "length (pending work (rd_worker s)) \<le> 2 * cap"
    using assms(4) arg_cong[OF eq, of length] by (cases "collected s"; cases "rd_error s") auto
qed

text \<open>\<open>receive_and_write\<close> may return at any entry, with at most one write more than fits between two reaps.\<close>

lemma writer_leaves:
  assumes "(writer_step ok mkdir cap work)\<^sup>*\<^sup>* (writer_init es) s" "2 \<le> cap"
  shows "length (req_chan (wr_worker s)) \<le> cap" and "length (pending work (wr_worker s)) \<le> 2 * cap"
proof -
  have "writer_inv ok mkdir cap work es s \<and> wr_in_flight s \<le> cap + 2"
    using assms(1)
  proof (induction rule: rtranclp_induct)
    case base
    show ?case using writer_inv_init[of ok mkdir cap work es] by (simp add: writer_init_def)
  next
    case (step s s')
    have "wr_in_flight s' \<le> cap + 2"
      using step.hyps(2)
    proof cases
      case (submit x ts)
      then show ?thesis using step.IH by (simp add: writer_inv_def)
    qed (use step.IH in \<open>auto simp: take_result_def Let_def\<close>)
    then show ?case using step writer_inv_step by blast
  qed
  then show "length (req_chan (wr_worker s)) \<le> cap" "length (pending work (wr_worker s)) \<le> 2 * cap"
    using assms(2) by (auto simp: writer_inv_def)
qed

text \<open>
  C21: the storage engine can always be dropped.  When \<open>stream_directory\<close> has returned, with the
  bytes or with the error of some file, and at whatever entry \<open>receive_and_write\<close> has returned,
  dropping the reader and the writer never hangs although \<open>Drop\<close> sends the shutdown into a bounded
  channel and nobody collects results any more: every run of owner and thread ends, after a
  bounded number of steps, with the owner gone and the thread ended, and before it ends the thread
  works off the requests that were queued, so a write that was submitted is carried out.  File
  operations are assumed to return, and the process to live on until the thread has ended.
\<close>

theorem engine_drop_ends:
  assumes "(reader_step read_ok reader_capacity read)\<^sup>*\<^sup>* (reader_init files) s" "to_submit s = []"
    "collected s \<noteq> [] \<or> rd_error s \<noteq> None \<or> files = []"
    "(writer_step write_ok mkdir writer_capacity write)\<^sup>*\<^sup>* (writer_init es) t"
  shows "(\<forall>n x. (drop_step reader_capacity read ^^ n) (drop_init (rd_worker s)) x \<longrightarrow> n \<le> 1541) \<and>
    (\<forall>x. (drop_step reader_capacity read)\<^sup>*\<^sup>* (drop_init (rd_worker s)) x \<and> (\<nexists>y. drop_step reader_capacity read x y) \<longrightarrow>
       d_dropped x \<and> d_exited x) \<and>
    (\<forall>n x. (drop_step writer_capacity write ^^ n) (drop_init (wr_worker t)) x \<longrightarrow> n \<le> 773) \<and>
    (\<forall>x. (drop_step writer_capacity write)\<^sup>*\<^sup>* (drop_init (wr_worker t)) x \<and> (\<nexists>y. drop_step writer_capacity write x y) \<longrightarrow>
       d_dropped x \<and> d_exited x \<and> d_worked x = map write (req_chan (wr_worker t)))"
proof -
  have rc: "0 < reader_capacity" "reader_capacity = 512" and wc: "0 < writer_capacity" "2 \<le> writer_capacity" "writer_capacity = 256"
    by (simp_all add: reader_capacity_def QUEUE_DEPTH_def writer_capacity_def WRITE_QUEUE_DEPTH_def)
  note rl = reader_leaves[OF assms(1) rc(1) assms(2,3)] and wl = writer_leaves[OF assms(4) wc(2)]
  note rd = drop_ends[OF rc(1) rl] and wd = drop_ends[OF wc(1) wl]
  have "3 * length (req_chan (rd_worker s)) + 5 \<le> 1541" "3 * length (req_chan (wr_worker t)) + 5 \<le> 773"
    using rl(1) wl(1) rc(2) wc(3) by simp_all
  then show ?thesis using rd wd by (meson order_trans)
qed

theorem engine_drop_ends_witness:
  "\<exists>s x. (reader_step (\<lambda>v. v < 3) reader_capacity Suc)\<^sup>*\<^sup>* (reader_init [1, 2]) s \<and> rd_error s = Some 3 \<and>
     (drop_step reader_capacity Suc)\<^sup>*\<^sup>* (drop_init (rd_worker s)) x \<and> d_dropped x \<and> d_exited x"
proof -
  let ?run = "reader_step (\<lambda>v. v < 3) reader_capacity Suc"
  have cap: "0 < reader_capacity" "2 \<le> reader_capacity" by (simp_all add: reader_capacity_def QUEUE_DEPTH_def)
  obtain s where s: "?run\<^sup>*\<^sup>* (reader_init [1, 2]) s" "reader_done (length [1 :: nat, 2]) s"
    using rd.completes[of "\<lambda>v. v < 3" reader_capacity Suc "[1, 2]" "reader_init [1, 2]"]
      reader_inv_init[of "[1 :: nat, 2]" reader_capacity "\<lambda>v. v < 3" Suc] cap by auto
  have fin: "to_submit s = []" using s(2) by (simp add: reader_done_def)
  have err: "rd_error s = Some 3" using reader_returns[OF reader_inv_reachable[OF s(1) cap(1)] s(2)] by simp
  obtain x where x: "(drop_step reader_capacity Suc)\<^sup>*\<^sup>* (drop_init (rd_worker s)) x" "\<nexists>y. drop_step reader_capacity Suc x y"
    using dr_stuck.completes by blast
  have w: "(writer_step (\<lambda>_. True) (\<lambda>_. True) writer_capacity Suc)\<^sup>*\<^sup>* (writer_init []) (writer_init [])" by simp
  have ne: "collected s \<noteq> [] \<or> rd_error s \<noteq> None \<or> [1, 2 :: nat] = []" using err by simp
  have "d_dropped x \<and> d_exited x" using engine_drop_ends[OF s(1) fin ne w] x by blast
  then show ?thesis using s(1) err x(1) by blast
qed

end
