(* ===== verification/Platforms.thy ===== *)
theory Platforms
  imports Reader Network
begin

text \<open>
  The code that is compiled on systems other than Linux, and the functions that choose between it
  and the Linux code: \<open>read_file_platform\<close> and \<open>write_file_platform\<close> (\<^verbatim>\<open>crates/ioengine/src/reader.rs\<close>,
  \<^verbatim>\<open>writer.rs\<close>), the portable branches of \<open>send_batch_sendmmsg\<close> and \<open>recv_batch_recvmmsg\<close>
  (\<^verbatim>\<open>crates/protocol/src/sender.rs\<close>, \<^verbatim>\<open>receiver.rs\<close>), \<open>splice_copy\<close> and \<open>sendfile_to_socket\<close> (\<^verbatim>\<open>zerocopy.rs\<close>), and
  \<open>readable\<close>, which waits for the socket.  The Linux definitions of the other theories are the
  reference; the theory shows where the portable code is equivalent and where it is not.
\<close>

section \<open>Files\<close>

datatype platform = Linux | OtherSystem

text \<open>
  \<open>std::fs::read\<close>: read at the position reached so far until a read reports the end of the file
  (0) or an error (negative).  \<open>opened\<close> is what the file holds; the size that \<open>metadata\<close> reported
  is only a hint for the buffer.
\<close>

partial_function (option) read_to_end :: "(nat \<Rightarrow> int) \<Rightarrow> bytes \<Rightarrow> nat \<Rightarrow> (io_error + bytes) option" where
  "read_to_end k content offset =
     (let n = k offset in
      if n < 0 then Some (Inl (IoError offset n))
      else if n = 0 then Some (Inr (take offset content))
      else read_to_end k content (offset + nat n))"

definition read_file_std :: "(nat \<Rightarrow> int) \<Rightarrow> bytes option \<Rightarrow> (io_error + bytes) option" where
  "read_file_std k opened = (case opened of None \<Rightarrow> Some (Inl OpenFailed) | Some content \<Rightarrow> read_to_end k content 0)"

definition read_file_platform ::
  "platform \<Rightarrow> (nat \<Rightarrow> nat \<Rightarrow> int) \<Rightarrow> (nat \<Rightarrow> int) \<Rightarrow> (nat \<times> bytes) option \<Rightarrow> (io_error + bytes) option" where
  "read_file_platform os ring k opened =
     (case os of Linux \<Rightarrow> read_file_io_uring ring opened
      | OtherSystem \<Rightarrow> read_file_std k (map_option snd opened))"

text \<open>
  \<open>std::fs::write\<close>: create or truncate, then write what is left until nothing is left; a write
  that accepts nothing is an error (\<open>WriteZero\<close>).  There is no ring that could fail.
\<close>

partial_function (option) write_all :: "(nat \<Rightarrow> nat \<Rightarrow> int) \<Rightarrow> bytes \<Rightarrow> nat \<Rightarrow> bytes \<Rightarrow> (io_error option \<times> bytes) option" where
  "write_all k dat offset file =
     (if offset < length dat then
        let n = k offset (length dat - offset) in
        if n \<le> 0 then Some (Some (IoError offset n), file)
        else write_all k dat (offset + nat n) (pwrite file offset (slice offset (offset + nat n) dat))
      else Some (None, file))"

definition write_file_std :: "open_result \<Rightarrow> (nat \<Rightarrow> nat \<Rightarrow> int) \<Rightarrow> bytes \<Rightarrow> (io_error option \<times> bytes option) option" where
  "write_file_std opening k dat =
     (if opening = OpenFails then Some (Some OpenFailed, None)
      else map_option (\<lambda>(e, file). (e, Some file)) (write_all k dat 0 []))"

definition write_file_platform ::
  "platform \<Rightarrow> open_result \<Rightarrow> (nat \<Rightarrow> nat \<Rightarrow> int) \<Rightarrow> bytes \<Rightarrow> (io_error option \<times> bytes option) option" where
  "write_file_platform os opening k dat =
     (case os of Linux \<Rightarrow> write_file_io_uring opening k dat | OtherSystem \<Rightarrow> write_file_std opening k dat)"

section \<open>Sockets\<close>

text \<open>
  One \<open>send\<close> per datagram: the bytes accepted, or \<open>None\<close> for an error, which is skipped.
\<close>

fun send_each :: "(bytes \<Rightarrow> nat option) \<Rightarrow> bytes list \<Rightarrow> u64 \<Rightarrow> u64" where
  "send_each send [] total_bytes = total_bytes"
| "send_each send (dg # batch) total_bytes =
     send_each send batch (case send dg of Some n \<Rightarrow> total_bytes + of_nat n | None \<Rightarrow> total_bytes)"

definition send_batch_portable :: "(bytes \<Rightarrow> nat option) \<Rightarrow> bytes list \<Rightarrow> u64" where
  "send_batch_portable send batch = send_each send batch 0"

text \<open>One \<open>recv\<close> into slot 0; the datagram is cut to the slot.\<close>

definition recv_batch_portable :: "bytes option \<Rightarrow> bytes \<Rightarrow> ((nat \<times> nat) list \<times> bytes) outcome" where
  "recv_batch_portable arrived storage =
     (case arrived of
        None \<Rightarrow> Return ([], storage)
      | Some dg \<Rightarrow>
          let cut = take BUF_SIZE dg in
          (case slot_mut storage 0 cut of
             Panic \<Rightarrow> Panic
           | Return storage' \<Rightarrow> Return ([(0, length cut)], storage')))"

text \<open>
  \<open>readable\<close>: how it waits, and its answer.  On Unix it registers a duplicate of the descriptor and
  waits for it at most a millisecond, or sleeps a millisecond when that is impossible; elsewhere it
  yields once.
\<close>

datatype wait = Yield | SleepMs nat | PollAtMostMs nat

definition readable :: "bool \<Rightarrow> int \<Rightarrow> bool \<Rightarrow> wait \<times> bool" where
  "readable unix dup_fd registered =
     (if \<not> unix then (Yield, True)
      else if dup_fd < 0 then (SleepMs 1, True)
      else if registered then (PollAtMostMs 1, True)
      else (SleepMs 1, True))"

section \<open>Zero-copy helpers\<close>

datatype copy_error = OsError | Unsupported

definition splice_copy_platform ::
  "platform \<Rightarrow> bool \<Rightarrow> (nat \<Rightarrow> nat \<Rightarrow> int) \<Rightarrow> (nat \<Rightarrow> nat \<Rightarrow> int) \<Rightarrow> nat \<Rightarrow> (copy_error + nat) option" where
  "splice_copy_platform os pipe_ok pull push len =
     (case os of
        Linux \<Rightarrow> map_option (map_sum (\<lambda>_. OsError) id) (splice_copy pipe_ok pull push len)
      | OtherSystem \<Rightarrow> Some (Inl Unsupported))"

definition sendfile_platform :: "platform \<Rightarrow> (nat \<Rightarrow> int) \<Rightarrow> nat \<Rightarrow> copy_error + nat" where
  "sendfile_platform os sendfile count =
     (case os of
        Linux \<Rightarrow> map_sum (\<lambda>_. OsError) id (sendfile_to_socket sendfile count)
      | OtherSystem \<Rightarrow> Inl Unsupported)"

section \<open>Equivalence\<close>

text \<open>What \<open>read\<close> promises: bytes of the file while there are any, and 0 at its end.\<close>

definition reads_file :: "(nat \<Rightarrow> int) \<Rightarrow> bytes \<Rightarrow> bool" where
  "reads_file k content \<longleftrightarrow> (\<forall>off \<le> length content. 0 \<le> k off \<and> k off \<le> int (length content - off) \<and>
     (off < length content \<longrightarrow> 0 < k off))"

lemma read_to_end_ok:
  assumes "reads_file k content" "off \<le> length content"
  shows "read_to_end k content off = Some (Inr content)"
  using assms(2)
proof (induction "length content - off" arbitrary: off rule: less_induct)
  case less
  have k: "0 \<le> k off" "k off \<le> int (length content - off)" "off < length content \<Longrightarrow> 0 < k off"
    using assms(1) less.prems by (auto simp: reads_file_def)
  show ?case
  proof (cases "off < length content")
    case True
    then have "off + nat (k off) \<le> length content" "0 < nat (k off)" using k less.prems by auto
    then have "read_to_end k content (off + nat (k off)) = Some (Inr content)" using less.hyps True by simp
    then show ?thesis using True k by (subst read_to_end.simps) (simp add: Let_def)
  next
    case False
    then show ?thesis using k less.prems by (subst read_to_end.simps) (simp add: Let_def)
  qed
qed

lemma write_all_ok:
  assumes "progress k" "offset \<le> length dat"
  shows "write_all k dat offset (take offset dat) = Some (None, dat)"
  using assms(2)
proof (induction "length dat - offset" arbitrary: offset rule: less_induct)
  case less
  show ?case
  proof (cases "offset < length dat")
    case True
    obtain m where m: "k offset (length dat - offset) = int m" "0 < m" "m \<le> length dat - offset"
      using progressD[OF assms(1), of "length dat - offset" offset] True by auto
    have fit: "offset + m \<le> length dat" using m(3) True by simp
    note nx = pwrite_next[OF fit, of "take offset dat"]
    have "pwrite (take offset dat) offset (slice offset (offset + m) dat) = take (offset + m) dat"
      using nx True by simp
    then show ?thesis using True m fit less.hyps[of "offset + m"]
      by (subst write_all.simps) (simp add: Let_def)
  qed (use less.prems in \<open>simp add: write_all.simps\<close>)
qed

text \<open>A write that accepts nothing makes the loop over the ring spin.\<close>

lemma write_file_loop_spins:
  assumes "\<forall>n. k m n = 0" "m < length dat"
  shows "write_file_loop k dat m file = None"
proof -
  have "write_file_loop k' d off file' = Some r \<Longrightarrow> k' = k \<Longrightarrow> off = m \<Longrightarrow> d = dat \<Longrightarrow> False" for k' d off file' r
  proof (induction arbitrary: rule: write_file_loop.raw_induct[rotated, consumes 1, case_names step])
    case (step f k' d off file' r)
    then show ?case using assms by (simp add: Let_def)
  qed
  then have "write_file_loop k dat m file \<noteq> Some r" for r by blast
  then show ?thesis by (cases "write_file_loop k dat m file") blast+
qed

text \<open>
  C29: the portable file code does what the Linux code does, and is more robust.  On a file that
  does not change, with calls that make progress, reading and writing give the same results on
  every system: exactly the bytes.  A file that became shorter after its length was taken is read
  as it now is by the portable code, while the loop over the ring never ends; a device that
  accepts no more bytes is an error of the portable code, while the loop over the ring never ends.
  A file that cannot be opened is left as it was by both; a ring that cannot be created, which only
  Linux needs, leaves the file empty.
\<close>

theorem portable_files_agree:
  assumes "progress ring" "reads_file k content" "\<forall>n. full 0 n = 0" "dat \<noteq> []"
    "length content < file_len" "\<forall>n. stuck (length content) n = 0"
    "\<forall>off n. off < length content \<longrightarrow> 0 < n \<longrightarrow> stuck off n = int (min n (length content - off))"
  shows "read_file_platform os ring k (Some (length content, content)) = Some (Inr content) \<and>
    read_file_platform os ring k None = Some (Inl OpenFailed) \<and>
    write_file_platform os Opened ring dat = Some (None, Some dat) \<and>
    write_file_platform os OpenFails ring dat = Some (Some OpenFailed, None) \<and>
    write_file_platform os RingFails ring dat =
      (case os of Linux \<Rightarrow> Some (Some RingFailed, Some []) | OtherSystem \<Rightarrow> Some (None, Some dat)) \<and>
    read_file_platform os stuck k (Some (file_len, content)) =
      (case os of Linux \<Rightarrow> None | OtherSystem \<Rightarrow> Some (Inr content)) \<and>
    write_file_platform os Opened full dat =
      (case os of Linux \<Rightarrow> None | OtherSystem \<Rightarrow> Some (Some (IoError 0 0), Some []))"
proof -
  have "read_file_loop ring content 0 (replicate (length content) 0) = Some (Inr content)"
    using assms(1) by (intro read_file_loop_ok) simp_all
  moreover have "write_file_loop ring dat 0 [] = Some (None, dat)" using write_file_loop_ok[OF assms(1), of 0 dat] by simp
  moreover have "write_all ring dat 0 [] = Some (None, dat)" using write_all_ok[OF assms(1), of 0 dat] by simp
  moreover have "read_to_end k content 0 = Some (Inr content)" using read_to_end_ok[OF assms(2)] by simp
  moreover have "write_file_loop full dat 0 [] = None" using assms(3,4) by (intro write_file_loop_spins) simp_all
  moreover have "write_all full dat 0 [] = Some (Some (IoError 0 0), [])" using assms(3,4) by (subst write_all.simps) simp
  moreover have "read_file_io_uring stuck (Some (file_len, content)) = None"
    using read_file_shrunk[OF assms(5,6,7) refl] .
  ultimately show ?thesis
    by (cases os) (simp_all add: read_file_platform_def read_file_io_uring_def read_file_std_def
        write_file_platform_def write_file_io_uring_def write_file_std_def)
qed

theorem portable_files_agree_witness:
  "let ring = (\<lambda>_ n. int n); k = (\<lambda>off. int (2 - off)); stuck = (\<lambda>off n. if off < 2 then int (min n (2 - off)) else 0) in
   read_file_platform OtherSystem stuck k (Some (3, [7, 8])) = Some (Inr [7, 8]) \<and>
   read_file_platform Linux stuck k (Some (3, [7, 8])) = None \<and>
   write_file_platform OtherSystem Opened ring [1] = Some (None, Some [1])"
proof -
  let ?stuck = "\<lambda>off n. if off < 2 then int (min n (2 - off)) else 0"
  have "progress (\<lambda>_ n. int n)" "reads_file (\<lambda>off. int (2 - off)) [7, 8]"
    by (auto simp: progress_def reads_file_def)
  from portable_files_agree[OF this, of "\<lambda>_ _. 0" "[1]" 3 ?stuck OtherSystem]
    portable_files_agree[OF this, of "\<lambda>_ _. 0" "[1]" 3 ?stuck Linux]
  show ?thesis by (simp add: Let_def numeral_2_eq_2)
qed

text \<open>
  \<open>sendmmsg\<close> over the same socket: the datagrams in order up to the first that is refused; -1 when
  that is the first of all.
\<close>

definition sendmmsg_over :: "(bytes \<Rightarrow> nat option) \<Rightarrow> sendmmsg" where
  "sendmmsg_over send batch =
     (let ok = takeWhile (\<lambda>dg. send dg \<noteq> None) batch in
      (if ok = [] then - 1 else int (length ok),
       map (\<lambda>dg. case send dg of Some n \<Rightarrow> of_nat n | None \<Rightarrow> 0) batch))"

definition send_ok :: "(bytes \<Rightarrow> nat option) \<Rightarrow> bool" where
  "send_ok send \<longleftrightarrow> (\<forall>dg n. send dg = Some n \<longrightarrow> n < 2 ^ 32)"

lemma send_each_sum:
  "send_each send batch t = t + sum_list (map (\<lambda>dg. case send dg of Some n \<Rightarrow> of_nat n | None \<Rightarrow> 0) batch)"
  by (induction batch arbitrary: t) (auto simp: add.assoc split: option.split)

lemma take_takeWhile_length: "take (length (takeWhile P xs)) xs = takeWhile P xs"
  by (metis takeWhile_eq_take)

lemma ucast_of_small_nat: "n < 2 ^ 32 \<Longrightarrow> ucast (of_nat n :: u32) = (of_nat n :: u64)"
  by (simp add: word_unat_eq_iff unsigned_ucast_eq unat_of_nat_small take_bit_nat_eq_self)

lemma recv_portable_one:
  assumes "length storage = POOL_SIZE * BUF_SIZE" "length dg \<le> BUF_SIZE"
  shows "recv_batch_portable (Some dg) storage = recv_batch_recvmmsg (recv_one dg) storage"
proof -
  have "unat (of_nat (length dg) :: u32) = length dg" using assms(2) by (simp add: BUF_SIZE_def unat_of_nat_small)
  then show ?thesis using assms
    by (simp add: recv_batch_portable_def recv_batch_recvmmsg_def recv_one_def slot_mut_def POOL_SIZE_def RECV_BATCH_def Let_def)
qed

text \<open>
  The portable socket code.  Sending the datagrams one by one counts the same bytes as one
  \<open>sendmmsg\<close> when the socket accepts all of them; in general \<open>sendmmsg\<close> sends and counts exactly
  the part before the first refused datagram, while the portable loop skips that one and goes
  on.  Receiving one datagram into slot 0 is a batch of one, so a run of the receiver with
  portable calls is a run with \<open>recvmmsg\<close>; and waiting for the socket always ends with an attempt to
  receive, after at most a millisecond.
\<close>

theorem portable_sockets_agree:
  assumes "send_ok send" "length storage = POOL_SIZE * BUF_SIZE" "length dg \<le> BUF_SIZE"
  shows "send_batch_sendmmsg (sendmmsg_over send) batch =
      Return (send_batch_portable send (takeWhile (\<lambda>dg. send dg \<noteq> None) batch)) \<and>
    ((\<forall>dg\<in>set batch. send dg \<noteq> None) \<longrightarrow>
      send_batch_sendmmsg (sendmmsg_over send) batch = Return (send_batch_portable send batch)) \<and>
    recv_batch_portable (Some dg) storage = recv_batch_recvmmsg (recv_one dg) storage \<and>
    recv_batch_portable None storage = recv_batch_recvmmsg (\<lambda>st. (- 1, replicate RECV_BATCH 0, st)) storage \<and>
    snd (readable unix dup_fd registered) \<and> fst (readable unix dup_fd registered) \<in> {Yield, SleepMs 1, PollAtMostMs 1}"
proof -
  let ?ok = "takeWhile (\<lambda>dg. send dg \<noteq> None) batch"
  let ?len = "\<lambda>dg. case send dg of Some n \<Rightarrow> of_nat n | None \<Rightarrow> 0"
  have cast: "ucast (?len dg :: u32) = (?len dg :: u64)" for dg
    using assms(1) ucast_of_small_nat by (auto simp: send_ok_def split: option.split)
  have len: "take (length ?ok) (map ?len batch :: u32 list) = map ?len ?ok"
    by (simp add: take_map take_takeWhile_length)
  have le: "length ?ok \<le> length batch" by (rule length_takeWhile_le)
  have "send_batch_sendmmsg (sendmmsg_over send) batch = Return (send_batch_portable send ?ok)"
  proof (cases "?ok = []")
    case True
    then show ?thesis by (simp add: send_batch_sendmmsg_def sendmmsg_over_def Let_def True send_batch_portable_def)
  next
    case False
    then show ?thesis using len le cast
      by (simp add: send_batch_sendmmsg_def sendmmsg_over_def Let_def send_batch_portable_def send_each_sum comp_def)
  qed
  moreover have "recv_batch_portable None storage = recv_batch_recvmmsg (\<lambda>st. (- 1, replicate RECV_BATCH 0, st)) storage"
    by (simp add: recv_batch_portable_def recv_batch_recvmmsg_def)
  moreover have "takeWhile (\<lambda>dg. send dg \<noteq> None) batch = batch" if "\<forall>dg\<in>set batch. send dg \<noteq> None"
    using that by (simp add: takeWhile_eq_all_conv)
  moreover have "snd (readable unix dup_fd registered) \<and> fst (readable unix dup_fd registered) \<in> {Yield, SleepMs 1, PollAtMostMs 1}"
    by (simp add: readable_def)
  ultimately show ?thesis using recv_portable_one[OF assms(2,3)] by metis
qed

theorem portable_sockets_agree_witness:
  "let send = (\<lambda>dg. if length dg < 3 then Some (length dg) else None) in
   send_batch_sendmmsg (sendmmsg_over send) [[1], [1, 2, 3], [4, 5]] = Return 1 \<and>
   send_batch_portable send [[1], [1, 2, 3], [4, 5]] = 3 \<and>
   recv_batch_portable (Some [7]) pool_new = recv_batch_recvmmsg (recv_one [7]) pool_new"
proof -
  let ?send = "\<lambda>dg :: bytes. if length dg < 3 then Some (length dg) else None"
  have "send_ok ?send" "length pool_new = POOL_SIZE * BUF_SIZE" "length [7 :: u8] \<le> BUF_SIZE"
    by (simp_all add: send_ok_def pool_new_def BUF_SIZE_def)
  from portable_sockets_agree[OF this, of "[[1], [1, 2, 3], [4, 5]]"] show ?thesis
    by (simp add: send_batch_portable_def Let_def)
qed

end
