(* ===== verification/Server.thy ===== *)
theory Server
  imports Commands
begin

text \<open>
  The \<open>server\<close> command and the program's entry: \<open>ServerArgs\<close> and \<open>run\<close> of \<^verbatim>\<open>crates/cli/src/server.rs\<close>,
  \<open>ServerBuilder\<close> of \<^verbatim>\<open>crates/controlplane/src/server.rs\<close>, and the dispatch in \<^verbatim>\<open>crates/cli/src/main.rs\<close>.
  The gRPC library is an argument: whether it accepts a TLS identity and whether it can serve on an
  address.  A server that is up is described by its address, its TLS identity and the service
  behind it, whose runs are those of \<open>svc_step\<close>.
\<close>

section \<open>Arguments\<close>

record server_args =
  sv_addr :: socket_addr
  sv_cert :: "path option"
  sv_key :: "path option"
  sv_default_max_bps :: u64
  sv_admin_user :: bytes
  sv_admin_pass :: bytes

text \<open>
  What the command line and the environment give, each part optional.  An argument goes before the
  environment variable, and that before the default.
\<close>

record server_given =
  gv_addr :: "socket_addr option"
  gv_cert :: "path option"
  gv_key :: "path option"
  gv_default_max_bps :: "u64 option"
  gv_admin_user :: "bytes option"
  gv_admin_pass :: "bytes option"
  env_admin_user :: "bytes option"
  env_admin_pass :: "bytes option"

definition first_given :: "'a option list \<Rightarrow> 'a \<Rightarrow> 'a" where
  "first_given xs d = (case filter (\<lambda>x. x \<noteq> None) xs of Some x # _ \<Rightarrow> x | _ \<Rightarrow> d)"

definition server_args_of :: "server_given \<Rightarrow> server_args" where
  "server_args_of g =
     \<lparr>sv_addr = first_given [gv_addr g] \<lparr>ip = V4 0, port = 9000\<rparr>, sv_cert = gv_cert g, sv_key = gv_key g,
      sv_default_max_bps = first_given [gv_default_max_bps g] 10000000,
      sv_admin_user = first_given [gv_admin_user g, env_admin_user g] [97, 100, 109, 105, 110],
      sv_admin_pass = first_given [gv_admin_pass g, env_admin_pass g] [99, 104, 97, 110, 103, 101, 109, 101]\<rparr>"

section \<open>The builder\<close>

record server_builder =
  bd_auth :: auth_engine
  bd_sessions :: session_manager
  bd_policies :: policy_engine

definition server_builder_new :: "auth_engine \<Rightarrow> session_manager \<Rightarrow> policy_engine \<Rightarrow> server_builder" where
  "server_builder_new auth sess pol = \<lparr>bd_auth = auth, bd_sessions = sess, bd_policies = pol\<rparr>"

definition service :: "server_builder \<Rightarrow> control_service" where
  "service b = \<lparr>svc_auth = bd_auth b, svc_sessions = bd_sessions b, svc_policies = bd_policies b\<rparr>"

record grpc_lib =
  tls_config_ok :: "bytes \<Rightarrow> bytes \<Rightarrow> bool"
  serve_ok :: "socket_addr \<Rightarrow> bool"

datatype server_error = ReadCert path | ReadKey path | TlsConfig | Transport

record serving =
  srv_addr :: socket_addr
  srv_identity :: "(bytes \<times> bytes) option"
  srv_service :: control_service

definition serve_insecure :: "grpc_lib \<Rightarrow> socket_addr \<Rightarrow> server_builder \<Rightarrow> server_error + serving" where
  "serve_insecure g addr b =
     (if serve_ok g addr then Inr \<lparr>srv_addr = addr, srv_identity = None, srv_service = service b\<rparr> else Inl Transport)"

definition serve_tls :: "grpc_lib \<Rightarrow> socket_addr \<Rightarrow> bytes \<Rightarrow> bytes \<Rightarrow> server_builder \<Rightarrow> server_error + serving" where
  "serve_tls g addr cert_pem key_pem b =
     (if \<not> tls_config_ok g cert_pem key_pem then Inl TlsConfig
      else if serve_ok g addr
      then Inr \<lparr>srv_addr = addr, srv_identity = Some (cert_pem, key_pem), srv_service = service b\<rparr>
      else Inl Transport)"

section \<open>The command\<close>

text \<open>\<open>files\<close> is what the certificate and the key are read from; \<open>secret\<close> and \<open>salt\<close> are the random bytes.\<close>

definition run_server ::
  "grpc_lib \<Rightarrow> crypto_lib \<Rightarrow> (path \<rightharpoonup> bytes) \<Rightarrow> bytes \<Rightarrow> bytes \<Rightarrow> server_args \<Rightarrow> server_error + serving" where
  "run_server g lib files secret salt args =
     (let auth = add_user lib salt (sv_admin_user args) (sv_admin_pass args) (auth_engine_new secret 3600);
          sess = session_manager_new (from_millis 300000);
          builder = server_builder_new auth sess (policy_engine_new (sv_default_max_bps args))
      in case (sv_cert args, sv_key args) of
           (Some cert_path, Some key_path) \<Rightarrow>
             (case files cert_path of
                None \<Rightarrow> Inl (ReadCert cert_path)
              | Some cert_pem \<Rightarrow>
                  (case files key_path of
                     None \<Rightarrow> Inl (ReadKey key_path)
                   | Some key_pem \<Rightarrow> serve_tls g (sv_addr args) cert_pem key_pem builder))
         | _ \<Rightarrow> serve_insecure g (sv_addr args) builder)"

section \<open>Dispatch\<close>

datatype cli_command = ServerCommand server_args | SendCommand send_args | ReceiveCommand receive_args

datatype cli_result =
    ServerResult "server_error + serving"
  | SendResult "(send_error + sent) outcome option"
  | ReceiveResult "(command_error + (path \<times> bytes) list) outcome option"

definition main ::
  "(server_args \<Rightarrow> server_error + serving) \<Rightarrow> send_env \<Rightarrow> receive_env \<Rightarrow> cli_command \<Rightarrow> cli_result" where
  "main server senv renv cmd =
     (case cmd of
        ServerCommand args \<Rightarrow> ServerResult (server args)
      | SendCommand args \<Rightarrow> SendResult (run_send senv args)
      | ReceiveCommand args \<Rightarrow> ReceiveResult (run_receive renv args))"

section \<open>What the server serves\<close>

lemma run_server_service:
  assumes "run_server g lib files secret salt args = Inr srv"
  shows "srv_service srv = server_setup lib secret salt (sv_admin_user args) (sv_admin_pass args) (sv_default_max_bps args)"
    and "srv_addr srv = sv_addr args"
    and "srv_identity srv = (case (sv_cert args, sv_key args) of
       (Some c, Some k) \<Rightarrow> Some (the (files c), the (files k)) | _ \<Rightarrow> None)"
  using assms by (auto simp: run_server_def serve_tls_def serve_insecure_def service_def server_builder_new_def
      server_setup_def Let_def split: option.splits if_splits)

lemma server_setup_authenticates:
  assumes "lib_ok lib" "s = server_setup lib secret salt user password bps"
  shows "authenticate lib (svc_auth s) u p \<longleftrightarrow> u = user \<and>
    pbkdf2_hmac lib p salt PBKDF2_ITERATIONS = pbkdf2_hmac lib password salt PBKDF2_ITERATIONS"
  using assms by (auto simp: server_setup_def add_user_def auth_engine_new_def authenticate_def xor_diff_zero lib_ok_def)

text \<open>
  C16: what the \<open>server\<close> command serves.  A server that is up listens on the address of the
  arguments; it uses TLS, with the bytes of the two files, exactly when a certificate and a key are
  both given, and serves in clear when either of them is missing.  Behind it the administrator of
  the arguments is the only user, with the password's hash; and whatever calls arrive, every
  session in the table is the administrator's and has the default bandwidth ceiling.
\<close>

theorem server_serves_administrator:
  assumes "lib_ok lib" "run_server g lib files secret salt args = Inr srv"
  shows "srv_addr srv = sv_addr args \<and>
    (srv_identity srv \<noteq> None \<longleftrightarrow> sv_cert args \<noteq> None \<and> sv_key args \<noteq> None) \<and>
    (\<forall>c k. srv_identity srv = Some (c, k) \<longrightarrow> files (the (sv_cert args)) = Some c \<and> files (the (sv_key args)) = Some k) \<and>
    (\<forall>u p. authenticate lib (svc_auth (srv_service srv)) u p \<longleftrightarrow> u = sv_admin_user args \<and>
      pbkdf2_hmac lib p salt PBKDF2_ITERATIONS = pbkdf2_hmac lib (sv_admin_pass args) salt PBKDF2_ITERATIONS) \<and>
    (\<forall>calls k info. get_clone (svc_sessions (fold (svc_step lib) calls (srv_service srv))) k = Some info \<longrightarrow>
      session_user info = sv_admin_user args \<and> max_bps info = sv_default_max_bps args)"
proof -
  note srv = run_server_service[OF assms(2)] and auth = server_setup_authenticates[OF assms(1) srv(1)]
  have files: "files (the (sv_cert args)) = Some c \<and> files (the (sv_key args)) = Some k"
    if "srv_identity srv = Some (c, k)" for c k
    using assms(2) that
    by (auto simp: run_server_def serve_tls_def serve_insecure_def Let_def split: option.splits if_splits)
  have new: "svc_sessions (srv_service srv) = session_manager_new (from_millis 300000)"
    "svc_policies (srv_service srv) = policy_engine_new (sv_default_max_bps args)"
    by (simp_all add: srv(1) server_setup_def)
  have "session_user info = sv_admin_user args \<and> max_bps info = sv_default_max_bps args"
    if "get_clone (svc_sessions (fold (svc_step lib) calls (srv_service srv))) k = Some info" for calls k info
    using session_from_login[OF that new(1)] unfolding auth new(2) by (auto simp: policy_engine_new_def resolve_def)
  then show ?thesis using srv(2,3) auth files by (auto split: option.splits)
qed

definition example_server_args :: server_args where
  "example_server_args = server_args_of \<lparr>gv_addr = None, gv_cert = Some [99], gv_key = None, gv_default_max_bps = None,
     gv_admin_user = None, gv_admin_pass = Some [2], env_admin_user = Some [1], env_admin_pass = Some [3]\<rparr>"

definition example_grpc :: grpc_lib where
  "example_grpc = \<lparr>tls_config_ok = (\<lambda>_ _. True), serve_ok = (\<lambda>_. True)\<rparr>"

lemma example_server_up: "\<exists>srv. run_server example_grpc example_lib Map.empty [9] salt example_server_args = Inr srv"
  by (simp add: run_server_def example_server_args_def server_args_of_def serve_insecure_def example_grpc_def Let_def)

theorem server_serves_administrator_witness:
  "\<exists>srv. run_server example_grpc example_lib Map.empty [9] [3] example_server_args = Inr srv \<and> port (srv_addr srv) = 9000 \<and>
     srv_identity srv = None \<and> authenticate example_lib (svc_auth (srv_service srv)) [1] [2] \<and>
     \<not> authenticate example_lib (svc_auth (srv_service srv)) [1] [3]"
proof -
  obtain srv where up: "run_server example_grpc example_lib Map.empty [9] [3] example_server_args = Inr srv"
    using example_server_up by blast
  have args: "sv_admin_user example_server_args = [1]" "sv_admin_pass example_server_args = [2]"
    "port (sv_addr example_server_args) = 9000" "sv_key example_server_args = None"
    by (simp_all add: example_server_args_def server_args_of_def first_given_def)
  have "pbkdf2_hmac example_lib [3] [3] n \<noteq> pbkdf2_hmac example_lib [2] [3] n" for n
    by (simp add: example_lib_def HASH_LEN_def)
  moreover have "srv_identity srv = None"
    using server_serves_administrator[OF example_lib_ok up] args(4) by blast
  ultimately show ?thesis using up server_serves_administrator[OF example_lib_ok up] args by auto
qed

end
