(* ===== verification/Common.thy ===== *)
theory Common
  imports Packer
begin

text \<open>
  The domain types and the error type of \<^verbatim>\<open>crates/common/src\<close> (\<^verbatim>\<open>types.rs\<close>, \<^verbatim>\<open>error.rs\<close>).  The types are
  newtypes around machine integers; \<open>BlockId\<close> and \<open>Timestamp\<close> derive an order, which here makes
  them instances of \<open>linorder\<close>.  Of all of them the program uses \<open>BlockId\<close> only, as the
  identifier of a block; the other theories use its number.
\<close>

section \<open>Identifiers\<close>

datatype session_ident = SessionId u32

datatype transfer_ident = TransferId "128 word"

datatype block_ident = BlockId u64

datatype timestamp = Timestamp u64

instantiation block_ident :: linorder
begin

fun less_eq_block_ident :: "block_ident \<Rightarrow> block_ident \<Rightarrow> bool" where
  "less_eq_block_ident (BlockId a) (BlockId b) \<longleftrightarrow> a \<le> b"

fun less_block_ident :: "block_ident \<Rightarrow> block_ident \<Rightarrow> bool" where
  "less_block_ident (BlockId a) (BlockId b) \<longleftrightarrow> a < b"

instance
proof
  fix x y z :: block_ident
  show "x < y \<longleftrightarrow> x \<le> y \<and> \<not> y \<le> x" by (cases x; cases y) auto
  show "x \<le> x" by (cases x) simp
  show "x \<le> y \<Longrightarrow> y \<le> z \<Longrightarrow> x \<le> z" by (cases x; cases y; cases z) auto
  show "x \<le> y \<Longrightarrow> y \<le> x \<Longrightarrow> x = y" by (cases x; cases y) auto
  show "x \<le> y \<or> y \<le> x" by (cases x; cases y) auto
qed

end

instantiation timestamp :: linorder
begin

fun less_eq_timestamp :: "timestamp \<Rightarrow> timestamp \<Rightarrow> bool" where
  "less_eq_timestamp (Timestamp a) (Timestamp b) \<longleftrightarrow> a \<le> b"

fun less_timestamp :: "timestamp \<Rightarrow> timestamp \<Rightarrow> bool" where
  "less_timestamp (Timestamp a) (Timestamp b) \<longleftrightarrow> a < b"

instance
proof
  fix x y z :: timestamp
  show "x < y \<longleftrightarrow> x \<le> y \<and> \<not> y \<le> x" by (cases x; cases y) auto
  show "x \<le> x" by (cases x) simp
  show "x \<le> y \<Longrightarrow> y \<le> z \<Longrightarrow> x \<le> z" by (cases x; cases y; cases z) auto
  show "x \<le> y \<Longrightarrow> y \<le> x \<Longrightarrow> x = y" by (cases x; cases y) auto
  show "x \<le> y \<or> y \<le> x" by (cases x; cases y) auto
qed

end

text \<open>The blocks of a transfer are numbered in increasing order of their identifiers.\<close>

lemma block_idents_increase:
  assumes "length ids < 2 ^ 64" "ids = map of_nat [0..<length ids]"
  shows "sorted_wrt (<) (map BlockId ids)"
proof -
  have "(of_nat i :: u64) < of_nat j" if "i < j" "j < length ids" for i j
    using that assms(1) by (simp add: word_less_nat_alt unat_of_nat_small)
  then have "sorted_wrt (<) (map (BlockId \<circ> of_nat) [0..<length ids])"
    by (auto simp: sorted_wrt_iff_nth_less)
  then show ?thesis using assms(2) by (metis map_map)
qed

section \<open>Errors\<close>

text \<open>An I/O error is its text.  The text of an error says which variant it is.\<close>

datatype udpix_error =
    IoFailure string
  | ProtocolFailure string
  | CryptoFailure string
  | AuthFailure string
  | TraversalFailure string

fun display_error :: "udpix_error \<Rightarrow> string" where
  "display_error (IoFailure e) = ''io: '' @ e"
| "display_error (ProtocolFailure s) = ''protocol: '' @ s"
| "display_error (CryptoFailure s) = ''crypto: '' @ s"
| "display_error (AuthFailure s) = ''auth: '' @ s"
| "display_error (TraversalFailure s) = ''traversal: '' @ s"

lemma display_error_inject: "display_error a = display_error b \<longleftrightarrow> a = b"
  by (cases a; cases b) auto

end
