(* ===== verification/Concurrent.thy ===== *)
theory Concurrent
  imports Control
begin

text \<open>
  The handlers of the control service as concurrent tasks (\<^verbatim>\<open>crates/controlplane/src/server.rs\<close> and
  \<^verbatim>\<open>session_mgr.rs\<close>).  The gRPC library runs every call on a task of its own, and the tasks share the
  service.  A handler is cut where it touches what is shared: the check of the credentials or of
  the token, the policy read under its lock, the counter of \<open>create\<close> (an atomic \<open>fetch_add\<close>, outside
  every lock), the access to the table under its lock, and the rest.  The counter and the table
  are two steps, so numbers need not follow the order in which sessions enter the table.  Each critical
  section is one step: it is short and takes no other lock, and waiting for the lock is not represented.
\<close>

section \<open>The two halves of \<open>create\<close>\<close>

definition draw_id :: "session_manager \<Rightarrow> u32 \<times> session_manager" where
  "draw_id m = (next_id m, m\<lparr>next_id := next_id m + 1\<rparr>)"

definition fresh_session :: "u32 \<Rightarrow> entropy \<Rightarrow> bytes \<Rightarrow> u64 \<Rightarrow> session_info" where
  "fresh_session i e user bps =
     \<lparr>session_uuid = new_uuid e, numeric_id = i, session_user = user, session_key = key_bytes e,
      session_nonce = nonce_bytes e, max_bps = bps, created_at = instant_now e, last_heartbeat = instant_now e\<rparr>"

definition insert_session ::
  "u32 \<Rightarrow> entropy \<Rightarrow> bytes \<Rightarrow> u64 \<Rightarrow> session_manager \<Rightarrow> session_info \<times> session_manager" where
  "insert_session i e user bps m =
     (let info = fresh_session i e user bps
      in (info, m\<lparr>sessions := fmupd (new_uuid e) (session_clone info) (sessions m)\<rparr>))"

lemma create_session_halves:
  "create_session e user bps m = (let (i, m') = draw_id m in insert_session i e user bps m')"
  by (simp add: create_session_def draw_id_def insert_session_def fresh_session_def Let_def)

lemma fresh_session_simps [simp]:
  "session_uuid (fresh_session i e user bps) = new_uuid e" "numeric_id (fresh_session i e user bps) = i"
  "session_key (fresh_session i e user bps) = key_bytes e" "session_nonce (fresh_session i e user bps) = nonce_bytes e"
  "max_bps (fresh_session i e user bps) = bps"
  by (simp_all add: fresh_session_def)

lemma new_session_simps [simp]:
  "fst (insert_session i e user bps m) = fresh_session i e user bps"
  "fst (create_session e user bps m) = fresh_session (next_id m) e user bps"
  by (simp_all add: insert_session_def create_session_def fresh_session_def Let_def)

section \<open>Handlers in stages\<close>

datatype svc_reply = AuthReply "status + auth_response" | SessionReply "status + bool"

datatype stage =
    Called
  | Checked
  | Allowed u64
  | Numbered u64 u32
  | Stored session_info
  | Replied svc_reply

fun auth_task :: "crypto_lib \<Rightarrow> entropy \<Rightarrow> u64 option \<Rightarrow> auth_request \<Rightarrow> stage \<Rightarrow> control_service \<Rightarrow>
    (stage \<times> control_service) option" where
  "auth_task lib e wall req Called s =
     Some (if authenticate lib (svc_auth s) (req_username req) (req_password req) then Checked
           else Replied (AuthReply (Inl (Unauthenticated ''invalid credentials''))), s)"
| "auth_task lib e wall req Checked s =
     Some (Allowed (policy_max_bps (resolve (svc_policies s) (req_username req))), s)"
| "auth_task lib e wall req (Allowed bps) s =
     (let (i, m) = draw_id (svc_sessions s) in Some (Numbered bps i, s\<lparr>svc_sessions := m\<rparr>))"
| "auth_task lib e wall req (Numbered bps i) s =
     (let (info, m) = insert_session i e (req_username req) bps (svc_sessions s)
      in Some (Stored info, s\<lparr>svc_sessions := m\<rparr>))"
| "auth_task lib e wall req (Stored info) s =
     Some (Replied (AuthReply
       (case issue_token lib (svc_auth s) wall (req_username req) (session_uuid info) of
          Inl err \<Rightarrow> Inl (Internal (error_text err))
        | Inr jwt \<Rightarrow> Inr \<lparr>resp_session_id = session_uuid info, resp_jwt_token = jwt,
            resp_session_key = session_key info, resp_session_nonce = session_nonce info,
            resp_max_bps = max_bps info\<rparr>)), s)"
| "auth_task lib e wall req (Replied r) s = None"

fun session_task :: "crypto_lib \<Rightarrow> u64 \<Rightarrow> session_request \<Rightarrow>
    (bytes \<Rightarrow> session_manager \<Rightarrow> bool \<times> session_manager) \<Rightarrow> stage \<Rightarrow> control_service \<Rightarrow>
    (stage \<times> control_service) option" where
  "session_task lib wall req f Called s =
     Some (case verify_token lib (svc_auth s) wall (req_jwt_token req) of
             Inl _ \<Rightarrow> Replied (SessionReply (Inl (Unauthenticated ''invalid token'')))
           | Inr _ \<Rightarrow> Checked, s)"
| "session_task lib wall req f Checked s =
     (let (ok, m) = f (req_session_id req) (svc_sessions s)
      in Some (Replied (SessionReply (Inr ok)), s\<lparr>svc_sessions := m\<rparr>))"
| "session_task lib wall req f _ s = None"

definition heartbeat_task :: "crypto_lib \<Rightarrow> u64 \<Rightarrow> instant \<Rightarrow> session_request \<Rightarrow> stage \<Rightarrow> control_service \<Rightarrow>
    (stage \<times> control_service) option" where
  "heartbeat_task lib wall now req = session_task lib wall req (heartbeat_session now)"

definition terminate_task :: "crypto_lib \<Rightarrow> u64 \<Rightarrow> session_request \<Rightarrow> stage \<Rightarrow> control_service \<Rightarrow>
    (stage \<times> control_service) option" where
  "terminate_task lib wall req = session_task lib wall req terminate_session"

fun task_step :: "crypto_lib \<Rightarrow> svc_call \<Rightarrow> stage \<Rightarrow> control_service \<Rightarrow> (stage \<times> control_service) option" where
  "task_step lib (AuthCall e wall req) = auth_task lib e wall req"
| "task_step lib (HeartbeatCall wall now req) = heartbeat_task lib wall now req"
| "task_step lib (TerminateCall wall req) = terminate_task lib wall req"

section \<open>Interleaved runs\<close>

text \<open>
  A task has its call, its stage and two times, measured in calls that took effect: when it arrived
  and when it replied.  A call takes effect when its session enters the table or, for the others,
  with its reply.  \<open>w_log\<close> is the order in which tasks took effect, \<open>w_drawn\<close> the order in which
  they drew numbers; the program has neither.
\<close>

record task =
  tk_call :: svc_call
  tk_stage :: stage
  tk_from :: nat
  tk_to :: nat

record world =
  w_svc :: control_service
  w_tasks :: "task list"
  w_log :: "nat list"
  w_drawn :: "nat list"

fun effective :: "stage \<Rightarrow> bool" where
  "effective (Stored _) = True"
| "effective (Replied _) = True"
| "effective _ = False"

fun numbering :: "stage \<Rightarrow> bool" where
  "numbering (Numbered _ _) = True"
| "numbering _ = False"

definition advance :: "nat \<Rightarrow> stage \<Rightarrow> control_service \<Rightarrow> world \<Rightarrow> world" where
  "advance t st s w =
     (let k = w_tasks w ! t;
          log = w_log w @ (if effective st \<and> \<not> effective (tk_stage k) then [t] else [])
      in \<lparr>w_svc = s, w_tasks = (w_tasks w)[t := k\<lparr>tk_stage := st, tk_to := length log\<rparr>],
          w_log = log, w_drawn = w_drawn w @ (if numbering st then [t] else [])\<rparr>)"

definition arrive :: "svc_call \<Rightarrow> world \<Rightarrow> world" where
  "arrive c w = w\<lparr>w_tasks := w_tasks w @ [\<lparr>tk_call = c, tk_stage = Called, tk_from = length (w_log w), tk_to = 0\<rparr>]\<rparr>"

inductive conc_step :: "crypto_lib \<Rightarrow> world \<Rightarrow> world \<Rightarrow> bool" for lib :: crypto_lib where
  arriving: "conc_step lib w (arrive c w)"
| running: "t < length (w_tasks w) \<Longrightarrow>
    task_step lib (tk_call (w_tasks w ! t)) (tk_stage (w_tasks w ! t)) (w_svc w) = Some (st, s) \<Longrightarrow>
    conc_step lib w (advance t st s w)"

definition world_new :: "control_service \<Rightarrow> world" where
  "world_new s = \<lparr>w_svc = s, w_tasks = [], w_log = [], w_drawn = []\<rparr>"

section \<open>The table without its numbers\<close>

definition view :: "session_manager \<Rightarrow> bytes \<rightharpoonup> session_info" where
  "view m k = map_option (\<lambda>s. s\<lparr>numeric_id := 0\<rparr>) (get_clone m k)"

lemma view_draw: "view (snd (draw_id m)) = view m"
  by (simp add: fun_eq_iff view_def draw_id_def get_clone_def)

lemma view_insert:
  "view (snd (insert_session i e user bps m)) = (view m)(new_uuid e \<mapsto> fresh_session 0 e user bps)"
  by (simp add: fun_eq_iff view_def insert_session_def fresh_session_def get_clone_def Let_def)

lemma view_create:
  "view (snd (create_session e user bps m)) = (view m)(new_uuid e \<mapsto> fresh_session 0 e user bps)"
  by (simp add: create_session_halves case_prod_unfold Let_def view_insert view_draw)

lemma view_heartbeat:
  "view (snd (heartbeat_session now u m)) = (view m)(u := map_option (\<lambda>s. s\<lparr>last_heartbeat := now\<rparr>) (view m u))"
  "fst (heartbeat_session now u m) = (view m u \<noteq> None)"
  by (auto simp: fun_eq_iff view_def heartbeat_session_def get_clone_def split: option.splits)

lemma view_terminate:
  "view (snd (terminate_session u m)) = (view m)(u := None)"
  "fst (terminate_session u m) = (view m u \<noteq> None)"
  by (auto simp: fun_eq_iff view_def terminate_session_def get_clone_def)

lemmas view_simps = view_draw view_insert view_create view_heartbeat view_terminate

text \<open>Two services that differ in numbers at most.\<close>

definition alike :: "control_service \<Rightarrow> control_service \<Rightarrow> bool" where
  "alike s s' \<longleftrightarrow> svc_auth s = svc_auth s' \<and> svc_policies s = svc_policies s' \<and>
     view (svc_sessions s) = view (svc_sessions s')"

fun reply_of :: "crypto_lib \<Rightarrow> svc_call \<Rightarrow> control_service \<Rightarrow> svc_reply" where
  "reply_of lib (AuthCall e wall req) s = AuthReply (fst (svc_authenticate lib e wall req s))"
| "reply_of lib (HeartbeatCall wall now req) s = SessionReply (fst (svc_heartbeat lib wall now req s))"
| "reply_of lib (TerminateCall wall req) s = SessionReply (fst (svc_terminate lib wall req s))"

section \<open>One step of a task beside the whole handler\<close>

text \<open>What a stage says of its call, given users \<open>a\<close> and policies \<open>p\<close>.\<close>

definition login_ok :: "crypto_lib \<Rightarrow> auth_engine \<Rightarrow> policy_engine \<Rightarrow> svc_call \<Rightarrow> u64 \<Rightarrow> bool" where
  "login_ok lib a p c bps \<longleftrightarrow> (\<exists>e wall req. c = AuthCall e wall req \<and>
     authenticate lib a (req_username req) (req_password req) \<and> bps = policy_max_bps (resolve p (req_username req)))"

fun passes :: "crypto_lib \<Rightarrow> auth_engine \<Rightarrow> svc_call \<Rightarrow> bool" where
  "passes lib a (AuthCall e wall req) = authenticate lib a (req_username req) (req_password req)"
| "passes lib a (HeartbeatCall wall now req) = (\<exists>c. verify_token lib a wall (req_jwt_token req) = Inr c)"
| "passes lib a (TerminateCall wall req) = (\<exists>c. verify_token lib a wall (req_jwt_token req) = Inr c)"

fun stage_ok :: "crypto_lib \<Rightarrow> auth_engine \<Rightarrow> policy_engine \<Rightarrow> svc_call \<Rightarrow> stage \<Rightarrow> bool" where
  "stage_ok lib a p c Called = True"
| "stage_ok lib a p c Checked = passes lib a c"
| "stage_ok lib a p c (Allowed bps) = login_ok lib a p c bps"
| "stage_ok lib a p c (Numbered bps i) = login_ok lib a p c bps"
| "stage_ok lib a p c (Stored info) = (\<exists>e wall req bps i. c = AuthCall e wall req \<and> login_ok lib a p c bps \<and>
     info = fresh_session i e (req_username req) bps)"
| "stage_ok lib a p c (Replied r) = True"

lemmas task_defs = heartbeat_task_def terminate_task_def svc_defs case_prod_unfold

lemma alike_step:
  assumes "alike s s'"
  shows "alike (svc_step lib c s) (svc_step lib c s')" "reply_of lib c s = reply_of lib c s'"
  using assms by (cases c; auto simp: alike_def svc_defs case_prod_unfold Let_def view_simps split: sum.splits)+

text \<open>
  Beside the service \<open>s1\<close> of the whole handlers: the step in which a call takes effect does to the
  service what the whole handler does, every other step does nothing, and the reply is that of
  the whole handler at the point where the call took effect.
\<close>

lemma task_step_simulates:
  assumes "task_step lib c st s = Some (st', s')" "stage_ok lib (svc_auth s1) (svc_policies s1) c st" "alike s s1"
  shows "alike s' (if effective st' \<and> \<not> effective st then svc_step lib c s1 else s1)"
    and "stage_ok lib (svc_auth s1) (svc_policies s1) c st'"
    and "st' = Replied r \<Longrightarrow> \<not> effective st \<Longrightarrow> r = reply_of lib c s1"
proof -
  have auth: "svc_auth s = svc_auth s1" "svc_policies s = svc_policies s1" "view (svc_sessions s) = view (svc_sessions s1)"
    using assms(3) by (simp_all add: alike_def)
  have "alike s' (if effective st' \<and> \<not> effective st then svc_step lib c s1 else s1) \<and>
    stage_ok lib (svc_auth s1) (svc_policies s1) c st' \<and>
    (st' = Replied r \<longrightarrow> \<not> effective st \<longrightarrow> r = reply_of lib c s1)" for r
  proof (cases c)
    case (AuthCall e wall req)
    then show ?thesis using assms(1,2) auth
      by (cases st) (auto simp: alike_def task_defs Let_def view_simps login_ok_def split: if_splits sum.splits)
  next
    case (HeartbeatCall wall now req)
    then show ?thesis using assms(1,2) auth
      by (cases st) (auto simp: alike_def task_defs Let_def view_simps login_ok_def split: if_splits sum.splits)
  next
    case (TerminateCall wall req)
    then show ?thesis using assms(1,2) auth
      by (cases st) (auto simp: alike_def task_defs Let_def view_simps login_ok_def split: if_splits sum.splits)
  qed
  then show "alike s' (if effective st' \<and> \<not> effective st then svc_step lib c s1 else s1)"
    "stage_ok lib (svc_auth s1) (svc_policies s1) c st'"
    "st' = Replied r \<Longrightarrow> \<not> effective st \<Longrightarrow> r = reply_of lib c s1" by blast+
qed

text \<open>The reply of a login depends on users, policies and the call only.\<close>

lemma stored_reply:
  assumes "task_step lib c (Stored info) s = Some (Replied r, s')" "stage_ok lib a p c (Stored info)"
    "svc_auth s = a" "svc_auth s1 = a" "svc_policies s1 = p"
  shows "r = reply_of lib c s1"
  using assms by (auto simp: task_defs Let_def login_ok_def split: sum.splits)

lemma effective_last: "effective st \<Longrightarrow> task_step lib c st s = Some (st', s') \<Longrightarrow>
    \<exists>info r. st = Stored info \<and> st' = Replied r \<and> s' = s"
  by (cases c; cases st) (auto simp: task_defs)

text \<open>No call waits for another.\<close>

lemma task_never_waits:
  assumes "stage_ok lib a p c st" "\<And>r. st \<noteq> Replied r"
  shows "\<exists>st' s'. task_step lib c st s = Some (st', s')"
  using assms by (cases c; cases st) (auto simp: task_defs login_ok_def Let_def)

section \<open>The order in which calls take effect\<close>

definition lin_calls :: "world \<Rightarrow> svc_call list" where
  "lin_calls w = map (\<lambda>t. tk_call (w_tasks w ! t)) (w_log w)"

text \<open>The service after the first \<open>n\<close> calls, handled one after the other.\<close>

definition served :: "crypto_lib \<Rightarrow> control_service \<Rightarrow> world \<Rightarrow> nat \<Rightarrow> control_service" where
  "served lib s0 w n = fold (svc_step lib) (take n (lin_calls w)) s0"

definition task_inv :: "crypto_lib \<Rightarrow> control_service \<Rightarrow> world \<Rightarrow> nat \<Rightarrow> bool" where
  "task_inv lib s0 w t \<longleftrightarrow> (let k = w_tasks w ! t in
     stage_ok lib (svc_auth s0) (svc_policies s0) (tk_call k) (tk_stage k) \<and> tk_from k \<le> length (w_log w) \<and>
     (effective (tk_stage k) \<longleftrightarrow> t \<in> set (w_log w)) \<and> (\<forall>p < length (w_log w). w_log w ! p = t \<longrightarrow> tk_from k \<le> p) \<and>
     (\<forall>r. tk_stage k = Replied r \<longrightarrow> tk_to k \<le> length (w_log w) \<and>
        (\<exists>p < tk_to k. w_log w ! p = t \<and> r = reply_of lib (tk_call k) (served lib s0 w p))))"

definition world_inv :: "crypto_lib \<Rightarrow> control_service \<Rightarrow> world \<Rightarrow> bool" where
  "world_inv lib s0 w \<longleftrightarrow> distinct (w_log w) \<and> (\<forall>t\<in>set (w_log w). t < length (w_tasks w)) \<and>
     alike (w_svc w) (served lib s0 w (length (w_log w))) \<and> (\<forall>t < length (w_tasks w). task_inv lib s0 w t)"

lemma served_auth: "svc_auth (served lib s0 w n) = svc_auth s0" "svc_policies (served lib s0 w n) = svc_policies s0"
proof -
  have "svc_policies (fold (svc_step lib) cs s) = svc_policies s" for cs s
    by (induction cs arbitrary: s) (simp_all add: svc_step_ops)
  then show "svc_auth (served lib s0 w n) = svc_auth s0" "svc_policies (served lib s0 w n) = svc_policies s0"
    by (simp_all add: served_def svc_run_ops)
qed

lemma arrive_inv:
  assumes "world_inv lib s0 w"
  shows "world_inv lib s0 (arrive c w)"
proof -
  have lin: "lin_calls (arrive c w) = lin_calls w"
    using assms by (auto simp: lin_calls_def arrive_def world_inv_def nth_append)
  then have served: "served lib s0 (arrive c w) = served lib s0 w" by (simp add: served_def fun_eq_iff)
  have "task_inv lib s0 (arrive c w) t" if "t < length (w_tasks (arrive c w))" for t
  proof (cases "t < length (w_tasks w)")
    case True
    then have "task_inv lib s0 w t" using assms by (simp add: world_inv_def)
    moreover have "w_tasks (arrive c w) ! t = w_tasks w ! t" "w_log (arrive c w) = w_log w"
      using True by (simp_all add: arrive_def nth_append)
    ultimately show ?thesis unfolding task_inv_def Let_def served by simp
  next
    case False
    then have "t = length (w_tasks w)" using that by (simp add: arrive_def)
    moreover have new: "t \<notin> set (w_log w)" using assms False by (auto simp: world_inv_def)
    moreover have "w_log w ! p \<noteq> t" if "p < length (w_log w)" for p using nth_mem[OF that] new by auto
    ultimately show ?thesis by (auto simp: task_inv_def arrive_def Let_def)
  qed
  moreover have "w_log (arrive c w) = w_log w" "w_svc (arrive c w) = w_svc w" "length (w_tasks (arrive c w)) = Suc (length (w_tasks w))"
    by (simp_all add: arrive_def)
  ultimately show ?thesis using assms by (auto simp: world_inv_def served)
qed

lemma advance_simps:
  assumes "t < length (w_tasks w)" "\<forall>t\<in>set (w_log w). t < length (w_tasks w)"
  shows "w_svc (advance t st s w) = s"
    and "length (w_tasks (advance t st s w)) = length (w_tasks w)"
    and "u \<noteq> t \<Longrightarrow> w_tasks (advance t st s w) ! u = w_tasks w ! u"
    and "w_tasks (advance t st s w) ! t = (w_tasks w ! t)\<lparr>tk_stage := st, tk_to := length (w_log (advance t st s w))\<rparr>"
    and "w_log (advance t st s w) = w_log w @ (if effective st \<and> \<not> effective (tk_stage (w_tasks w ! t)) then [t] else [])"
    and "lin_calls (advance t st s w) =
      lin_calls w @ (if effective st \<and> \<not> effective (tk_stage (w_tasks w ! t)) then [tk_call (w_tasks w ! t)] else [])"
  using assms by (auto simp: advance_def Let_def lin_calls_def nth_list_update)

lemma advance_served:
  assumes "t < length (w_tasks w)" "\<forall>t\<in>set (w_log w). t < length (w_tasks w)"
  shows "n \<le> length (w_log w) \<Longrightarrow> served lib s0 (advance t st s w) n = served lib s0 w n"
    and "served lib s0 (advance t st s w) (length (w_log (advance t st s w))) =
      (if effective st \<and> \<not> effective (tk_stage (w_tasks w ! t))
       then svc_step lib (tk_call (w_tasks w ! t)) (served lib s0 w (length (w_log w)))
       else served lib s0 w (length (w_log w)))"
  unfolding served_def advance_simps(5,6)[OF assms] by (auto simp: lin_calls_def)

lemma world_invD:
  assumes "world_inv lib s0 w"
  shows "\<forall>t\<in>set (w_log w). t < length (w_tasks w)" "distinct (w_log w)"
    "alike (w_svc w) (served lib s0 w (length (w_log w)))" "u < length (w_tasks w) \<Longrightarrow> task_inv lib s0 w u"
  using assms by (simp_all add: world_inv_def)

text \<open>A step of one task leaves what is known of the others as it is.\<close>

lemma advance_other:
  assumes "world_inv lib s0 w" "t < length (w_tasks w)" "u < length (w_tasks w)" "u \<noteq> t"
  shows "task_inv lib s0 (advance t st s w) u"
proof -
  let ?w = "advance t st s w" and ?n = "length (w_log w)" and ?k = "w_tasks w ! u"
  note adv = advance_simps[OF assms(2) world_invD(1)[OF assms(1)]]
    and srv = advance_served[OF assms(2) world_invD(1)[OF assms(1)]]
  note inv = world_invD(4)[OF assms(1,3), unfolded task_inv_def Let_def]
  have nth: "w_log ?w ! p = w_log w ! p" if "p < ?n" for p using that by (simp add: adv(5) nth_append)
  have le: "?n \<le> length (w_log ?w)" by (simp add: adv(5))
  have mem: "u \<in> set (w_log ?w) \<longleftrightarrow> u \<in> set (w_log w)" using assms(4) by (simp add: adv(5))
  have pos: "tk_from ?k \<le> p" if "p < length (w_log ?w)" "w_log ?w ! p = u" for p
    using that inv assms(4) by (cases "p < ?n") (auto simp: adv(5) nth_append split: if_splits)
  have "tk_to ?k \<le> length (w_log ?w) \<and>
      (\<exists>p < tk_to ?k. w_log ?w ! p = u \<and> r = reply_of lib (tk_call ?k) (served lib s0 ?w p))"
    if r: "tk_stage ?k = Replied r" for r
  proof -
    obtain p where p: "p < tk_to ?k" "w_log w ! p = u" "tk_to ?k \<le> ?n"
      "r = reply_of lib (tk_call ?k) (served lib s0 w p)" using inv r by blast
    then show ?thesis using nth[of p] srv(1)[of p] le by (intro conjI exI[of _ p]) simp_all
  qed
  then show ?thesis using inv le mem pos unfolding task_inv_def Let_def adv(3)[OF assms(4)] by simp
qed

text \<open>The reply of a task is that of its place in the order: its own, or the one it took when it stored its session.\<close>

lemma advance_reply:
  assumes "world_inv lib s0 w" "t < length (w_tasks w)"
    "task_step lib (tk_call (w_tasks w ! t)) (tk_stage (w_tasks w ! t)) (w_svc w) = Some (Replied r, s)"
  defines "w' \<equiv> advance t (Replied r) s w"
  shows "\<exists>p < length (w_log w'). w_log w' ! p = t \<and> r = reply_of lib (tk_call (w_tasks w ! t)) (served lib s0 w' p)"
proof -
  let ?k = "w_tasks w ! t" and ?n = "length (w_log w)"
  note adv = advance_simps(5)[OF assms(2) world_invD(1)[OF assms(1)], of "Replied r" s, folded w'_def]
    and srv = advance_served(1)[OF assms(2) world_invD(1)[OF assms(1)], where st = "Replied r" and s = s, folded w'_def]
    and al = world_invD(3)[OF assms(1)]
  note own = world_invD(4)[OF assms(1,2), unfolded task_inv_def Let_def]
  have ok: "stage_ok lib (svc_auth (served lib s0 w ?n)) (svc_policies (served lib s0 w ?n)) (tk_call ?k) (tk_stage ?k)"
    using own by (simp add: served_auth)
  show ?thesis
  proof (cases "effective (tk_stage ?k)")
    case True
    then obtain info where st: "tk_stage ?k = Stored info" using effective_last[OF _ assms(3)] by blast
    obtain p where p: "p < ?n" "w_log w ! p = t" using True own by (auto simp: in_set_conv_nth)
    have "r = reply_of lib (tk_call ?k) (served lib s0 w p)"
      using assms(3) ok al st by (intro stored_reply[of lib _ info "w_svc w" r s "svc_auth s0" "svc_policies s0"])
        (simp_all add: served_auth alike_def)
    then show ?thesis using p True srv[of p] by (intro exI[of _ p]) (simp add: adv)
  next
    case False
    then show ?thesis using task_step_simulates(3)[OF assms(3) ok al refl] srv[of ?n]
      by (intro exI[of _ ?n]) (simp add: adv)
  qed
qed

lemma advance_inv:
  assumes "world_inv lib s0 w" "t < length (w_tasks w)"
    "task_step lib (tk_call (w_tasks w ! t)) (tk_stage (w_tasks w ! t)) (w_svc w) = Some (st, s)"
  shows "world_inv lib s0 (advance t st s w)"
proof -
  let ?k = "w_tasks w ! t" and ?w = "advance t st s w" and ?n = "length (w_log w)"
  note inv = world_invD[OF assms(1)]
  note adv = advance_simps[OF assms(2) inv(1)] and srv = advance_served[OF assms(2) inv(1)]
  note own = inv(4)[OF assms(2), unfolded task_inv_def Let_def]
  have "stage_ok lib (svc_auth (served lib s0 w ?n)) (svc_policies (served lib s0 w ?n)) (tk_call ?k) (tk_stage ?k)"
    using own by (simp add: served_auth)
  note sim = task_step_simulates[OF assms(3) this inv(3)]
  have eff: "effective st \<longleftrightarrow> t \<in> set (w_log ?w)"
  proof (cases "effective (tk_stage ?k)")
    case True
    then show ?thesis using effective_last[OF True assms(3)] own by (auto simp: adv(5))
  qed (use own in \<open>simp add: adv(5)\<close>)
  have "task_inv lib s0 ?w u" if u: "u < length (w_tasks w)" for u
  proof (cases "u = t")
    case True
    have "tk_from ?k \<le> p" if "p < length (w_log ?w)" "w_log ?w ! p = t" for p
      using that own by (cases "p < ?n") (auto simp: adv(5) nth_append split: if_splits)
    moreover have "stage_ok lib (svc_auth s0) (svc_policies s0) (tk_call ?k) st" using sim(2) by (simp add: served_auth)
    moreover have "tk_from ?k \<le> length (w_log ?w)" using own by (simp add: adv(5))
    moreover have "\<exists>p < length (w_log ?w). w_log ?w ! p = t \<and> r = reply_of lib (tk_call ?k) (served lib s0 ?w p)"
      if "st = Replied r" for r using advance_reply[OF assms(1,2)] assms(3) that by blast
    ultimately show ?thesis using eff unfolding task_inv_def Let_def True adv(4) by simp
  qed (rule advance_other[OF assms(1,2) u])
  moreover have "distinct (w_log ?w)" using inv(2) own by (auto simp: adv(5))
  moreover have "alike (w_svc ?w) (served lib s0 ?w (length (w_log ?w)))" using sim(1) unfolding adv(1) srv(2) .
  moreover have "\<forall>u\<in>set (w_log ?w). u < length (w_tasks w)" using inv(1) assms(2) by (auto simp: adv(5))
  ultimately show ?thesis unfolding world_inv_def adv(2) by blast
qed

section \<open>Numbers stay distinct\<close>

fun early :: "stage \<Rightarrow> bool" where
  "early Called = True"
| "early Checked = True"
| "early (Allowed _) = True"
| "early _ = False"

lemma early_not_numbering: "early st \<Longrightarrow> \<not> numbering st"
  by (cases st) simp_all

text \<open>The number of the session of a task is one more than the position of the task in \<open>w_drawn\<close>.\<close>

definition owns :: "world \<Rightarrow> nat \<Rightarrow> u32 \<Rightarrow> bool" where
  "owns w t i \<longleftrightarrow> (\<exists>j < length (w_drawn w). w_drawn w ! j = t \<and> i = of_nat (j + 1))"

definition num_inv :: "world \<Rightarrow> bool" where
  "num_inv w \<longleftrightarrow> distinct (w_drawn w) \<and> next_id (svc_sessions (w_svc w)) = of_nat (length (w_drawn w) + 1) \<and>
     (\<forall>t\<in>set (w_drawn w). t < length (w_tasks w)) \<and>
     (\<forall>t < length (w_tasks w). early (tk_stage (w_tasks w ! t)) \<longrightarrow> t \<notin> set (w_drawn w)) \<and>
     (\<forall>t < length (w_tasks w). \<forall>bps i. tk_stage (w_tasks w ! t) = Numbered bps i \<longrightarrow> owns w t i) \<and>
     (\<forall>k x. get_clone (svc_sessions (w_svc w)) k = Some x \<longrightarrow> (\<exists>t < length (w_tasks w). owns w t (numeric_id x) \<and>
        (\<exists>e wall req. tk_call (w_tasks w ! t) = AuthCall e wall req \<and> new_uuid e = k)))"

lemma task_step_table:
  assumes "task_step lib c st s = Some (st', s')"
  shows "numbering st' \<Longrightarrow> \<exists>bps. st = Allowed bps \<and> st' = Numbered bps (next_id (svc_sessions s))"
    and "next_id (svc_sessions s') = next_id (svc_sessions s) + (if numbering st' then 1 else 0)"
    and "early st' \<Longrightarrow> early st"
    and "get_clone (svc_sessions s') k = Some x \<Longrightarrow>
      (\<exists>y. get_clone (svc_sessions s) k = Some y \<and> numeric_id x = numeric_id y) \<or>
      (\<exists>e wall req bps i. c = AuthCall e wall req \<and> st = Numbered bps i \<and> k = new_uuid e \<and> numeric_id x = i)"
  using assms
  by (cases c; cases st; auto simp: task_defs draw_id_def insert_session_def manager_defs Let_def
      split: if_splits sum.splits option.splits)+

lemma owns_advance: "owns w u i \<Longrightarrow> owns (advance t st s w) u i"
  by (auto simp: owns_def advance_def Let_def nth_append intro: less_SucI)

lemma arrive_num:
  assumes "num_inv w"
  shows "num_inv (arrive c w)"
proof -
  have owns: "owns (arrive c w) = owns w" by (simp add: owns_def arrive_def fun_eq_iff)
  have old: "w_tasks (arrive c w) ! t = w_tasks w ! t" if "t < length (w_tasks w)" for t
    using that by (simp add: arrive_def nth_append)
  have new: "tk_stage (w_tasks (arrive c w) ! length (w_tasks w)) = Called" "length (w_tasks w) \<notin> set (w_drawn w)"
    using assms by (auto simp: arrive_def num_inv_def)
  have simps: "w_drawn (arrive c w) = w_drawn w" "w_svc (arrive c w) = w_svc w" "length (w_tasks (arrive c w)) = Suc (length (w_tasks w))"
    by (simp_all add: arrive_def)
  show ?thesis unfolding num_inv_def simps owns
  proof (intro conjI)
    show "\<forall>k x. get_clone (svc_sessions (w_svc w)) k = Some x \<longrightarrow> (\<exists>t < Suc (length (w_tasks w)). owns w t (numeric_id x) \<and>
        (\<exists>e wall req. tk_call (w_tasks (arrive c w) ! t) = AuthCall e wall req \<and> new_uuid e = k))"
      using assms old unfolding num_inv_def by (metis less_SucI)
  qed (use assms old new in \<open>auto simp: num_inv_def less_Suc_eq\<close>)
qed

lemma advance_num:
  assumes "num_inv w" "t < length (w_tasks w)"
    "task_step lib (tk_call (w_tasks w ! t)) (tk_stage (w_tasks w ! t)) (w_svc w) = Some (st, s)"
  shows "num_inv (advance t st s w)"
proof -
  let ?w = "advance t st s w" and ?k = "w_tasks w ! t"
  note tab = task_step_table[OF assms(3)]
  have drawn: "w_drawn ?w = w_drawn w @ (if numbering st then [t] else [])" by (simp add: advance_def Let_def)
  have tasks: "length (w_tasks ?w) = length (w_tasks w)" "tk_stage (w_tasks ?w ! t) = st" "w_svc ?w = s"
    "\<And>u. tk_call (w_tasks ?w ! u) = tk_call (w_tasks w ! u)" "\<And>u. u \<noteq> t \<Longrightarrow> tk_stage (w_tasks ?w ! u) = tk_stage (w_tasks w ! u)"
    using assms(2) by (auto simp: advance_def Let_def nth_list_update)
  have fresh: "t \<notin> set (w_drawn w)" if "numbering st" using tab(1)[OF that] assms(1,2) by (auto simp: num_inv_def)
  have "owns ?w u i" if u: "u < length (w_tasks w)" "tk_stage (w_tasks ?w ! u) = Numbered bps i" for u bps i
  proof (cases "u = t")
    case True
    then have st: "st = Numbered bps i" using u(2) tasks(2) by simp
    then have "i = of_nat (length (w_drawn w) + 1)" using tab(1) assms(1) by (simp add: num_inv_def)
    then show ?thesis using st True drawn unfolding owns_def by (intro exI[of _ "length (w_drawn w)"]) simp
  next
    case False
    then show ?thesis using u tasks(5) assms(1) by (intro owns_advance) (auto simp: num_inv_def)
  qed
  moreover have "u \<notin> set (w_drawn ?w)" if "u < length (w_tasks w)" "early (tk_stage (w_tasks ?w ! u))" for u
    using that tasks(2,5) tab(3) assms(1) by (cases "u = t") (auto simp: drawn num_inv_def dest: early_not_numbering)
  moreover have "\<exists>u < length (w_tasks w). owns ?w u (numeric_id x) \<and>
      (\<exists>e wall req. tk_call (w_tasks w ! u) = AuthCall e wall req \<and> new_uuid e = k)"
    if x: "get_clone (svc_sessions s) k = Some x" for k x
    using tab(4)[OF x]
  proof (elim disjE exE conjE)
    fix y assume "get_clone (svc_sessions (w_svc w)) k = Some y" "numeric_id x = numeric_id y"
    then show ?thesis using assms(1) owns_advance unfolding num_inv_def by metis
  next
    fix e wall req bps i
    assume a: "tk_call ?k = AuthCall e wall req" "tk_stage ?k = Numbered bps i" "k = new_uuid e" "numeric_id x = i"
    then have "owns w t i" using assms(1,2) by (auto simp: num_inv_def)
    then show ?thesis using a assms(2) owns_advance by blast
  qed
  moreover have "next_id (svc_sessions s) = of_nat (length (w_drawn ?w) + 1)"
    using tab(2) assms(1) by (simp add: drawn num_inv_def)
  moreover have "distinct (w_drawn ?w)" "\<forall>u\<in>set (w_drawn ?w). u < length (w_tasks w)"
    using assms(1,2) fresh by (auto simp: drawn num_inv_def)
  ultimately show ?thesis unfolding num_inv_def tasks(1,3,4) by blast
qed

section \<open>Concurrent calls\<close>

lemma conc_reachable_inv:
  assumes "(conc_step lib)\<^sup>*\<^sup>* (world_new s0) w" "svc_sessions s0 = session_manager_new ttl"
  shows "world_inv lib s0 w" "num_inv w"
proof -
  have "world_inv lib s0 w \<and> num_inv w" using assms(1)
  proof (induction rule: rtranclp_induct)
    case base
    have "get_clone (session_manager_new ttl) k = None" for k by (simp add: get_clone_def session_manager_new_def)
    then show ?case using assms(2)
      by (auto simp: world_inv_def num_inv_def world_new_def served_def alike_def session_manager_new_def)
  next
    case (step w w')
    from step.hyps(2) step.IH show ?case by cases (auto intro: arrive_inv arrive_num advance_inv advance_num)
  qed
  then show "world_inv lib s0 w" "num_inv w" by blast+
qed

lemma numbers_distinct:
  assumes "num_inv w" "length (w_drawn w) < 2 ^ 32" "get_clone (svc_sessions (w_svc w)) k = Some x"
    "get_clone (svc_sessions (w_svc w)) k' = Some x'" "numeric_id x = numeric_id x'"
  shows "k = k'"
proof -
  obtain t e wall req where t: "owns w t (numeric_id x)" "tk_call (w_tasks w ! t) = AuthCall e wall req" "new_uuid e = k"
    using assms(1,3) unfolding num_inv_def by blast
  obtain t' e' wall' req' where t': "owns w t' (numeric_id x')" "tk_call (w_tasks w ! t') = AuthCall e' wall' req'" "new_uuid e' = k'"
    using assms(1,4) unfolding num_inv_def by blast
  obtain j j' where j: "j < length (w_drawn w)" "w_drawn w ! j = t" "j' < length (w_drawn w)" "w_drawn w ! j' = t'"
    "(of_nat (j + 1) :: u32) = of_nat (j' + 1)"
    using t(1) t'(1) assms(5) by (auto simp: owns_def)
  have "unat (of_nat (i + 1) :: u32) = i + 1" if "i < length (w_drawn w)" for i
    using that assms(2) by (intro unat_of_nat_small) simp
  then have "j = j'" using j(1,3,5) by (metis add_right_cancel)
  then show ?thesis using j t t' by simp
qed

text \<open>
  C11: concurrent calls take effect one at a time.  Let any number of calls run interleaved, each
  handler stopping wherever another task may get in between.  There is one order of the calls
  such that the session table is, up to the numbers in it, the table after these calls handled
  one after the other, and every reply that was given is the reply of that handling; in this order
  a call stands after all calls that had taken effect when it arrived and before all calls that
  took effect after its reply.  The numbers of the sessions in the table are distinct while fewer
  than \<open>2 ^ 32\<close> were drawn, although numbers are drawn outside the lock.  A call that was not yet
  answered can always take its next step; a critical section is one step here, so the time a task
  waits for a lock is not represented.
\<close>

theorem concurrent_calls_linearise:
  assumes "(conc_step lib)\<^sup>*\<^sup>* (world_new s0) w" "svc_sessions s0 = session_manager_new ttl"
  shows "distinct (w_log w) \<and> (\<forall>t\<in>set (w_log w). t < length (w_tasks w)) \<and>
    view (svc_sessions (w_svc w)) = view (svc_sessions (fold (svc_step lib) (lin_calls w) s0)) \<and>
    (\<forall>t < length (w_tasks w). \<forall>r. tk_stage (w_tasks w ! t) = Replied r \<longrightarrow>
      (\<exists>p. tk_from (w_tasks w ! t) \<le> p \<and> p < tk_to (w_tasks w ! t) \<and> tk_to (w_tasks w ! t) \<le> length (w_log w) \<and>
        w_log w ! p = t \<and> r = reply_of lib (tk_call (w_tasks w ! t)) (fold (svc_step lib) (take p (lin_calls w)) s0))) \<and>
    (\<forall>k k' x x'. length (w_drawn w) < 2 ^ 32 \<longrightarrow> get_clone (svc_sessions (w_svc w)) k = Some x \<longrightarrow>
      get_clone (svc_sessions (w_svc w)) k' = Some x' \<longrightarrow> numeric_id x = numeric_id x' \<longrightarrow> k = k') \<and>
    (\<forall>t < length (w_tasks w). (\<forall>r. tk_stage (w_tasks w ! t) \<noteq> Replied r) \<longrightarrow>
      (\<exists>st s. task_step lib (tk_call (w_tasks w ! t)) (tk_stage (w_tasks w ! t)) (w_svc w) = Some (st, s)))"
proof -
  note inv = conc_reachable_inv[OF assms]
  have len: "length (lin_calls w) = length (w_log w)" by (simp add: lin_calls_def)
  have "view (svc_sessions (w_svc w)) = view (svc_sessions (fold (svc_step lib) (lin_calls w) s0))"
    using inv(1) len by (simp add: world_inv_def served_def alike_def)
  moreover have "\<exists>p. tk_from (w_tasks w ! t) \<le> p \<and> p < tk_to (w_tasks w ! t) \<and> tk_to (w_tasks w ! t) \<le> length (w_log w) \<and>
      w_log w ! p = t \<and> r = reply_of lib (tk_call (w_tasks w ! t)) (fold (svc_step lib) (take p (lin_calls w)) s0)"
    if "t < length (w_tasks w)" "tk_stage (w_tasks w ! t) = Replied r" for t r
    using inv(1) that unfolding world_inv_def task_inv_def served_def Let_def by (meson order_less_le_trans)
  moreover have "\<exists>st s. task_step lib (tk_call (w_tasks w ! t)) (tk_stage (w_tasks w ! t)) (w_svc w) = Some (st, s)"
    if "t < length (w_tasks w)" "\<And>r. tk_stage (w_tasks w ! t) \<noteq> Replied r" for t
    using inv(1) that task_never_waits unfolding world_inv_def task_inv_def Let_def by blast
  ultimately show ?thesis using inv(1) numbers_distinct[OF inv(2)] unfolding world_inv_def by blast
qed

text \<open>
  Two logins; the first draws number 1, the second number 2, and the second enters the table first.
\<close>

definition example_entropy' :: entropy where
  "example_entropy' = \<lparr>key_bytes = [15], nonce_bytes = [16], new_uuid = [17], instant_now = 11\<rparr>"

fun run_tasks :: "crypto_lib \<Rightarrow> nat list \<Rightarrow> world \<Rightarrow> world" where
  "run_tasks lib [] w = w"
| "run_tasks lib (t # ts) w =
     (case task_step lib (tk_call (w_tasks w ! t)) (tk_stage (w_tasks w ! t)) (w_svc w) of
        Some (st, s) \<Rightarrow> run_tasks lib ts (advance t st s w)
      | None \<Rightarrow> run_tasks lib ts w)"

lemma run_tasks_steps:
  "\<forall>t\<in>set ts. t < length (w_tasks w) \<Longrightarrow> (conc_step lib)\<^sup>*\<^sup>* w (run_tasks lib ts w)"
proof (induction ts arbitrary: w)
  case (Cons t ts)
  show ?case
  proof (cases "task_step lib (tk_call (w_tasks w ! t)) (tk_stage (w_tasks w ! t)) (w_svc w)")
    case (Some x)
    obtain st s where x: "x = (st, s)" by fastforce
    have "conc_step lib w (advance t st s w)" using Cons.prems Some x by (intro conc_step.running) auto
    moreover have "\<forall>u\<in>set ts. u < length (w_tasks (advance t st s w))" using Cons.prems by (simp add: advance_def Let_def)
    ultimately show ?thesis using Cons.IH Some x by (auto intro: converse_rtranclp_into_rtranclp)
  qed (use Cons in simp)
qed simp

definition example_world :: world where
  "example_world = run_tasks example_lib [0, 0, 0, 1, 1, 1, 1, 1, 0]
     (arrive (AuthCall example_entropy' (Some 100) example_login)
       (arrive (AuthCall example_entropy (Some 100) example_login) (world_new example_service)))"

theorem concurrent_calls_linearise_witness:
  "w_log example_world = [1, 0] \<and>
   map_option numeric_id (get_clone (svc_sessions (w_svc example_world)) [7]) = Some 1 \<and>
   map_option numeric_id (get_clone (svc_sessions (w_svc example_world)) [17]) = Some 2 \<and>
   view (svc_sessions (w_svc example_world)) = view (svc_sessions (fold (svc_step example_lib)
     [AuthCall example_entropy' (Some 100) example_login, AuthCall example_entropy (Some 100) example_login] example_service))"
proof -
  have auth: "authenticate example_lib (svc_auth example_service) [1] [2]" by (rule example_authenticates)
  have s: "svc_sessions example_service = session_manager_new (from_millis 300000)"
    by (simp add: example_service_def server_setup_def)
  let ?w = "arrive (AuthCall example_entropy' (Some 100) example_login)
       (arrive (AuthCall example_entropy (Some 100) example_login) (world_new example_service))"
  have "(conc_step example_lib)\<^sup>*\<^sup>* (world_new example_service) ?w"
    by (meson conc_step.arriving rtranclp.rtrancl_into_rtrancl rtranclp.rtrancl_refl)
  also have "(conc_step example_lib)\<^sup>*\<^sup>* ?w example_world" unfolding example_world_def
    by (rule run_tasks_steps) (simp add: arrive_def world_new_def)
  finally have reach: "(conc_step example_lib)\<^sup>*\<^sup>* (world_new example_service) example_world" .
  have w: "w_log example_world = [1, 0]" "lin_calls example_world =
      [AuthCall example_entropy' (Some 100) example_login, AuthCall example_entropy (Some 100) example_login]"
    "map_option numeric_id (get_clone (svc_sessions (w_svc example_world)) [7]) = Some 1"
    "map_option numeric_id (get_clone (svc_sessions (w_svc example_world)) [17]) = Some 2"
    by (simp_all add: example_world_def arrive_def world_new_def advance_def lin_calls_def auth s draw_id_def
        insert_session_def get_clone_def session_manager_new_def example_entropy_def example_entropy'_def
        example_login_def Let_def)
  then show ?thesis using concurrent_calls_linearise[OF reach s] by simp
qed

end
