(* ===== verification/NatMode.thy ===== *)
theory NatMode
  imports Rudp Completion
begin

text \<open>
  NAT-traversal mode from disk to disk over any network: the storage reader, the sender task, a
  network that loses, repeats and reorders, the receiver task, the storage writer and the writer
  thread, one behind the other.  The receiver passes on every payload that arrives, repetitions
  included and in the order of arrival, and the writer takes each of them for a block.
\<close>

section \<open>Blocks in any order\<close>

text \<open>The files of a payload that is taken for a block.\<close>

definition block_files :: "bytes \<Rightarrow> (path \<times> bytes) list" where
  "block_files d = (case unpack \<lparr>blk_id = 0, blk_data = d\<rparr> of Return (Inr fs) \<Rightarrow> fs | _ \<Rightarrow> [])"

lemma slice_entries_small:
  "slice_entries buf start es = Return (Inr xs) \<Longrightarrow> \<forall>(e, d)\<in>set xs. length d \<le> length buf"
proof (induction es arbitrary: xs)
  case (Cons e es)
  then show ?case by (fastforce simp: Let_def slice_def split: if_splits outcome.splits sum.splits)
qed simp

lemma unpack_entries_small: "unpack_entries b = Return (Inr xs) \<Longrightarrow> (e, d) \<in> set xs \<Longrightarrow> length d \<le> length (blk_data b)"
  using slice_entries_small by (fastforce simp: unpack_entries_def split: sum.splits)

lemma map_eq_mapD:
  assumes "map f as = map g bs" "b \<in> set bs"
  shows "\<exists>a\<in>set as. f a = g b"
proof -
  have "f ` set as = g ` set bs" using assms(1) by (metis list.set_map)
  then show ?thesis using assms(2) by (metis imageE imageI)
qed

text \<open>When every block fits into a datagram no file was split.\<close>

lemma small_blocks_whole_files:
  assumes "\<forall>f\<in>set files. file_ok f" "length files < 2 ^ 32"
    "\<forall>b\<in>set (pack_files files). length (blk_data b) \<le> MAX_PAYLOAD"
  shows "\<forall>f\<in>set files. file_parts f = [(fst f, 0, 1, snd f)]"
proof -
  obtain xs where xs: "map unpack_entries (pack_files files) = map (\<lambda>x. Return (Inr x)) xs"
    "map piece_of (concat xs) = concat (map file_parts files)"
    using pack_files_entries[OF assms(1,2)] unfolding blocks_read_def by metis
  have small: "length d \<le> MAX_PAYLOAD" if ed: "(e, d) \<in> set (concat xs)" for e d
  proof -
    obtain x where x: "x \<in> set xs" "(e, d) \<in> set x" using ed by auto
    then obtain b where "b \<in> set (pack_files files)" "unpack_entries b = Return (Inr x)"
      using map_eq_mapD[OF xs(1)] by blast
    then show ?thesis using unpack_entries_small[of b x e d] x(2) assms(3) by fastforce
  qed
  have "file_parts (p, b) = [(p, 0, 1, b)]" if f: "(p, b) \<in> set files" for p b
  proof (cases "BLOCK_SIZE < length b")
    case True
    then have "chunks BLOCK_SIZE b = take BLOCK_SIZE b # chunks BLOCK_SIZE (drop BLOCK_SIZE b)"
      by (intro chunks_step) (auto simp: BLOCK_SIZE_def)
    then have "(p, 0, length (chunks BLOCK_SIZE b), take BLOCK_SIZE b) \<in> set (file_parts (p, b))"
      using True by (simp add: file_parts_def)
    then have "(p, 0, length (chunks BLOCK_SIZE b), take BLOCK_SIZE b) \<in> piece_of ` set (concat xs)"
      using f unfolding set_map[symmetric] xs(2) by auto
    then obtain e where "(e, take BLOCK_SIZE b) \<in> set (concat xs)" by (auto simp: piece_of_def)
    then have "BLOCK_SIZE \<le> MAX_PAYLOAD" using small[of e "take BLOCK_SIZE b"] True by simp
    then show ?thesis by (simp add: BLOCK_SIZE_def MAX_PAYLOAD_def)
  qed (simp add: file_parts_def)
  then show ?thesis by auto
qed

text \<open>The blocks share out the files.\<close>

lemma block_files_share:
  assumes "\<forall>f\<in>set files. file_ok f" "length files < 2 ^ 32"
    "\<forall>b\<in>set (pack_files files). length (blk_data b) \<le> MAX_PAYLOAD"
  shows "concat (map (block_files \<circ> blk_data) (pack_files files)) = files"
    and "b \<in> set (pack_files files) \<Longrightarrow> \<exists>x. unpack_entries \<lparr>blk_id = 0, blk_data = blk_data b\<rparr> = Return (Inr x) \<and>
      map piece_of x = concat (map file_parts (block_files (blk_data b)))"
proof -
  obtain xs where xs: "map unpack_entries (pack_files files) = map (\<lambda>x. Return (Inr x)) xs"
    "map piece_of (concat xs) = concat (map file_parts files)"
    using pack_files_entries[OF assms(1,2)] unfolding blocks_read_def by metis
  define h where "h = (\<lambda>(e :: file_entry, d :: bytes). (f_path e, d))"
  have bf: "block_files (blk_data b) = map h x" if "unpack_entries b = Return (Inr x)" for b x
    using that unpack_entries_id[of 0 b] by (simp add: block_files_def unpack_def h_def)
  have "map (block_files \<circ> blk_data) bs = map (map h) ys" if "map unpack_entries bs = map (\<lambda>x. Return (Inr x)) ys" for bs ys
    using that by (induction bs arbitrary: ys) (auto simp: bf Cons_eq_map_conv map_eq_Cons_conv)
  from this[OF xs(1)] have cat: "concat (map (block_files \<circ> blk_data) (pack_files files)) = map h (concat xs)"
    by (simp add: map_concat)
  note parts = small_blocks_whole_files[OF assms]
  then have "concat (map file_parts files) = map (\<lambda>(p, b). (p, 0, 1, b)) files" by (induction files) auto
  then have whole: "map piece_of (concat xs) = map (\<lambda>(p, b). (p, 0, 1, b)) files" using xs(2) by simp
  have "map h (concat xs) = map (\<lambda>(p, i, n, d). (p, d)) (map piece_of (concat xs))"
    by (auto simp: h_def piece_of_def)
  also have "\<dots> = files" unfolding whole by (induction files) auto
  finally have h: "map h (concat xs) = files" .
  then show files: "concat (map (block_files \<circ> blk_data) (pack_files files)) = files" using cat by simp
  assume b: "b \<in> set (pack_files files)"
  then obtain x where x: "x \<in> set xs" "unpack_entries b = Return (Inr x)"
    using map_eq_mapD[OF xs(1)[symmetric]] by metis
  have "piece_of ed = (fst (h ed), 0, 1, snd (h ed)) \<and> file_parts (h ed) = [piece_of ed]" if ed: "ed \<in> set x" for ed
  proof -
    have "piece_of ed \<in> set (map piece_of (concat xs))" using ed x(1) by auto
    then have p: "piece_of ed = (fst (h ed), 0, 1, snd (h ed))" unfolding whole by (auto simp: h_def piece_of_def split: prod.splits)
    have "h ed \<in> set files" using ed x(1) unfolding h[symmetric] by auto
    then show ?thesis using p parts by simp
  qed
  then have "map piece_of x = concat (map file_parts (map h x))" by (induction x) auto
  then show "\<exists>x. unpack_entries \<lparr>blk_id = 0, blk_data = blk_data b\<rparr> = Return (Inr x) \<and>
      map piece_of x = concat (map file_parts (block_files (blk_data b)))"
    using bf[OF x(2)] x(2) by (intro exI[of _ x]) (simp add: unpack_entries_id)
qed

lemma block_files_sub:
  assumes "\<forall>f\<in>set files. file_ok f" "length files < 2 ^ 32"
    "\<forall>b\<in>set (pack_files files). length (blk_data b) \<le> MAX_PAYLOAD" "b \<in> set (pack_files files)"
  shows "set (block_files (blk_data b)) \<subseteq> set files" "length (block_files (blk_data b)) \<le> length files"
proof -
  obtain bs cs where "pack_files files = bs @ b # cs" using assms(4) by (auto simp: in_set_conv_decomp)
  then have "concat (map (block_files \<circ> blk_data) bs) @ block_files (blk_data b) @ concat (map (block_files \<circ> blk_data) cs) = files"
    using block_files_share(1)[OF assms(1-3)] by simp
  from arg_cong[OF this, of set] arg_cong[OF this, of length]
  show "set (block_files (blk_data b)) \<subseteq> set files" "length (block_files (blk_data b)) \<le> length files" by auto
qed

text \<open>The writer on any sequence of the blocks.\<close>

lemma receive_any_order:
  assumes "\<forall>f\<in>set files. file_ok f" "length files < 2 ^ 32"
    "\<forall>b\<in>set (pack_files files). length (blk_data b) \<le> MAX_PAYLOAD"
    "set ds \<subseteq> blk_data ` set (pack_files files)" "env_ok env" "\<forall>p\<in>set final. poll_ok p"
    "length ds * length files \<le> length final"
  shows "receive_files env final ds =
    Some (Return (Inr (map (\<lambda>(p, b). (join (output_dir env) p, b)) (concat (map block_files ds)))))"
proof -
  define X where "X d = (case unpack_entries \<lparr>blk_id = 0, blk_data = d\<rparr> of Return (Inr x) \<Rightarrow> x | _ \<Rightarrow> [])" for d
  define fs where "fs = concat (map block_files ds)"
  have X: "unpack_entries \<lparr>blk_id = 0, blk_data = d\<rparr> = Return (Inr (X d))"
    "map piece_of (X d) = concat (map file_parts (block_files d))" if "d \<in> set ds" for d
  proof -
    obtain b where b: "b \<in> set (pack_files files)" "d = blk_data b" using assms(4) \<open>d \<in> set ds\<close> by blast
    from block_files_share(2)[OF assms(1-3) b(1)] obtain x where
      "unpack_entries \<lparr>blk_id = 0, blk_data = blk_data b\<rparr> = Return (Inr x)"
      "map piece_of x = concat (map file_parts (block_files (blk_data b)))" by blast
    then show "unpack_entries \<lparr>blk_id = 0, blk_data = d\<rparr> = Return (Inr (X d))"
      "map piece_of (X d) = concat (map file_parts (block_files d))" by (simp_all add: X_def b(2))
  qed
  have sub: "set (block_files d) \<subseteq> set files \<and> length (block_files d) \<le> length files" if "d \<in> set ds" for d
    using assms(4) that block_files_sub[OF assms(1-3)] by auto
  have "map unpack_entries (map (\<lambda>d. \<lparr>blk_id = 0, blk_data = d\<rparr>) ds) = map (\<lambda>x. Return (Inr x)) (map X ds)"
    using X(1) by simp
  note flat = store_blocks_flat[OF this, of env 0 writer_start]
  have "map piece_of (concat (map X ds)) = concat (map file_parts fs)"
    unfolding fs_def using X(2) by (induction ds) auto
  moreover have "\<forall>f\<in>set fs. file_ok f" using sub assms(1) by (auto simp: fs_def)
  ultimately obtain k st where st: "store_entries env 0 (concat (map X ds)) writer_start = Inr (k, st)" "stored_all env fs writer_start st"
    using store_files[OF assms(5), of fs "concat (map X ds)" writer_start 0] by (auto simp: writer_start_def)
  have "length fs \<le> length ds * length files" unfolding fs_def using sub
  proof (induction ds)
    case (Cons d ds)
    then have "length (block_files d) \<le> length files" "length (concat (map block_files ds)) \<le> length ds * length files" by auto
    then show ?case by simp
  qed simp
  then have "drain final (w_in_flight st) = Some (Inr ())"
    using st(2) assms(6,7) by (intro drain_ok) (auto simp: stored_all_def writer_start_def)
  then show ?thesis using flat st
    by (simp add: receive_files_def receive_and_write_def stored_all_def writer_start_def fs_def comp_def)
qed

section \<open>What is on the disk\<close>

lemma fold_writes: "fold (\<lambda>(p, b) d. d(p \<mapsto> b)) ws disk p = (case map_of (rev ws) p of Some b \<Rightarrow> Some b | None \<Rightarrow> disk p)"
proof (induction ws arbitrary: disk)
  case (Cons w ws)
  then show ?case by (cases w) (auto simp: map_add_def split: option.splits)
qed simp

lemma join_relative_inj:
  assumes "join d p = join d q" "p \<noteq> [] \<and> hd p \<noteq> 47" "q \<noteq> [] \<and> hd q \<noteq> 47"
  shows "p = q"
  using assms by (auto simp: join_def split: if_splits)

lemma written_disk:
  fixes out :: path and disk :: "path \<rightharpoonup> bytes"
  assumes "set ws \<subseteq> set files" "distinct (map fst files)" "\<forall>(p, b)\<in>set files. p \<noteq> [] \<and> hd p \<noteq> 47"
  defines "disk' \<equiv> fold (\<lambda>(p, b) d. d(p \<mapsto> b)) (map (\<lambda>(p, b). (join out p, b)) ws) disk"
  shows "(p, b) \<in> set ws \<Longrightarrow> disk' (join out p) = Some b"
    and "disk' q \<noteq> disk q \<Longrightarrow> \<exists>(p, b)\<in>set ws. q = join out p \<and> disk' q = Some b"
proof -
  let ?ws = "map (\<lambda>(p, b). (join out p, b)) ws"
  have get: "disk' q = (case map_of (rev ?ws) q of Some b \<Rightarrow> Some b | None \<Rightarrow> disk q)" for q
    unfolding disk'_def by (rule fold_writes)
  have mem: "\<exists>p. (p, b) \<in> set ws \<and> q = join out p" if "map_of (rev ?ws) q = Some b" for q b
    using map_of_SomeD[OF that] by auto
  show "\<exists>(p, b)\<in>set ws. q = join out p \<and> disk' q = Some b" if q: "disk' q \<noteq> disk q"
  proof -
    obtain b where b: "map_of (rev ?ws) q = Some b" using q get[of q] by (auto split: option.splits)
    then have "disk' q = Some b" using get[of q] by simp
    then show ?thesis using mem[OF b] by blast
  qed
  assume w: "(p, b) \<in> set ws"
  then have "(join out p, b) \<in> set (rev ?ws)" by auto
  then obtain b' where b': "map_of (rev ?ws) (join out p) = Some b'" using weak_map_of_SomeI by fast
  then obtain p' where p': "(p', b') \<in> set ws" "join out p = join out p'" using mem by blast
  have in_files: "(p, b) \<in> set files" "(p', b') \<in> set files" using w p'(1) assms(1) by blast+
  then have "p \<noteq> [] \<and> hd p \<noteq> 47" "p' \<noteq> [] \<and> hd p' \<noteq> 47" using assms(3) by blast+
  then have "p = p'" using p'(2) join_relative_inj by blast
  then have "b = b'" using in_files eq_key_imp_eq_value[OF assms(2)] by blast
  then show "disk' (join out p) = Some b" using b' get by simp
qed

text \<open>
  C13: NAT-traversal mode over any network.  A readable directory whose blocks fit into single
  datagrams is sent, and the sender task, the receiver task and the network interleave in any way,
  with any losses, repetitions and reorderings, whether or not SACKs reach the sender.  Whenever the receiver ends, the command succeeds
  and every path on the disk of the receiver either is what it was or holds exactly the bytes of
  the file of that name: what arrives twice, late or in another order does no harm.  If every
  payload arrived at least once, all files of the tree are there.
\<close>

theorem rudp_over_any_network:
  assumes "tree_ok es" "\<forall>p. progress (k p)" "\<forall>(p, b)\<in>set (tree_files root_dir es). fs p = Some (length b, b)"
    "\<forall>f\<in>set (tree_files [] es). file_ok f" "all_submitted (length (tree_files [] es))"
    "distinct (map fst (tree_files [] es))"
    "\<forall>b\<in>set (pack_files (tree_files [] es)). length (blk_data b) \<le> MAX_PAYLOAD"
    "run_rudp_send k fs True now_us root_dir (Directory es) = Some (Inr (cmds, fins))"
    "net_reachable wired sid w" "length (n_hist w) + 1025 < 2 ^ 64" "n_hist w = command_chunks cmds" "deliveries acts = n_delivered w"
    "env_ok env" "\<forall>p\<in>set final. poll_ok p" "length (n_delivered w) * length (tree_files [] es) \<le> length final"
    "\<forall>p. progress (kw p)"
  shows "\<exists>writes results disk'. run_rudp_receive env final acts False = Some (Return (Inr writes)) \<and>
    io_uring_write_loop (\<lambda>_. Opened) kw (map Some writes @ [None]) disk = Some (results, disk') \<and>
    (\<forall>q. disk' q \<noteq> disk q \<longrightarrow> (\<exists>(p, b)\<in>set (tree_files [] es). q = join (output_dir env) p \<and> disk' q = Some b)) \<and>
    (set (n_hist w) \<subseteq> set (n_delivered w) \<longrightarrow>
      (\<forall>(p, b)\<in>set (tree_files [] es). disk' (join (output_dir env) p) = Some b))"
proof -
  let ?files = "tree_files [] es" and ?blocks = "pack_files (tree_files [] es)"
  have n: "length ?files < 2 ^ 32" by (rule all_submitted_small[OF assms(5)])
  have "send_directory k fs True root_dir (Directory es) = Some (Inr (map SendChunk (map blk_data ?blocks) @ [Shutdown]))"
    by (rule send_directory_ok[OF assms(1-3,5)])
  then have "cmds = map SendChunk (map blk_data ?blocks) @ [Shutdown]" using assms(8) by (simp add: run_rudp_send_def)
  then have "n_hist w = concat (map (chunks MAX_PAYLOAD) (map blk_data ?blocks))" using assms(11) by (simp add: comp_def)
  also have "\<dots> = map blk_data ?blocks"
    using pack_files_sealed[OF assms(4) n] assms(7) by (intro small_blocks_whole) blast
  finally have hist: "n_hist w = map blk_data ?blocks" .
  have sent: "set (n_delivered w) \<subseteq> blk_data ` set ?blocks"
    using net_delivered_sent[OF net_reachable_ok[OF assms(9)] assms(10)] by (simp add: hist)
  define ws where "ws = concat (map block_files (n_delivered w))"
  define writes where "writes = map (\<lambda>(p, b). (join (output_dir env) p, b)) ws"
  have "receive_files env final (deliveries acts) = Some (Return (Inr writes))"
    unfolding assms(12) writes_def ws_def using assms(15) by (intro receive_any_order[OF assms(4) n assms(7) sent assms(13,14)])
  then have run: "run_rudp_receive env final acts False = Some (Return (Inr writes))"
    by (simp add: run_rudp_receive_def join_receiver_def)
  have ws: "set ws \<subseteq> set ?files" using sent block_files_sub(1)[OF assms(4) n assms(7)] by (fastforce simp: ws_def)
  have rel: "\<forall>(p, b)\<in>set ?files. p \<noteq> [] \<and> hd p \<noteq> 47" using tree_files_relative[OF assms(1), of "[]"] by fastforce
  have all: "set ws = set ?files" if "set (n_hist w) \<subseteq> set (n_delivered w)"
  proof -
    have "set (n_delivered w) = blk_data ` set ?blocks" using that sent by (auto simp: hist)
    then have "set ws = set (concat (map (block_files \<circ> blk_data) ?blocks))" by (simp add: ws_def)
    then show ?thesis unfolding block_files_share(1)[OF assms(4) n assms(7)] .
  qed
  note disk = written_disk[OF ws assms(6) rel, where out = "output_dir env" and disk = disk]
  show ?thesis
  proof (intro exI conjI allI impI)
    show "io_uring_write_loop (\<lambda>_. Opened) kw (map Some writes @ [None]) disk =
        Some (map (\<lambda>(p, b). Completed p True) writes, fold (\<lambda>(p, b) d. d(p \<mapsto> b)) writes disk)"
      using write_thread_ok[of "\<lambda>_. Opened" kw writes disk] assms(16) by simp
  next
    fix q assume "fold (\<lambda>(p, b) d. d(p \<mapsto> b)) writes disk q \<noteq> disk q"
    then show "\<exists>(p, b)\<in>set ?files. q = join (output_dir env) p \<and> fold (\<lambda>(p, b) d. d(p \<mapsto> b)) writes disk q = Some b"
      using disk(2)[of q] ws unfolding writes_def by blast
  next
    assume "set (n_hist w) \<subseteq> set (n_delivered w)"
    then show "\<forall>(p, b)\<in>set ?files. fold (\<lambda>(p, b) d. d(p \<mapsto> b)) writes disk (join (output_dir env) p) = Some b"
      using disk(1) all unfolding writes_def by blast
  qed (rule run)
qed

text \<open>Any bytes can be carried: there is a run in which they are sent and all of them arrive.\<close>

lemma protocol_path_reachable:
  assumes "protocol_path sid w w'" "net_reachable True sid w"
  shows "net_reachable True sid w'"
  using assms unfolding protocol_path_def
  by (induction rule: rtranclp_induct) (auto intro: net_reachable.step)

lemma net_carries:
  assumes "length (chunks MAX_PAYLOAD d) + 1025 < 2 ^ 64"
  shows "\<exists>w. net_reachable True sid w \<and> n_hist w = chunks MAX_PAYLOAD d \<and> set (n_hist w) \<subseteq> set (n_delivered w)"
proof -
  let ?w = "net_new sid 0 0 stats_new stats_new" and ?ev = "CommandEvent (SendChunk d)"
  have rd: "enumerates (key_order example_readings)" "kernel_ok (kernel example_readings)"
    by (simp_all add: example_readings_def enumerates_sorted kernel_ok_send_all)
  have inv: "sender_inv sid [] [] (fst (n_sender ?w))"
    using net_sender_inv(1)[OF net_ok_new, of sid 0 0 stats_new stats_new] by (simp add: net_new_def)
  obtain s' sd' sent where it: "run_iteration example_readings ?ev (n_sender ?w) =
      Return (s', sd', sent, sd' \<and> in_flight s' = Map.empty)"
    using run_iteration_inv[OF inv rd, of ?ev] assms by auto
  define w where "w = sender_moves ?ev (s', sd') (\<not> (sd' \<and> in_flight s' = Map.empty)) [] sent ?w"
  have "net_step True sid (Sending ?ev) ?w w"
    unfolding w_def using rd it by (intro net_step.sending) (simp_all add: net_new_def)
  then have reach: "net_reachable True sid w" by (rule net_reachable.step[OF net_reachable.start])
  have w: "n_hist w = chunks MAX_PAYLOAD d" "n_going w" by (simp_all add: w_def sender_moves_def net_new_def)
  have ok: "net_ok sid w" using reach by (rule net_reachable_ok)
  obtain w' where w': "protocol_path sid w w'" "completed w'"
    using completes_reachable[OF _ ok _ w(2)] stopped_completed[OF ok] assms w(1) protocol_path_refl by metis
  then show ?thesis using protocol_path_reachable[OF w'(1) reach] protocol_path_keeps[OF w'(1) ok] w(1)
    by (intro exI[of _ w']) (simp add: completed_def)
qed

theorem rudp_over_any_network_witness:
  "let es = [([97], RegFile [1, 2])];
       env = \<lparr>output_dir = [111], mkdir_ok = (\<lambda>_. True), thread_open = True, polls = (\<lambda>_. [])\<rparr> in
   \<exists>w final writes results disk'. net_reachable True 7 w \<and> n_hist w = map blk_data (pack_files (tree_files [] es)) \<and>
     run_rudp_receive env final (map Deliver (n_delivered w)) False = Some (Return (Inr writes)) \<and>
     io_uring_write_loop (\<lambda>_. Opened) (\<lambda>_ _ n. int n) (map Some writes @ [None]) Map.empty = Some (results, disk') \<and>
     disk' [111, 47, 97] = Some [1, 2]"
proof -
  let ?es = "[([97], RegFile [1, 2])]" and ?fs = "[[115, 47, 97] \<mapsto> (2, [1, 2])]"
  let ?env = "\<lparr>output_dir = [111], mkdir_ok = (\<lambda>_. True), thread_open = True, polls = (\<lambda>_. [])\<rparr>"
  let ?k = "\<lambda>(_ :: path) (_ :: nat) n. int n"
  have files: "tree_files [] ?es = [([97], [1, 2])]" "tree_files [115] ?es = [([115, 47, 97], [1, 2])]"
    by (simp_all add: join_def)
  have u: "to_string_lossy [97] = [97]" by (simp add: to_string_lossy_valid from_utf8_ascii)
  obtain d where d: "map blk_data (pack_files [([97], [1, 2])]) = [d]" "d \<noteq> []" "length d \<le> MAX_PAYLOAD"
    by (simp add: pack_files_def pack_file_def flush_def serialise_block_def entry_bytes_def u BLOCK_SIZE_def
        MAX_PAYLOAD_def Let_def)
  have tree: "tree_ok ?es" by (simp add: name_ok_def)
  have hyps: "\<forall>p. progress (?k p)" "\<forall>(p, b)\<in>set (tree_files [115] ?es). ?fs p = Some (length b, b)"
    "\<forall>f\<in>set (tree_files [] ?es). file_ok f" "all_submitted (length (tree_files [] ?es))" "distinct (map fst (tree_files [] ?es))"
    "env_ok ?env" unfolding files
    by (simp_all add: progress_def env_ok_def file_ok_def path_ok_def from_utf8_ascii all_submitted_def reader_capacity_def)
  have small: "\<forall>b\<in>set (pack_files (tree_files [] ?es)). length (blk_data b) \<le> MAX_PAYLOAD"
    using d(1,3) unfolding files by auto
  have "send_directory ?k ?fs True [115] (Directory ?es) = Some (Inr (map SendChunk [d] @ [Shutdown]))"
    using send_directory_ok[OF tree hyps(1,2,4)] unfolding files d(1) .
  then have send: "run_rudp_send ?k ?fs True 4 [115] (Directory ?es) = Some (Inr (map SendChunk [d] @ [Shutdown], rudp_fins 4))"
    by (simp add: run_rudp_send_def)
  have one: "chunks MAX_PAYLOAD d = [d]" using d(2,3) by (rule chunks_whole)
  then obtain w where w: "net_reachable True 7 w" "n_hist w = [d]" "set (n_hist w) \<subseteq> set (n_delivered w)"
    using net_carries[of d 7] by auto
  define final where "final = replicate (length (n_delivered w)) (Completed [] True)"
  have polls: "\<forall>p\<in>set final. poll_ok p" "length (n_delivered w) * length (tree_files [] ?es) \<le> length final"
    unfolding files by (auto simp: final_def poll_ok_def)
  have dv: "deliveries (map Deliver ps) = ps" for ps by (induction ps) (simp_all add: deliveries_def)
  have hist: "n_hist w = command_chunks (map SendChunk [d] @ [Shutdown])" "length (n_hist w) + 1025 < 2 ^ 64"
    using w(2) one by simp_all
  have "\<exists>writes results disk'. run_rudp_receive ?env final (map Deliver (n_delivered w)) False = Some (Return (Inr writes)) \<and>
    io_uring_write_loop (\<lambda>_. Opened) ?k (map Some writes @ [None]) Map.empty = Some (results, disk') \<and>
    (\<forall>(p, b)\<in>set (tree_files [] ?es). disk' (join (output_dir ?env) p) = Some b)"
    using rudp_over_any_network[OF tree hyps(1-5) small send w(1) hist(2,1) dv hyps(6) polls hyps(1), of Map.empty] w(3) by blast
  then show ?thesis unfolding Let_def files d(1) using w(1,2) by (force simp: join_def)
qed

end
