(* ===== verification/Tests.thy ===== *)
theory Tests
  imports Prelude
begin

text \<open>
  What the theories \<open>ProtocolTests\<close>, \<open>StorageTests\<close>, \<open>ControlTests\<close> and \<open>TraversalTests\<close> share.  They hold
  the unit tests of the repository, run on the model: a \<^verbatim>\<open>#[test]\<close> function is a definition with the
  calls of the test in their order and its assertions as the result, and a lemma shows that the
  model passes it.  What a test gets from a clock, a random generator or the operating system is
  an argument, and the lemma holds for all values a test can meet.
\<close>

named_theorems test_defs

text \<open>A string literal of the source, in ASCII.\<close>

definition lit :: "string \<Rightarrow> bytes" where
  "lit s = map of_char s"

lemma length_lit [simp]: "length (lit s) = length s"
  by (simp add: lit_def)

end
