(* ===== verification/ProtocolTests.thy ===== *)
theory ProtocolTests
  imports Receiver Sender Tests
begin

text \<open>
  The unit tests of \<^verbatim>\<open>crates/protocol/src\<close>.  Channels and sockets that a test only needs to construct
  a task do not appear.
\<close>

section \<open>\<^verbatim>\<open>packet.rs\<close>\<close>

definition test_header_round_trip :: bool where
  [test_defs]: "test_header_round_trip =
     (let orig = new_data 0xDEADBEEF 42 1000000 1400 in
      case write_to orig (replicate (HEADER_SIZE + 4) 0) of
        Panic \<Rightarrow> False
      | Return buf \<Rightarrow>
          (case read_from buf of
             None \<Rightarrow> False
           | Some parsed \<Rightarrow>
               get_session_id parsed = 0xDEADBEEF \<and> get_sequence_number parsed = 42 \<and>
               get_timestamp_us parsed = 1000000 \<and> get_payload_len parsed = 1400 \<and>
               is_data parsed \<and> \<not> is_nak parsed))"

definition test_header_size_is_29 :: bool where
  [test_defs]: "test_header_size_is_29 = (HEADER_SIZE = 29)"

definition test_nak_flag_roundtrip :: bool where
  [test_defs]: "test_nak_flag_roundtrip =
     (let h = new_heartbeat_sack 1 7 500 137 in is_nak h \<and> \<not> is_data h \<and> \<not> is_ping h)"

section \<open>\<^verbatim>\<open>sack.rs\<close>\<close>

definition test_mark_and_query :: bool where
  [test_defs]: "test_mark_and_query =
     (let p = sack_default\<lparr>base_seq := 100\<rparr>; p = mark_received p 100; p = mark_received p 102
      in is_received p 100 \<and> \<not> is_received p 101 \<and> is_received p 102)"

definition test_advance_base_shifts_window :: bool where
  [test_defs]: "test_advance_base_shifts_window =
     (let p = sack_default\<lparr>base_seq := 0\<rparr>; p = mark_received p 0; p = mark_received p 2; p = advance_base p 1
      in base_seq p = 1 \<and> \<not> is_received p 1 \<and> is_received p 2)"

definition test_serialise_roundtrip :: bool where
  [test_defs]: "test_serialise_roundtrip =
     (let p = sack_default\<lparr>base_seq := 500\<rparr>; p = mark_received p 500; p = mark_received p 502 in
      case serialise p [] of
        Panic \<Rightarrow> False
      | Return buf \<Rightarrow>
          (case deserialise buf of
             Return (Some (p2, consumed)) \<Rightarrow>
               consumed = length buf \<and> base_seq p2 = 500 \<and>
               is_received p2 500 \<and> \<not> is_received p2 501 \<and> is_received p2 502
           | _ \<Rightarrow> False))"

definition test_missing_seqs_finds_gaps :: bool where
  [test_defs]: "test_missing_seqs_finds_gaps =
     (let p = sack_default\<lparr>base_seq := 10\<rparr>; p = mark_received p 10; p = mark_received p 12;
          missing = take 3 (missing_seqs p)
      in missing ! 0 = 11 \<and> missing ! 1 = 13)"

text \<open>One round of the adaptation test: three of four packets arrive, then the heartbeat.\<close>

fun adapt_rounds :: "u64 list \<Rightarrow> sack_manager \<Rightarrow> sack_manager option" where
  "adapt_rounds [] mgr = Some mgr"
| "adapt_rounds (r # rounds) mgr =
     (case receive_all mgr (map (\<lambda>i. r * 40 + i) (filter (\<lambda>i. i mod 4 \<noteq> 3) (map of_nat [0..<40]))) of
        None \<Rightarrow> None
      | Some mgr' \<Rightarrow> adapt_rounds rounds (snd (tick mgr')))"

definition test_sack_manager_adapts_interval :: bool where
  [test_defs]: "test_sack_manager_adapts_interval =
     (case adapt_rounds (map of_nat [0..<8]) (manager_new 0) of
        None \<Rightarrow> False
      | Some mgr \<Rightarrow> heartbeat_interval mgr = from_millis 1)"

section \<open>\<^verbatim>\<open>session.rs\<close>\<close>

definition test_rtt_bootstrap :: bool where
  [test_defs]: "test_rtt_bootstrap =
     (srtt_us stats_new = 0 \<and>
      (let stats = update_rtt stats_new 20000 in srtt_us stats = 20000 \<and> rttvar_us stats = 10000))"

definition test_rto_clamps_to_minimum :: bool where
  [test_defs]: "test_rto_clamps_to_minimum = (rto stats_new = from_millis 200)"

definition test_loss_rate_no_acks :: bool where
  [test_defs]: "test_loss_rate_no_acks =
     (let stats = stats_new\<lparr>packets_sent := 100, packets_acked := 74\<rparr>
      in \<bar>f64_sub (loss_rate stats) (rnd (26 / 100))\<bar> < rnd (1 / 1000))"

section \<open>\<^verbatim>\<open>congestion.rs\<close>\<close>

definition test_token_bucket_gates_on_empty :: "instant \<Rightarrow> bool" where
  [test_defs]: "test_token_bucket_gates_on_empty now =
     (let tb = (bucket_new now 1000000)\<lparr>tokens := 0\<rparr> in \<not> fst (try_consume tb 1400))"

definition test_token_bucket_allows_when_full :: "instant \<Rightarrow> instant \<Rightarrow> bool" where
  [test_defs]: "test_token_bucket_allows_when_full now later =
     (let tb = bucket_new now 1000000000; tb = refill later tb in fst (try_consume tb 1400))"

definition test_token_bucket_set_rate_does_not_overflow :: "instant \<Rightarrow> bool" where
  [test_defs]: "test_token_bucket_set_rate_does_not_overflow now =
     (let tb = (bucket_new now 100000000)\<lparr>tokens := 5000\<rparr>; tb = set_rate tb 100000000
      in tokens tb \<le> f64_of_nat (unat (capacity_bytes tb)))"

definition test_profiler_starts_at_10mbps :: "instant \<Rightarrow> bool" where
  [test_defs]: "test_profiler_starts_at_10mbps now = (current_rate_bps (profiler_new now) = 10000000)"

text \<open>The loop of the throttling test; its end without a transition is a failure.\<close>

fun throttle_rounds :: "nat \<Rightarrow> (nat \<Rightarrow> instant) \<Rightarrow> profiler \<Rightarrow> bool" where
  "throttle_rounds 0 now p = False"
| "throttle_rounds (Suc n) now p =
     (let (r, p') = on_bytes_acked (now n) (on_bytes_sent p 20000) 1000 in
      if r = Some FLOOR_RATE_BPS then phase p' = Throttling else throttle_rounds n now p')"

definition test_profiler_throttles_on_high_loss :: "instant \<Rightarrow> (nat \<Rightarrow> instant) \<Rightarrow> bool" where
  [test_defs]: "test_profiler_throttles_on_high_loss start now = throttle_rounds 50 now (profiler_new start)"

section \<open>\<^verbatim>\<open>sender.rs\<close> and \<^verbatim>\<open>receiver.rs\<close>\<close>

definition test_handle_pong_updates_stats :: "u64 \<Rightarrow> u64 \<Rightarrow> bool" where
  [test_defs]: "test_handle_pong_updates_stats now later =
     (let sent_ts = (if now < 10000 then 0 else now - 10000);
          srtt = srtt_us (handle_pong later stats_new sent_ts)
      in 9000 \<le> srtt \<and> srtt \<le> 50000)"

definition test_enqueue_splits_large_payload :: "instant \<Rightarrow> instant \<Rightarrow> (nat \<Rightarrow> u64) \<Rightarrow> (nat \<Rightarrow> instant) \<Rightarrow> bool" where
  [test_defs]: "test_enqueue_splits_large_payload now now' us t =
     (let s = enqueue_data us t (replicate (3 * MAX_PAYLOAD) 0xAB) (sender_new now now' 1 stats_new)
      in card (dom (in_flight s)) = 3)"

definition test_recv_buffer_pool_slot_isolation :: bool where
  [test_defs]: "test_recv_buffer_pool_slot_isolation =
     (case slot_mut pool_new 0 [0xAA] of
        Panic \<Rightarrow> False
      | Return st \<Rightarrow>
          (case slot_mut st 1 [0xBB] of
             Panic \<Rightarrow> False
           | Return st \<Rightarrow> slot st 0 1 = Return [0xAA] \<and> slot st 1 1 = Return [0xBB]))"

definition test_process_data_packet_updates_sack :: "u64 \<Rightarrow> u64 \<Rightarrow> bool" where
  [test_defs]: "test_process_data_packet_updates_sack now later =
     (let dat = [0xDE, 0xAD, 0xBE, 0xEF]; hdr = new_data 42 0 now (of_nat (length dat)) in
      case write_to hdr (replicate (HEADER_SIZE + length dat) 0) of
        Panic \<Rightarrow> False
      | Return buf \<Rightarrow>
          (case process_datagram later (receiver_new 42 0 stats_new) (take HEADER_SIZE buf @ dat) of
             Some (Return (result, rx, _)) \<Rightarrow> result = Some False \<and> is_received (payload (sack_mgr rx)) 0
           | _ \<Rightarrow> False))"

definition test_fin_returns_true :: "u64 \<Rightarrow> u64 \<Rightarrow> bool" where
  [test_defs]: "test_fin_returns_true now later =
     (case write_to (new_fin 7 99 now) (replicate HEADER_SIZE 0) of
        Panic \<Rightarrow> False
      | Return buf \<Rightarrow>
          (case process_datagram later (receiver_new 7 0 stats_new) buf of
             Some (Return (result, _, _)) \<Rightarrow> result = Some True
           | _ \<Rightarrow> False))"

section \<open>The model passes the tests\<close>

lemma header_tests_pass: "test_header_round_trip \<and> test_header_size_is_29 \<and> test_nak_flag_roundtrip"
  by code_simp

lemma bitmap_tests_pass: "test_mark_and_query \<and> test_advance_base_shifts_window \<and> test_serialise_roundtrip"
  by code_simp

lemma missing_test_passes: test_missing_seqs_finds_gaps
proof -
  have "[0..<4] = [0, 1, 2, 3]" by (simp add: upt_rec)
  then obtain rest where "[0..<1024] = [0, 1, 2, 3] @ rest" using upt_add_eq_append[of 0 4 1020] by simp
  then show ?thesis
    by (simp add: test_defs missing_seqs_def sack_default_def mark_received_def SACK_WINDOW_def SACK_WORDS_def
        List.map_filter_simps Let_def)
qed

lemma session_tests_pass: "test_rtt_bootstrap \<and> test_rto_clamps_to_minimum \<and> test_loss_rate_no_acks"
proof -
  have test_rtt_bootstrap test_loss_rate_no_acks by code_simp+
  moreover have test_rto_clamps_to_minimum
    by (simp add: test_defs rto_def stats_new_def saturating_add_def clamp_def)
  ultimately show ?thesis by blast
qed

lemma bucket_tests_pass:
  "test_token_bucket_gates_on_empty now \<and> test_token_bucket_allows_when_full now later \<and>
   test_token_bucket_set_rate_does_not_overflow now"
proof -
  have r: "f64_of_nat 1000000000 = 1000000000" "rnd 125000000 = 125000000" "rnd 125000 = 125000" "rnd 3000 = 3000"
    using f64_of_nat_exact[of 1000000000] rnd_of_nat[of 125000000] rnd_of_nat[of 125000] rnd_of_nat[of 3000] by simp_all
  define x where "x = f64_mul 125000000 (as_secs_f64 (duration_since later now))"
  have "0 \<le> x" by (simp add: x_def f64_ops rnd_nonneg as_secs_f64_nonneg)
  then have "rnd 3000 \<le> rnd (125000 + x)" by (intro rnd_mono) simp
  then have "test_token_bucket_allows_when_full now later"
    using f64_of_nat_exact[of 1400] f64_of_nat_exact[of 3000] r
    by (simp add: test_defs bucket_new_def refill_def try_consume_def Let_def f64_div_def f64_add_def flip: x_def)
  then show ?thesis by (simp add: test_defs try_consume_def set_rate_def Let_def bucket_new_def)
qed

lemma profiler_starts_test_passes: "test_profiler_starts_at_10mbps now"
  by code_simp

lemma pong_test_passes:
  assumes "10000 \<le> unat now" "unat now \<le> unat later" "unat later \<le> unat now + 40000"
  shows "test_handle_pong_updates_stats now later"
proof -
  define sent where "sent = now - 10000"
  have sent: "unat sent = unat now - 10000" "\<not> now < 10000"
    using assms(1) by (simp_all add: sent_def unat_sub word_le_nat_alt word_less_nat_alt)
  then have le: "sent \<le> later" using assms(2) by (simp add: word_le_nat_alt)
  then have rtt: "unat (later - sent) = unat later - unat sent" by (rule unat_sub)
  have "srtt_us (handle_pong later stats_new sent) = later - sent"
    using le by (simp add: handle_pong_def update_rtt_def stats_new_def Let_def)
  then show ?thesis using rtt sent assms unfolding test_defs Let_def sent_def[symmetric]
    by (simp add: word_le_nat_alt) linarith
qed

lemma pool_test_passes: test_recv_buffer_pool_slot_isolation
  by (simp add: test_defs slot_mut_def slot_def pool_new_def POOL_SIZE_def RECV_BATCH_def BUF_SIZE_def slice_def Let_def)

lemma fin_test_passes: "test_fin_returns_true now later"
proof -
  have "sack_wf (payload (sack_mgr (receiver_new 7 0 stats_new)))"
    using manager_inv_new[of 0] by (simp add: receiver_new_def manager_inv_def)
  from send_heartbeat_sack_eq[OF this] show ?thesis
    using write_to_full[of "new_fin 7 99 now" "[]"] hdr.dec_enc[of "new_fin 7 99 now" "[]"]
    by (simp add: test_defs process_datagram_def receiver_new_def)
qed

lemma data_test_passes: "test_process_data_packet_updates_sack now later"
proof -
  let ?h = "new_data 42 0 now 4" and ?dat = "[0xDE, 0xAD, 0xBE, 0xEF] :: bytes"
  have buf: "write_to ?h (replicate (HEADER_SIZE + 4) 0) = Return (header_bytes ?h @ replicate 4 0)"
    using write_to_full[of ?h "replicate 4 0"] by (simp add: replicate_add)
  have "sack_wf (payload (manager_new 0))" using manager_inv_new[of 0] by (simp add: manager_inv_def)
  from on_packet_received_window[OF this, of 0] obtain m where
    m: "on_packet_received (manager_new 0) 0 = Some m" "is_received (payload m) 0" by (auto simp: manager_new_def)
  have rx: "sack_mgr (receiver_new 42 0 stats_new) = manager_new 0" "r_session_id (receiver_new 42 0 stats_new) = 42"
    by (simp_all add: receiver_new_def)
  have "\<exists>rx acts. process_datagram later (receiver_new 42 0 stats_new) (header_bytes ?h @ ?dat) =
      Some (Return (Some False, rx, acts)) \<and> sack_mgr rx = m"
    using m(1) rx by (simp add: process_datagram_def process_data_def hdr.dec_enc HEADER_SIZE_def Let_def)
  moreover have "length ?dat = 4" by simp
  ultimately show ?thesis using m(2) unfolding test_defs Let_def by (auto simp only: of_nat_numeral buf) auto
qed

lemma enqueue_test_passes: "test_enqueue_splits_large_payload now now' us t"
proof -
  let ?x = "replicate 1443 (0xAB :: u8)"
  have "replicate (3 * 1443) (0xAB :: u8) = ?x @ ?x @ ?x" unfolding replicate_add[symmetric] by simp
  then have "chunks 1443 (replicate (3 * 1443) (0xAB :: u8)) = [?x, ?x, ?x]" by (simp only:) (simp add: chunks_step)
  then show ?thesis
    by (simp add: test_defs enqueue_data_def MAX_PAYLOAD_def sender_new_def Let_def)
qed

subsection \<open>Adaptation to loss\<close>

text \<open>Rounding respects bounds with few binary digits.\<close>

lemma representable_dyadic:
  assumes "n \<le> 2 ^ 53" "k \<le> 1074"
  shows "representable (of_nat n / 2 ^ k)"
  using assms by (intro representableI[of _ "int n" "- int k"]) (simp_all add: power_int_minus divide_inverse)

lemma rnd_ge_dyadic: "of_nat n / 2 ^ k \<le> x \<Longrightarrow> n \<le> 2 ^ 53 \<Longrightarrow> k \<le> 1074 \<Longrightarrow> of_nat n / 2 ^ k \<le> rnd x"
  using rnd_mono[of "of_nat n / 2 ^ k" x] rnd_exact[OF representable_dyadic] by simp

lemma rnd_le_dyadic: "x \<le> of_nat n / 2 ^ k \<Longrightarrow> n \<le> 2 ^ 53 \<Longrightarrow> k \<le> 1074 \<Longrightarrow> rnd x \<le> of_nat n / 2 ^ k"
  using rnd_mono[of x "of_nat n / 2 ^ k"] rnd_exact[OF representable_dyadic] by simp

text \<open>One twentieth arrives: the loss estimate exceeds the threshold after the second round.\<close>

lemma heavy_loss_round:
  assumes "unat (step_bytes_sent p + 20000) = 20 * n" "unat (step_bytes_acked p + 1000) = n" "0 < n" "n < 2 ^ 32"
    "phase p = Probing i"
  defines "ema \<equiv> f64_add (f64_mul (rnd (80 / 100)) (prof_loss_ema p)) (f64_mul (rnd (20 / 100)) (f64_sub 1 (rnd (1 / 20))))"
  defines "p' \<equiv> p\<lparr>step_bytes_sent := step_bytes_sent p + 20000, step_bytes_acked := step_bytes_acked p + 1000, prof_loss_ema := ema\<rparr>"
  shows "on_bytes_acked t (on_bytes_sent p 20000) 1000 =
    (if rnd (30 / 100) < ema then (Some FLOOR_RATE_BPS, reset_step_counters t (p'\<lparr>phase := Throttling\<rparr>)) else (None, p'))"
proof -
  have "f64_of_nat (20 * n) = 20 * of_nat n" "f64_of_nat n = of_nat n"
    using assms(4) f64_of_nat_exact[of "20 * n"] f64_of_nat_exact[of n] by simp_all
  then have q: "f64_div (f64_of_nat n) (f64_of_nat (20 * n)) = rnd (1 / 20)" using assms(3) by (simp add: f64_div_def)
  have "rnd (1 / 20) \<le> 1" by (rule rnd_le_one) simp
  moreover have "0 < step_bytes_sent p + 20000" using assms(1,3) by (simp add: word_less_nat_alt)
  ultimately show ?thesis
    by (simp add: on_bytes_acked_def on_bytes_sent_def enter_throttle_def step_goodput_def assms(1,2,5) q
        THROTTLE_LOSS_THRESHOLD_def ema_def p'_def Let_def)
qed

lemma throttle_test_passes: "test_profiler_throttles_on_high_loss start now"
proof -
  define L where "L = f64_mul (rnd (20 / 100)) (f64_sub 1 (rnd (1 / 20)))"
  define E where "E = f64_add (f64_mul (rnd (80 / 100)) 0) L"
  have w: "rnd (1 / 20) \<le> 1 / 16" "3 / 16 \<le> rnd (20 / 100)" "3 / 4 \<le> rnd (80 / 100)" "rnd (30 / 100) \<le> 39 / 128"
    using rnd_le_dyadic[of "1 / 20" 1 4] rnd_ge_dyadic[of 3 4 "20 / 100"] rnd_ge_dyadic[of 3 2 "80 / 100"]
      rnd_le_dyadic[of "30 / 100" 39 7] by simp_all
  have "15 / 16 \<le> f64_sub 1 (rnd (1 / 20))" using w(1) rnd_ge_dyadic[of 15 4 "1 - rnd (1 / 20)"] by (simp add: f64_ops)
  then have "3 / 16 * (15 / 16) \<le> rnd (20 / 100) * f64_sub 1 (rnd (1 / 20))" using w(2) by (intro mult_mono) simp_all
  then have L: "45 / 256 \<le> L" using rnd_ge_dyadic[of 45 8] by (simp add: L_def f64_mul_def)
  then have E: "45 / 256 \<le> E" using rnd_ge_dyadic[of 45 8 L] by (simp add: E_def f64_ops)
  have "3 / 4 * (45 / 256) \<le> rnd (80 / 100) * E" using w(3) E by (intro mult_mono) simp_all
  then have "135 / 1024 \<le> f64_mul (rnd (80 / 100)) E" using rnd_ge_dyadic[of 135 10] by (simp add: f64_mul_def)
  then have "135 / 1024 + 45 / 256 \<le> f64_mul (rnd (80 / 100)) E + L" using L by (rule add_mono)
  then have "315 / 1024 \<le> f64_add (f64_mul (rnd (80 / 100)) E) L"
    using rnd_ge_dyadic[of 315 10 "f64_mul (rnd (80 / 100)) E + L"] by (simp add: f64_add_def)
  then have second: "rnd (30 / 100) < f64_add (f64_mul (rnd (80 / 100)) E) L" using w(4) by linarith
  define p1 where "p1 = (profiler_new start)\<lparr>step_bytes_sent := 20000, step_bytes_acked := 1000, prof_loss_ema := E\<rparr>"
  have r1: "on_bytes_acked t (on_bytes_sent (profiler_new start) 20000) 1000 =
      (if rnd (30 / 100) < E then (Some FLOOR_RATE_BPS, reset_step_counters t (p1\<lparr>phase := Throttling\<rparr>)) else (None, p1))" for t
    using heavy_loss_round[of "profiler_new start" 1000 0 t]
    by (simp add: profiler_new_def E_def L_def p1_def)
  have r2: "on_bytes_acked t (on_bytes_sent p1 20000) 1000 = (Some FLOOR_RATE_BPS, reset_step_counters t (p1\<lparr>
      step_bytes_sent := 40000, step_bytes_acked := 2000,
      prof_loss_ema := f64_add (f64_mul (rnd (80 / 100)) E) L, phase := Throttling\<rparr>))" for t
    using heavy_loss_round[of p1 2000 0 t] second by (simp add: p1_def profiler_new_def L_def)
  have "throttle_rounds (Suc (Suc n)) now (profiler_new start)" for n by (simp add: r1 r2 reset_step_counters_def)
  from this[of 48] show ?thesis by (simp add: test_defs)
qed

text \<open>What a packet does to the counters of the manager.\<close>

definition counts :: "sack_manager \<Rightarrow> u64 \<times> u64 \<times> u64" where
  "counts m = (packets_since_last_sack m, expected_since_last_sack m, next_expected_seq m)"

fun count_one :: "u64 \<times> u64 \<times> u64 \<Rightarrow> u64 \<Rightarrow> u64 \<times> u64 \<times> u64" where
  "count_one (p, e, n) q = (p + 1, if n \<le> q then e + (q - n + 1) else e, if n \<le> q then q + 1 else n)"

lemma counts_receive_all:
  "receive_all m qs = Some m' \<Longrightarrow> counts m' = foldl count_one (counts m) qs \<and> loss_ema m' = loss_ema m"
proof (induction qs arbitrary: m)
  case (Cons q qs)
  then obtain m1 where m1: "on_packet_received m q = Some m1" "receive_all m1 qs = Some m'"
    by (auto split: option.splits)
  have "counts m1 = count_one (counts m) q \<and> loss_ema m1 = loss_ema m"
    using m1(1) by (auto simp: on_packet_received_def counts_def Let_def split: option.splits if_splits)
  then show ?case using Cons.IH[OF m1(2)] by simp
qed simp

abbreviation round_seqs :: "u64 \<Rightarrow> u64 list" where
  "round_seqs r \<equiv> map (\<lambda>i. r * 40 + i) (filter (\<lambda>i. i mod 4 \<noteq> 3) (map of_nat [0..<40]))"

lemma round_list:
  "filter (\<lambda>i :: u64. i mod 4 \<noteq> 3) (map of_nat [0..<40]) =
     [0, 1, 2, 4, 5, 6, 8, 9, 10, 12, 13, 14, 16, 17, 18, 20, 21, 22, 24, 25, 26, 28, 29, 30, 32, 33, 34, 36, 37, 38]"
  by (simp add: upt_rec)

lemma round_counts:
  "foldl count_one (0, 0, 0) (round_seqs 0) = (30, 39, 39)"
  "foldl count_one (0, 0, 39) (round_seqs 1) = (30, 40, 79)"
  "foldl count_one (0, 0, 79) (round_seqs 2) = (30, 40, 119)"
  "foldl count_one (0, 0, 119) (round_seqs 3) = (30, 40, 159)"
  "foldl count_one (0, 0, 159) (round_seqs 4) = (30, 40, 199)"
  "foldl count_one (0, 0, 199) (round_seqs 5) = (30, 40, 239)"
  "foldl count_one (0, 0, 239) (round_seqs 6) = (30, 40, 279)"
  "foldl count_one (0, 0, 279) (round_seqs 7) = (30, 40, 319)"
  unfolding round_list by simp_all

lemma round_small: "r \<in> set [0, 1, 2, 3, 4, 5, 6, 7] \<Longrightarrow> q \<in> set (round_seqs r) \<Longrightarrow> unat q < 400"
  unfolding round_list by auto

text \<open>The manager between rounds: nothing counted, and the loss estimate at least \<open>n / 1024\<close>.\<close>

definition between_rounds :: "u64 \<Rightarrow> nat \<Rightarrow> sack_manager \<Rightarrow> bool" where
  "between_rounds s n m \<longleftrightarrow> manager_inv m \<and> (\<forall>q. is_received (payload m) q \<longrightarrow> unat q < 400) \<and>
     counts m = (0, 0, s) \<and> of_nat n / 2 ^ 10 \<le> loss_ema m"

lemma adapt_round:
  assumes "between_rounds s n m" "r \<in> set [0, 1, 2, 3, 4, 5, 6, 7]" "foldl count_one (0, 0, s) (round_seqs r) = (30, e, s')"
    "0 < e" "of_nat k / 2 ^ 10 \<le> interval_loss 30 (unat e)" "4 * n' \<le> 3 * n + k" "n \<le> 1024" "k \<le> 1024"
  shows "\<exists>m'. receive_all m (round_seqs r) = Some m' \<and> between_rounds s' n' (snd (tick m')) \<and>
    heartbeat_interval (snd (tick m')) = interval_for_loss (loss_ema (snd (tick m')))"
proof -
  have m: "manager_inv m" "\<forall>q. is_received (payload m) q \<longrightarrow> unat q < 400" "counts m = (0, 0, s)" "of_nat n / 2 ^ 10 \<le> loss_ema m"
    using assms(1) by (simp_all add: between_rounds_def)
  have small: "\<forall>q\<in>set (round_seqs r). unat q < 400" using round_small[OF assms(2)] by blast
  from receive_all_window[OF m(1,2) small] obtain m' where m': "receive_all m (round_seqs r) = Some m'" "manager_inv m'"
    "\<forall>q. is_received (payload m') q \<longrightarrow> is_received (payload m) q \<or> q \<in> set (round_seqs r)" by auto
  have c: "packets_since_last_sack m' = 30" "expected_since_last_sack m' = e" "next_expected_seq m' = s'" "loss_ema m' = loss_ema m"
    using counts_receive_all[OF m'(1)] m(3) assms(3) by (simp_all add: counts_def)
  let ?x = "f64_mul (3 / 4) (loss_ema m)" and ?y = "f64_mul (1 / 4) (interval_loss 30 (unat e))"
  have "of_nat (3 * n) / 2 ^ 12 \<le> ?x"
    unfolding f64_mul_def using m(4) assms(7) by (intro rnd_ge_dyadic) simp_all
  moreover have "of_nat k / 2 ^ 12 \<le> ?y"
    unfolding f64_mul_def using assms(5,8) by (intro rnd_ge_dyadic) simp_all
  moreover have "(of_nat (4 * n') :: rat) \<le> of_nat (3 * n + k)" using assms(6) by (simp only: of_nat_le_iff)
  ultimately have "of_nat n' / 2 ^ 10 \<le> ?x + ?y" by simp
  then have ema: "of_nat n' / 2 ^ 10 \<le> f64_add ?x ?y"
    unfolding f64_add_def using assms(6-8) by (intro rnd_ge_dyadic) simp_all
  have t: "loss_ema (snd (tick m')) = f64_add ?x ?y" "counts (snd (tick m')) = (0, 0, s')" "payload (snd (tick m')) = payload m'"
    "heartbeat_interval (snd (tick m')) = interval_for_loss (loss_ema (snd (tick m')))"
    using assms(4) c by (simp_all add: tick_def counts_def Let_def)
  moreover have "manager_inv (snd (tick m'))" using m'(2) t(3) by (simp add: manager_inv_def)
  moreover have "\<forall>q. is_received (payload m') q \<longrightarrow> unat q < 400" using m'(3) m(2) small by blast
  ultimately show ?thesis using m'(1) ema by (auto simp: between_rounds_def)
qed

lemma adapt_test_passes: test_sack_manager_adapts_interval
proof -
  have first: "of_nat 224 / 2 ^ 10 \<le> interval_loss 30 39"
    using rnd_ge_dyadic[of 224 10 "9 / 39"] f64_of_nat_exact[of 9] f64_of_nat_exact[of 39] by (simp add: interval_loss_def f64_div_def)
  have later: "of_nat 256 / 2 ^ 10 \<le> interval_loss 30 40"
    using rnd_ge_dyadic[of 256 10 "10 / 40"] f64_of_nat_exact[of 10] f64_of_nat_exact[of 40] by (simp add: interval_loss_def f64_div_def)
  have "between_rounds 0 0 (manager_new 0)"
    using manager_inv_new[of 0] is_received_manager_new[of 0] by (simp add: between_rounds_def manager_new_def counts_def)
  from adapt_round[OF this _ round_counts(1), of 224 56] first
  obtain m1 where m1: "receive_all (manager_new 0) (round_seqs 0) = Some m1" "between_rounds 39 56 (snd (tick m1))" by auto
  from adapt_round[OF m1(2) _ round_counts(2), of 256 106] later
  obtain m2 where m2: "receive_all (snd (tick m1)) (round_seqs 1) = Some m2" "between_rounds 79 106 (snd (tick m2))" by auto
  from adapt_round[OF m2(2) _ round_counts(3), of 256 143] later
  obtain m3 where m3: "receive_all (snd (tick m2)) (round_seqs 2) = Some m3" "between_rounds 119 143 (snd (tick m3))" by auto
  from adapt_round[OF m3(2) _ round_counts(4), of 256 171] later
  obtain m4 where m4: "receive_all (snd (tick m3)) (round_seqs 3) = Some m4" "between_rounds 159 171 (snd (tick m4))" by auto
  from adapt_round[OF m4(2) _ round_counts(5), of 256 192] later
  obtain m5 where m5: "receive_all (snd (tick m4)) (round_seqs 4) = Some m5" "between_rounds 199 192 (snd (tick m5))" by auto
  from adapt_round[OF m5(2) _ round_counts(6), of 256 208] later
  obtain m6 where m6: "receive_all (snd (tick m5)) (round_seqs 5) = Some m6" "between_rounds 239 208 (snd (tick m6))" by auto
  from adapt_round[OF m6(2) _ round_counts(7), of 256 220] later
  obtain m7 where m7: "receive_all (snd (tick m6)) (round_seqs 6) = Some m7" "between_rounds 279 220 (snd (tick m7))" by auto
  from adapt_round[OF m7(2) _ round_counts(8), of 256 229] later
  obtain m8 where m8: "receive_all (snd (tick m7)) (round_seqs 7) = Some m8" "between_rounds 319 229 (snd (tick m8))"
    "heartbeat_interval (snd (tick m8)) = interval_for_loss (loss_ema (snd (tick m8)))" by auto
  have "rnd (1 / 5) \<le> 205 / 2 ^ 10" using rnd_le_dyadic[of "1 / 5" 205 10] by simp
  then have "heartbeat_interval (snd (tick m8)) = from_millis 1"
    using m8(2,3) by (auto simp: between_rounds_def interval_for_loss_def)
  moreover have "(map of_nat [0..<8] :: u64 list) = [0, 1, 2, 3, 4, 5, 6, 7]" by (simp add: upt_rec)
  ultimately show ?thesis using m1(1) m2(1) m3(1) m4(1) m5(1) m6(1) m7(1) m8(1)
    unfolding test_sack_manager_adapts_interval_def by (simp only: adapt_rounds.simps option.case)
qed

end
