(* ===== verification/ControlTests.thy ===== *)
theory ControlTests
  imports Control Tests
begin

text \<open>
  The unit tests of \<^verbatim>\<open>crates/controlplane/src\<close>.  The loopback test of the gRPC service makes its calls
  on the handlers; a sleep is the difference of two readings of a clock.
\<close>

section \<open>\<^verbatim>\<open>session_mgr.rs\<close>\<close>

definition test_create_and_get :: "entropy \<Rightarrow> bool" where
  [test_defs]: "test_create_and_get e =
     (let (info, mgr) = create_session e (lit ''alice'') 100000000 (session_manager_new (from_millis 60000))
      in session_user info = lit ''alice'' \<and> length (session_key info) = 32 \<and> length (session_nonce info) = 12 \<and>
         (case get_clone mgr (session_uuid info) of None \<Rightarrow> False | Some got \<Rightarrow> numeric_id got = numeric_id info))"

definition test_heartbeat_extends_session :: "entropy \<Rightarrow> instant \<Rightarrow> bool" where
  [test_defs]: "test_heartbeat_extends_session e now =
     (let (info, mgr) = create_session e (lit ''bob'') 50000000 (session_manager_new (from_millis 200));
          (ok, mgr) = heartbeat_session now (session_uuid info) mgr
      in ok \<and> get_clone mgr (session_uuid info) \<noteq> None)"

definition test_reap_expired :: "entropy \<Rightarrow> entropy \<Rightarrow> instant \<Rightarrow> bool" where
  [test_defs]: "test_reap_expired e e' now =
     (let (s1, mgr) = create_session e (lit ''carol'') 0 (session_manager_new (from_millis 100));
          (s2, mgr) = create_session e' (lit ''dave'') 0 mgr;
          (reaped, mgr) = reap_expired now mgr
      in reaped = 2 \<and> get_clone mgr (session_uuid s1) = None \<and> get_clone mgr (session_uuid s2) = None)"

definition test_terminate :: "entropy \<Rightarrow> bool" where
  [test_defs]: "test_terminate e =
     (let (info, mgr) = create_session e (lit ''eve'') 0 (session_manager_new (from_millis 60000));
          (ok1, mgr) = terminate_session (session_uuid info) mgr;
          (ok2, mgr) = terminate_session (session_uuid info) mgr
      in ok1 \<and> \<not> ok2 \<and> get_clone mgr (session_uuid info) = None)"

section \<open>\<^verbatim>\<open>auth.rs\<close>\<close>

definition test_engine :: auth_engine where
  [test_defs]: "test_engine = auth_engine_new (lit ''test-secret-key-32-bytes-long!!!'') 3600"

definition test_hash_and_verify :: "crypto_lib \<Rightarrow> bytes \<Rightarrow> bool" where
  [test_defs]: "test_hash_and_verify lib salt =
     (let e = add_user lib salt (lit ''alice'') (lit ''correct-horse-battery-staple'') test_engine
      in authenticate lib e (lit ''alice'') (lit ''correct-horse-battery-staple'') \<and>
         \<not> authenticate lib e (lit ''alice'') (lit ''wrong-password'') \<and>
         \<not> authenticate lib e (lit ''unknown'') (lit ''any-password''))"

definition test_jwt_issue_and_verify :: "crypto_lib \<Rightarrow> u64 option \<Rightarrow> u64 \<Rightarrow> bool" where
  [test_defs]: "test_jwt_issue_and_verify lib wall wall' =
     (case issue_token lib test_engine wall (lit ''bob'') (lit ''session-uuid-123'') of
        Inl _ \<Rightarrow> False
      | Inr token \<Rightarrow>
          (case verify_token lib test_engine wall' token of
             Inl _ \<Rightarrow> False
           | Inr c \<Rightarrow> claim_sub c = lit ''bob'' \<and> claim_sid c = lit ''session-uuid-123''))"

definition test_jwt_expired_rejected :: "crypto_lib \<Rightarrow> u64 option \<Rightarrow> u64 \<Rightarrow> bool" where
  [test_defs]: "test_jwt_expired_rejected lib wall wall' =
     (let e = auth_engine_new (lit ''test-secret-key-32-bytes-long!!!'') 1 in
      case issue_token lib e wall (lit ''carol'') (lit ''sess-456'') of
        Inl _ \<Rightarrow> False
      | Inr token \<Rightarrow> (case verify_token lib e wall' token of Inl _ \<Rightarrow> True | Inr _ \<Rightarrow> False))"

section \<open>\<^verbatim>\<open>policy.rs\<close>\<close>

definition test_resolve_default_and_override :: bool where
  [test_defs]: "test_resolve_default_and_override =
     (let engine = policy_engine_new 100000000; default = resolve engine (lit ''unknown_user'');
          engine = set_user_policy (lit ''vip'') 1000000000 2 engine;
          vip = resolve engine (lit ''vip''); other = resolve engine (lit ''alice'')
      in policy_max_bps default = 100000000 \<and> \<bar>f64_sub (burst_factor default) (3 / 2)\<bar> < 1 / 2 ^ 52 \<and>
         policy_max_bps vip = 1000000000 \<and> \<bar>f64_sub (burst_factor vip) 2\<bar> < 1 / 2 ^ 52 \<and>
         policy_max_bps other = 100000000)"

section \<open>\<^verbatim>\<open>server.rs\<close>\<close>

definition make_stack :: "crypto_lib \<Rightarrow> bytes \<Rightarrow> control_service" where
  [test_defs]: "make_stack lib salt =
     \<lparr>svc_auth = add_user lib salt (lit ''alice'') (lit ''s3cr3t'')
        (auth_engine_new (lit ''test-secret-key-32-bytes-long!!!'') 3600),
      svc_sessions = session_manager_new (from_millis 60000), svc_policies = policy_engine_new 100000000\<rparr>"

text \<open>\<open>walls\<close> and \<open>now\<close> are the readings of the clocks in the four calls.\<close>

definition test_grpc_authenticate_loopback ::
  "crypto_lib \<Rightarrow> bytes \<Rightarrow> entropy \<Rightarrow> entropy \<Rightarrow> (nat \<Rightarrow> u64) \<Rightarrow> instant \<Rightarrow> bool" where
  [test_defs]: "test_grpc_authenticate_loopback lib salt e e' walls now =
     (case svc_authenticate lib e (Some (walls 0)) \<lparr>req_username = lit ''alice'', req_password = lit ''s3cr3t''\<rparr>
             (make_stack lib salt) of
        (Inl _, _) \<Rightarrow> False
      | (Inr resp, s) \<Rightarrow>
          resp_session_id resp \<noteq> [] \<and> resp_jwt_token resp \<noteq> [] \<and> length (resp_session_key resp) = 32 \<and>
          length (resp_session_nonce resp) = 12 \<and> resp_max_bps resp = 100000000 \<and>
          (let req = \<lparr>req_session_id = resp_session_id resp, req_jwt_token = resp_jwt_token resp\<rparr>;
               (hb, s) = svc_heartbeat lib (walls 1) now req s;
               (trm, s) = svc_terminate lib (walls 2) req s;
               (err, s) = svc_authenticate lib e' (Some (walls 3))
                 \<lparr>req_username = lit ''alice'', req_password = lit ''wrong''\<rparr> s
           in hb = Inr True \<and> trm = Inr True \<and> isl err))"

section \<open>The model passes the tests\<close>

lemma session_mgr_tests_pass:
  assumes "length (key_bytes e) = 32" "length (nonce_bytes e) = 12"
  shows "test_create_and_get e" "test_heartbeat_extends_session e now" "test_terminate e"
  using assms by (simp_all add: test_defs manager_defs Let_def session_manager_new_def)

lemma reap_test_passes:
  assumes "new_uuid e \<noteq> new_uuid e'" "instant_now e \<le> instant_now e'" "instant_now e' + 150000000 \<le> now"
  shows "test_reap_expired e e' now"
proof -
  define m where "m = snd (create_session e' (lit ''dave'') 0 (snd (create_session e (lit ''carol'') 0 (session_manager_new (from_millis 100)))))"
  have seen: "last_seen m k = (if k = new_uuid e' then Some (instant_now e') else if k = new_uuid e then Some (instant_now e) else None)" for k
    by (auto simp: m_def last_seen_def manager_defs session_manager_new_def Let_def)
  moreover have ttl: "session_ttl m = from_millis 100" by (simp add: m_def manager_defs session_manager_new_def Let_def)
  ultimately have gone: "last_seen (snd (reap_expired now m)) k = None" for k
    using mgr.seen_op[of "Reap now" m k] assms(2,3) by (auto simp: duration_since_def)
  have "fst (reap_expired now m) = card {k. last_seen m k \<noteq> None}" using reap_count[of now m] gone by simp
  also have "{k. last_seen m k \<noteq> None} = {new_uuid e, new_uuid e'}" by (auto simp: seen)
  finally have "fst (reap_expired now m) = 2" using assms(1) by simp
  moreover have "get_clone (snd (reap_expired now m)) k = None" for k using gone[of k] by (simp add: last_seen_def)
  ultimately show ?thesis unfolding test_reap_expired_def Let_def case_prod_unfold m_def[symmetric] by simp
qed

text \<open>A password is refused when its hash differs, which is all a hash can promise.\<close>

lemma hash_test_passes:
  assumes "lib_ok lib" "pbkdf2_hmac lib (lit ''wrong-password'') salt PBKDF2_ITERATIONS \<noteq>
    pbkdf2_hmac lib (lit ''correct-horse-battery-staple'') salt PBKDF2_ITERATIONS"
  shows "test_hash_and_verify lib salt"
proof -
  have "xor_diff (pbkdf2_hmac lib p s n) (pbkdf2_hmac lib p' s' n') = 0 \<longleftrightarrow> pbkdf2_hmac lib p s n = pbkdf2_hmac lib p' s' n'" for p s n p' s' n'
    using assms(1) by (intro xor_diff_zero) (simp add: lib_ok_def)
  moreover have "lit ''unknown'' \<noteq> lit ''alice''" by (simp add: lit_def)
  ultimately show ?thesis using assms(2)
    by (auto simp: test_defs authenticate_def add_user_def auth_engine_new_def Let_def)
qed

lemma policy_test_passes: test_resolve_default_and_override
  by (simp add: test_defs lit_def resolve_def set_user_policy_def policy_engine_new_def f64_ops Let_def)

lemma jwt_tests_pass:
  assumes "lib_ok lib" "\<And>k c. \<exists>t. jwt_encode lib k c = Some t" "unat wall < 2 ^ 63"
  shows "unat wall' \<le> unat wall + 3600 \<Longrightarrow> test_jwt_issue_and_verify lib (Some wall) wall'"
    and "unat wall + 2 \<le> unat wall' \<Longrightarrow> test_jwt_expired_rejected lib (Some wall) wall'"
proof -
  have issued: "\<exists>t. issue_token lib a (Some wall) user k = Inr t" for a user k
    using assms(2) by (auto simp: issue_token_def split: option.splits)
  have expiry: "unat (saturating_add wall ttl) = unat wall + unat ttl" if "unat ttl \<le> 3600" for ttl
    using that assms(3) by (simp add: saturating_add_def unat_word_ariths)
  show "test_jwt_issue_and_verify lib (Some wall) wall'" if "unat wall' \<le> unat wall + 3600"
  proof -
    obtain t where t: "issue_token lib test_engine (Some wall) (lit ''bob'') (lit ''session-uuid-123'') = Inr t" using issued by blast
    have "wall' \<le> saturating_add wall (token_ttl_secs test_engine)"
      using that expiry[of 3600] by (simp add: word_le_nat_alt test_engine_def auth_engine_new_def)
    from issue_verify(1)[OF assms(1) t this] t show ?thesis by (simp add: test_jwt_issue_and_verify_def)
  qed
  show "test_jwt_expired_rejected lib (Some wall) wall'" if "unat wall + 2 \<le> unat wall'"
  proof -
    let ?e = "auth_engine_new (lit ''test-secret-key-32-bytes-long!!!'') 1"
    obtain t where t: "issue_token lib ?e (Some wall) (lit ''carol'') (lit ''sess-456'') = Inr t" using issued by blast
    have "saturating_add wall (token_ttl_secs ?e) < wall'"
      using that expiry[of 1] by (simp add: word_less_nat_alt auth_engine_new_def)
    from issue_verify(2)[OF assms(1) t this] t show ?thesis by (auto simp: test_jwt_expired_rejected_def)
  qed
qed

lemma grpc_test_passes:
  assumes "lib_ok lib" "\<And>k c. \<exists>t. t \<noteq> [] \<and> jwt_encode lib k c = Some t" "unat (walls 0) < 2 ^ 63"
    "unat (walls 1) \<le> unat (walls 0) + 3600" "unat (walls 2) \<le> unat (walls 0) + 3600"
    "new_uuid e \<noteq> []" "length (key_bytes e) = 32" "length (nonce_bytes e) = 12"
    "pbkdf2_hmac lib (lit ''wrong'') salt PBKDF2_ITERATIONS \<noteq> pbkdf2_hmac lib (lit ''s3cr3t'') salt PBKDF2_ITERATIONS"
  shows "test_grpc_authenticate_loopback lib salt e e' walls now"
proof -
  let ?s = "make_stack lib salt" and ?req = "\<lparr>req_username = lit ''alice'', req_password = lit ''s3cr3t''\<rparr>"
  have hash: "authenticate lib (svc_auth ?s) (lit ''alice'') p \<longleftrightarrow>
      pbkdf2_hmac lib p salt PBKDF2_ITERATIONS = pbkdf2_hmac lib (lit ''s3cr3t'') salt PBKDF2_ITERATIONS" for p
    using assms(1) by (simp add: make_stack_def add_user_def auth_engine_new_def authenticate_def xor_diff_zero lib_ok_def)
  obtain t where t: "t \<noteq> []" "issue_token lib (svc_auth ?s) (Some (walls 0)) (lit ''alice'') (new_uuid e) = Inr t"
    using assms(2)[of "jwt_secret (svc_auth ?s)" "\<lparr>claim_sub = lit ''alice'', claim_sid = new_uuid e,
      exp_at = saturating_add (walls 0) (token_ttl_secs (svc_auth ?s))\<rparr>"] by (auto simp: issue_token_def)
  define r where "r = \<lparr>resp_session_id = new_uuid e, resp_jwt_token = t, resp_session_key = key_bytes e,
    resp_session_nonce = nonce_bytes e, resp_max_bps = 100000000\<rparr>"
  have pol: "policy_max_bps (resolve (svc_policies ?s) u) = 100000000" for u
    by (simp add: make_stack_def resolve_def policy_engine_new_def)
  obtain s1 where login: "svc_authenticate lib e (Some (walls 0)) ?req ?s = (Inr r, s1)"
    using t(2) hash[of "lit ''s3cr3t''"] by (simp add: svc_authenticate_def create_session_def Let_def r_def pol)
  note lg = login_opens_session[OF login]
  let ?q = "\<lparr>req_session_id = resp_session_id r, req_jwt_token = resp_jwt_token r\<rparr>"
  have ttl: "unat (saturating_add (walls 0) (token_ttl_secs (svc_auth ?s))) = unat (walls 0) + 3600"
    using assms(3) by (simp add: make_stack_def add_user_def auth_engine_new_def saturating_add_def unat_word_ariths)
  have tok: "verify_token lib (svc_auth ?s) w (req_jwt_token ?q) = Inr \<lparr>claim_sub = lit ''alice'', claim_sid = new_uuid e,
      exp_at = saturating_add (walls 0) (token_ttl_secs (svc_auth ?s))\<rparr>" if "unat w \<le> unat (walls 0) + 3600" for w
    using that ttl by (intro issue_verify(1)[OF assms(1)]) (simp_all add: r_def t word_le_nat_alt)
  define s2 where "s2 = snd (svc_heartbeat lib (walls 1) now ?q s1)"
  define s3 where "s3 = snd (svc_terminate lib (walls 2) ?q s2)"
  have v1: "verify_token lib (svc_auth s1) (walls 1) (req_jwt_token ?q) = Inr \<lparr>claim_sub = lit ''alice'', claim_sid = new_uuid e,
      exp_at = saturating_add (walls 0) (token_ttl_secs (svc_auth ?s))\<rparr>" using tok[OF assms(4)] lg(3) by simp
  note hb = valid_token_acts_on_any_session(1)[OF v1, of now]
  have s2: "svc_auth s2 = svc_auth ?s" "get_clone (svc_sessions s2) (new_uuid e) \<noteq> None"
    using hb lg(2,3) table_facts(1)[of now "new_uuid e"] by (simp_all add: s2_def r_def)
  have v2: "verify_token lib (svc_auth s2) (walls 2) (req_jwt_token ?q) = Inr \<lparr>claim_sub = lit ''alice'', claim_sid = new_uuid e,
      exp_at = saturating_add (walls 0) (token_ttl_secs (svc_auth ?s))\<rparr>" using tok[OF assms(5)] s2(1) by simp
  note tm = valid_token_acts_on_any_session(2)[OF v2]
  have s3: "svc_auth s3 = svc_auth ?s" using tm s2(1) by (simp add: s3_def)
  have "fst (svc_heartbeat lib (walls 1) now ?q s1) = Inr True" using hb lg(2) by (simp add: r_def)
  moreover have "fst (svc_terminate lib (walls 2) ?q s2) = Inr True" using tm s2(2) by (simp add: r_def)
  moreover have "isl (fst (svc_authenticate lib e' (Some (walls 3)) \<lparr>req_username = lit ''alice'', req_password = lit ''wrong''\<rparr> s3))"
    using hash[of "lit ''wrong''"] assms(9) s3 by (simp add: svc_authenticate_def)
  moreover have "resp_session_id r \<noteq> []" "resp_jwt_token r \<noteq> []" "length (resp_session_key r) = 32"
    "length (resp_session_nonce r) = 12" "resp_max_bps r = 100000000"
    using assms(6-8) t(1) by (simp_all add: r_def)
  ultimately show ?thesis
    unfolding test_grpc_authenticate_loopback_def login Let_def case_prod_unfold s2_def s3_def fst_conv snd_conv sum.case by blast
qed

end
