(* ===== verification/TraversalTests.thy ===== *)
theory TraversalTests
  imports HolePunch Tests
begin

text \<open>
  The unit tests of \<^verbatim>\<open>crates/traversal/src\<close>, and the STUN responder that they run the client against:
  \<open>spawn_stun\<close> of \<^verbatim>\<open>lib.rs\<close>, of which the tests of \<^verbatim>\<open>ice.rs\<close> and \<^verbatim>\<open>holepunch.rs\<close> hold copies.  The
  responder is a server of this protocol written apart from the client, so what the two do
  together is more than a test: for every IPv4 client address, every transaction identifier and
  every environment in which datagrams arrive, the client learns exactly its own address.
\<close>

section \<open>The responder\<close>

text \<open>
  One turn of the responder's loop: \<open>src\<close> is the address a datagram came from, and the result
  is the answer that is sent back there.  Its receive buffer has 512 bytes.
\<close>

definition spawn_stun :: "socket_addr \<Rightarrow> bytes \<Rightarrow> bytes option" where
  "spawn_stun src datagram =
     (case parse_stun (take 512 datagram) of
        Inl _ \<Rightarrow> None
      | Inr msg \<Rightarrow>
          if msg_type msg \<noteq> BINDING_REQUEST then None
          else case ip src of
                 V6 _ \<Rightarrow> None
               | V4 ipv4 \<Rightarrow>
                   let x_port = port src XOR ucast (drop_bit 16 MAGIC_COOKIE);
                       x_ip = ipv4 XOR MAGIC_COOKIE;
                       val = [0, 1] @ be_bytes x_port @ be_bytes x_ip;
                       attr_len = 4 + length val;
                       resp = [ucast (drop_bit 8 BINDING_SUCCESS), ucast BINDING_SUCCESS,
                               of_nat (drop_bit 8 attr_len), of_nat attr_len] @
                              be_bytes MAGIC_COOKIE @ transaction_id msg
                   in Some (resp @ be_bytes ATTR_XOR_MAPPED @ be_bytes (of_nat (length val) :: u16) @ val))"

text \<open>The responder as the client sees it, when its datagrams arrive from \<open>src\<close>.\<close>

definition responder_net :: "socket_addr \<Rightarrow> socket_addr \<Rightarrow> bytes \<Rightarrow> net_reply" where
  "responder_net src target datagram =
     (case spawn_stun src datagram of None \<Rightarrow> TimedOut | Some resp \<Rightarrow> Reply resp)"

lemma be_bytes_u16: "be_bytes (w :: u16) = [ucast (drop_bit 8 w), ucast w]"
  by (simp add: be_bytes_def le_bytes_def upt_rec)

lemma binding_request_ok: "length tid = 12 \<Longrightarrow> stun_ok (new_binding_request tid)"
  by (simp add: stun_ok_def new_binding_request_def)

lemma length_serialise_request: "length tid = 12 \<Longrightarrow> length (serialise_stun (new_binding_request tid)) = 20"
  by (simp add: serialise_stun_def new_binding_request_def)

text \<open>The answer to a Binding Request is a well-formed packet that carries the source address.\<close>

lemma spawn_stun_answers:
  assumes "length tid = 12" "ip src = V4 w"
  shows "spawn_stun src (serialise_stun (new_binding_request tid)) =
    Some (stun_packet BINDING_SUCCESS tid [(ATTR_XOR_MAPPED, xor_address tid src)])"
proof -
  have "parse_stun (take 512 (serialise_stun (new_binding_request tid))) = Inr (new_binding_request tid)"
    using parse_serialise_stun[OF binding_request_ok[OF assms(1)], of "[]"] length_serialise_request[OF assms(1)]
    by simp
  then show ?thesis using assms
    by (simp add: spawn_stun_def stun_packet_def xor_address_def tlv_def new_binding_request_def
        cookie_port_def be_bytes_u16 drop_bit_eq_div Let_def)
qed

lemma responder_answers:
  "length tid = 12 \<Longrightarrow> ip src = V4 w \<Longrightarrow>
   responder_net src target (serialise_stun (new_binding_request tid)) =
     Reply (stun_packet BINDING_SUCCESS tid [(ATTR_XOR_MAPPED, xor_address tid src)])"
  by (simp add: responder_net_def spawn_stun_answers)

lemma discover_from_responder:
  assumes "length tid = 12" "ip src = V4 w"
    "net target (serialise_stun (new_binding_request tid)) =
       responder_net src target (serialise_stun (new_binding_request tid))"
  shows "discover_with_socket net tid target = Inr src"
proof -
  let ?r = "stun_packet BINDING_SUCCESS tid [(ATTR_XOR_MAPPED, xor_address tid src)]"
  have "length ?r \<le> 512"
    using length_xor_address[OF assms(1), of src] length_tlv_le[of ATTR_XOR_MAPPED "xor_address tid src"] assms(1)
    by simp
  then show ?thesis using assms parse_xor_packet[OF assms(1)]
    by (simp add: discover_with_socket_def responder_answers mapped_addr_def)
qed

text \<open>An environment in which everything that is sent reaches a responder, which sees it come from \<open>src\<close>.\<close>

definition all_answer :: "punch_env \<Rightarrow> socket_addr \<Rightarrow> bool" where
  "all_answer env src \<longleftrightarrow> is_ipv4 src \<and>
     (\<forall>i. length (stun_tid env i) = 12 \<and> stun_net env i = responder_net src) \<and>
     (\<forall>k i. length (check_tid env k i) = 12 \<and> check_net env k i = responder_net src)"

lemma all_answer_exchanges:
  assumes "all_answer env src"
  shows "discover_with_socket (stun_net env i) (stun_tid env i) s = Inr src"
    "stun_check env k i peer = Inr src"
proof -
  obtain w where w: "ip src = V4 w" using assms by (auto simp: all_answer_def is_ipv4_def split: ip_addr.splits)
  show "discover_with_socket (stun_net env i) (stun_tid env i) s = Inr src"
    "stun_check env k i peer = Inr src"
    unfolding stun_check_def by (rule discover_from_responder[OF _ w]; use assms in \<open>simp add: all_answer_def\<close>)+
qed

lemma connect_without_relay:
  assumes "all_answer env src" "bound_addr env local_port = Some local" "is_ipv4 local" "is_ipv4 peer"
    "attempts config \<noteq> 0"
  shows "connect env (traversal_engine_new config) peer local_port =
    Return (Inr \<lparr>peer_addr = peer, relay_used = False\<rparr>)"
proof -
  have "\<exists>j < pair_count local public peer. \<exists>a. stun_check env 0 j peer = Inr a" for public
    using assms(3,4) all_answer_exchanges(2)[OF assms(1)] by (intro exI[of _ 0]) (simp add: pair_count_def)
  then show ?thesis using punch_result[OF assms(2) refl, of config peer] assms(5)
    by (simp add: connect_def traversal_engine_new_def)
qed

text \<open>
  C31: traversal against the responder of the tests.  Where every datagram reaches a responder,
  which sees it come from the IPv4 address \<open>src\<close>, \<open>discover_endpoint\<close> reports the local address
  together with exactly \<open>src\<close> as the public one, whichever server of a non-empty list it asks; and
  \<open>connect\<close> to any IPv4 peer returns that peer without a relay, with or without a TURN
  server, as soon as one attempt is configured.
\<close>

theorem traversal_against_responder:
  assumes "all_answer env src" "bound_addr env local_port = Some local" "is_ipv4 local" "is_ipv4 peer"
    "stun_servers config \<noteq> []" "attempts config \<noteq> 0"
  shows "discover_endpoint env (traversal_engine_new config) local_port =
      Inr \<lparr>ep_local_addr = local, ep_public_addr = src\<rparr> \<and>
    connect env (traversal_engine_new config) peer local_port =
      Return (Inr \<lparr>peer_addr = peer, relay_used = False\<rparr>)"
proof -
  obtain s ss where "stun_servers config = s # ss" using assms(5) by (cases "stun_servers config") auto
  then have "query_stun env 0 (stun_servers config) = Some src" by (simp add: all_answer_exchanges[OF assms(1)])
  then show ?thesis using assms(2) connect_without_relay[OF assms(1-4,6)]
    by (simp add: discover_endpoint_def discover_def traversal_engine_new_def)
qed

definition loopback :: "u16 \<Rightarrow> socket_addr" where
  "loopback p = \<lparr>ip = V4 0x7F000001, port = p\<rparr>"

definition example_answering :: punch_env where
  "example_answering = (example_env True)\<lparr>stun_net := (\<lambda>_. responder_net (loopback 4000)),
     check_net := (\<lambda>_ _. responder_net (loopback 4000))\<rparr>"

theorem traversal_against_responder_witness:
  "let config = hole_punch_config_default\<lparr>stun_servers := [loopback 3478]\<rparr> in
   discover_endpoint example_answering (traversal_engine_new config) 4000 =
     Inr \<lparr>ep_local_addr = \<lparr>ip = V4 0, port = 4000\<rparr>, ep_public_addr = loopback 4000\<rparr> \<and>
   connect example_answering (traversal_engine_new config) (loopback 9) 4000 =
     Return (Inr \<lparr>peer_addr = loopback 9, relay_used = False\<rparr>)"
proof -
  have "all_answer example_answering (loopback 4000)"
    by (simp add: all_answer_def example_answering_def example_env_def loopback_def is_ipv4_def)
  from traversal_against_responder[OF this, of 4000 "\<lparr>ip = V4 0, port = 4000\<rparr>" "loopback 9"]
  show ?thesis unfolding Let_def
    by (simp add: example_answering_def example_env_def loopback_def is_ipv4_def hole_punch_config_default_def)
qed

section \<open>\<^verbatim>\<open>stun.rs\<close>\<close>

definition test_binding_request_encode_decode :: "bytes \<Rightarrow> bool" where
  "test_binding_request_encode_decode tid =
     (let req = new_binding_request tid;
          wire = serialise_stun req
      in length wire = HEADER_LEN \<and> wire ! 0 AND 0xC0 = 0 \<and>
         of_be_bytes [wire ! 4, wire ! 5, wire ! 6, wire ! 7] = MAGIC_COOKIE \<and>
         slice 8 20 wire = transaction_id req \<and>
         (case parse_stun wire of
            Inl _ \<Rightarrow> False
          | Inr parsed \<Rightarrow> msg_type parsed = BINDING_REQUEST \<and>
              transaction_id parsed = transaction_id req \<and> attributes parsed = []))"

lemma binding_request_encode_decode:
  assumes "length tid = 12"
  shows "test_binding_request_encode_decode tid"
proof -
  have "parse_stun (serialise_stun (new_binding_request tid)) = Inr (new_binding_request tid)"
    using parse_serialise_stun[OF binding_request_ok[OF assms], of "[]"] by simp
  moreover have "serialise_stun (new_binding_request tid) = [0, 1, 0, 0] @ [0x21, 0x12, 0xA4, 0x42] @ tid"
    by (simp add: serialise_stun_def new_binding_request_def BINDING_REQUEST_def MAGIC_COOKIE_def
        be_bytes_def le_bytes_def upt_rec)
  ultimately show ?thesis unfolding test_binding_request_encode_decode_def Let_def
    using assms by (simp add: HEADER_LEN_def slice_def new_binding_request_def MAGIC_COOKIE_def of_be_bytes_def)
qed

definition test_parse_xor_mapped_address_ipv4 :: bool where
  "test_parse_xor_mapped_address_ipv4 =
     (let ip = of_be_bytes [192, 0, 2, 1] :: u32;
          p = 54321 :: u16;
          tid = replicate 12 0xAB;
          x_port = p XOR ucast (drop_bit 16 MAGIC_COOKIE);
          x_ip = ip XOR MAGIC_COOKIE;
          attr_val = [0, 1] @ be_bytes x_port @ be_bytes x_ip;
          attr_total = ATTR_HDR_LEN + length attr_val;
          msg = [ucast (drop_bit 8 BINDING_SUCCESS), ucast BINDING_SUCCESS,
                 of_nat (drop_bit 8 attr_total), of_nat attr_total] @ be_bytes MAGIC_COOKIE @ tid;
          msg = msg @ be_bytes ATTR_XOR_MAPPED @ be_bytes (of_nat (length attr_val) :: u16) @ attr_val;
          body_len = length msg - HEADER_LEN;
          msg = msg[2 := of_nat (drop_bit 8 body_len), 3 := of_nat body_len]
      in case parse_stun msg of
           Inl _ \<Rightarrow> False
         | Inr parsed \<Rightarrow>
             (case mapped_addr parsed of
                None \<Rightarrow> False
              | Some addr \<Rightarrow> port addr = p \<and> socket_addr.ip addr = V4 0xC0000201))"

lemma parse_xor_mapped_address_ipv4: "test_parse_xor_mapped_address_ipv4"
  by code_simp

text \<open>
  The responder of this test unwraps the parsed datagram, so a malformed one would end its task;
  apart from that it is \<open>spawn_stun\<close> again.
\<close>

definition test_discover_loopback :: "bytes \<Rightarrow> socket_addr \<Rightarrow> socket_addr \<Rightarrow> bool" where
  "test_discover_loopback tid server_addr client_local =
     (let responder = (\<lambda>src datagram. case parse_stun (take 512 datagram) of
                         Inl _ \<Rightarrow> Panic | Inr _ \<Rightarrow> Return (spawn_stun src datagram));
          net = (\<lambda>target datagram. case responder client_local datagram of
                   Panic \<Rightarrow> TimedOut | Return None \<Rightarrow> TimedOut | Return (Some resp) \<Rightarrow> Reply resp)
      in case discover_with_socket net tid server_addr of
           Inl _ \<Rightarrow> False
         | Inr discovered \<Rightarrow> port discovered = port client_local)"

lemma discover_loopback:
  assumes "length tid = 12"
  shows "test_discover_loopback tid server_addr (loopback p)"
proof -
  have "parse_stun (take 512 (serialise_stun (new_binding_request tid))) = Inr (new_binding_request tid)"
    using parse_serialise_stun[OF binding_request_ok[OF assms], of "[]"] length_serialise_request[OF assms] by simp
  then show ?thesis unfolding test_discover_loopback_def Let_def
    by (subst discover_from_responder[OF assms, of "loopback p" "0x7F000001"])
      (auto simp: loopback_def responder_net_def split: option.splits)
qed

section \<open>\<^verbatim>\<open>ice.rs\<close>\<close>

definition test_candidate_priority_ordering :: bool where
  "test_candidate_priority_ordering =
     (let host = candidate_new Host (loopback 1000) 65535;
          srflx = candidate_new ServerReflexive (loopback 1001) 65535;
          relay = candidate_new Relayed (loopback 1002) 65535
      in cand_priority srflx < cand_priority host \<and> cand_priority relay < cand_priority srflx \<and>
         cand_priority relay AND 0xFF = 255)"

lemma candidate_priority_ordering: "test_candidate_priority_ordering"
  by (simp add: test_candidate_priority_ordering_def candidate_new_def compute_priority_def type_preference_def)

definition test_form_check_list_sorted :: bool where
  "test_form_check_list_sorted =
     (let agent = ice_agent_new Controlling;
          agent = add_local_candidate (candidate_new Host (loopback 1000) 100) agent;
          agent = add_local_candidate (candidate_new ServerReflexive (loopback 1001) 100) agent;
          agent = set_remote_candidates [candidate_new Host (loopback 2000) 100] agent;
          agent = form_check_list agent
      in length (check_list agent) = 2 \<and>
         pair_prio (check_list agent ! 1) \<le> pair_prio (check_list agent ! 0) \<and>
         cand_type (pair_local (check_list agent ! 0)) = Host)"

lemma form_check_list_sorted: "test_form_check_list_sorted"
proof -
  let ?r = "candidate_new Host (loopback 2000) 100"
  let ?p = "\<lambda>t a. pair_new (candidate_new t (loopback a) 100) ?r Controlling"
  have prio: "unat (pair_prio (?p t a)) = rfc_pair_priority
      (unat (cand_priority (candidate_new t (loopback a) 100))) (unat (cand_priority ?r))" for t a
    unfolding pair_new_def candidate_pair.simps by (intro unat_pair_priority(1) candidate_priority_nat(2)) simp_all
  have le: "unat (pair_prio (?p ServerReflexive 1001)) \<le> unat (pair_prio (?p Host 1000))"
    unfolding prio by (simp add: candidate_priority_nat(1) rfc_pair_priority_def type_preference_def)
  let ?agent = "set_remote_candidates [?r] (add_local_candidate (candidate_new ServerReflexive (loopback 1001) 100)
      (add_local_candidate (candidate_new Host (loopback 1000) 100) (ice_agent_new Controlling)))"
  have "form_pairs ?agent = [?p Host 1000, ?p ServerReflexive 1001]"
    by (simp add: form_pairs_def set_remote_candidates_def add_local_candidate_def ice_agent_new_def is_ipv4_def loopback_def)
  then have cl: "check_list (form_check_list ?agent) = [?p Host 1000, ?p ServerReflexive 1001]"
    using le by (simp add: form_check_list_def word_le_nat_alt[symmetric] word_le_def)
  show ?thesis unfolding test_form_check_list_sorted_def Let_def cl
    using le by (simp add: word_le_nat_alt) (simp add: pair_new_def candidate_new_def)
qed

definition test_connectivity_check_loopback :: "(nat \<Rightarrow> bytes) \<Rightarrow> socket_addr \<Rightarrow> socket_addr \<Rightarrow> bool" where
  "test_connectivity_check_loopback tid responder_addr checker_local =
     (let agent = ice_agent_new Controlling;
          agent = add_local_candidate (candidate_new Host checker_local 65535) agent;
          agent = set_remote_candidates [candidate_new Host responder_addr 65535] agent;
          agent = form_check_list agent;
          check = (\<lambda>i target. discover_with_socket (responder_net checker_local) (tid i) target)
      in case fst (run_checks check agent) of
           None \<Rightarrow> False
         | Some p \<Rightarrow> pair_state p = Succeeded)"

lemma connectivity_check_loopback:
  assumes "\<And>i. length (tid i) = 12"
  shows "test_connectivity_check_loopback tid (loopback p) (loopback q)"
proof -
  have "discover_with_socket (responder_net (loopback q)) (tid 0) (loopback p) = Inr (loopback q)"
    by (rule discover_from_responder[OF assms]) (simp_all add: loopback_def)
  then show ?thesis
    by (simp add: test_connectivity_check_loopback_def Let_def form_check_list_def form_pairs_def run_checks_def
        set_remote_candidates_def add_local_candidate_def ice_agent_new_def candidate_new_def pair_new_def
        is_ipv4_def loopback_def)
qed

section \<open>\<^verbatim>\<open>holepunch.rs\<close>\<close>

text \<open>
  \<open>local_addr\<close> is the system's answer to the question for the bound address.  In the second
  test, \<open>env'\<close> is the system with the first socket open.
\<close>

definition test_bind_reusable_succeeds :: "bool \<Rightarrow> bind_env \<Rightarrow> (reusable_socket \<Rightarrow> socket_addr option) \<Rightarrow> bool" where
  "test_bind_reusable_succeeds linux env local_addr =
     (case bind_reusable linux env 0 of
        Inl _ \<Rightarrow> False
      | Inr sock \<Rightarrow> (case local_addr sock of None \<Rightarrow> False | Some addr \<Rightarrow> 0 < port addr))"

definition test_bind_reusable_same_port_twice ::
  "bind_env \<Rightarrow> (reusable_socket \<Rightarrow> bind_env) \<Rightarrow> (reusable_socket \<Rightarrow> socket_addr option) \<Rightarrow> bool" where
  "test_bind_reusable_same_port_twice env env' local_addr =
     (case bind_reusable True env 0 of
        Inl _ \<Rightarrow> False
      | Inr s1 \<Rightarrow>
          (case local_addr s1 of
             None \<Rightarrow> False
           | Some addr \<Rightarrow> (case bind_reusable True (env' s1) (port addr) of Inl _ \<Rightarrow> False | Inr _ \<Rightarrow> True)))"

definition test_discover_via_loopback_stun :: "punch_env \<Rightarrow> socket_addr \<Rightarrow> bool" where
  "test_discover_via_loopback_stun env stun_addr =
     (let config = hole_punch_config_default\<lparr>stun_servers := [stun_addr]\<rparr>
      in case discover env config 0 of
           Inl _ \<Rightarrow> False
         | Inr endpoint \<Rightarrow> 0 < port (ep_public_addr endpoint) \<and>
             port (ep_public_addr endpoint) = port (ep_local_addr endpoint))"

text \<open>
  A system that lets calls succeed: the port it picks for port 0 is not 0, and an address held by
  a socket can be bound again if that socket has \<open>SO_REUSEPORT\<close>.
\<close>

definition calls_succeed :: "bind_env \<Rightarrow> bool" where
  "calls_succeed env \<longleftrightarrow> sock_new_ok env \<and> sock_reuse_addr_ok env \<and> sock_reuse_port_ok env \<and>
     sock_nonblocking_ok env \<and> sock_from_std_ok env"

lemma bind_reusable_passes:
  assumes "calls_succeed env" "sock_bind_ok env \<lparr>ip = V4 0, port = 0\<rparr>"
    "\<And>s. \<exists>a. local_addr s = Some a \<and> 0 < port a"
    "\<And>s. calls_succeed (env' s)" "\<And>s a. has_reuse_port s \<Longrightarrow> sock_bind_ok (env' s) a"
  shows "test_bind_reusable_succeeds linux env local_addr"
    "test_bind_reusable_same_port_twice env env' local_addr"
proof -
  let ?s = "\<lambda>l. \<lparr>bound_to = \<lparr>ip = V4 0, port = 0\<rparr>, has_reuse_addr = True, has_reuse_port = l, is_nonblocking = True\<rparr>"
  have b: "bind_reusable l env 0 = Inr (?s l)" for l
    using assms(1,2) by (simp add: bind_reusable_def calls_succeed_def)
  obtain a where "local_addr (?s linux) = Some a" "0 < port a" using assms(3)[of "?s linux"] by blast
  then show "test_bind_reusable_succeeds linux env local_addr" by (simp add: test_bind_reusable_succeeds_def b)
  obtain a where "local_addr (?s True) = Some a" using assms(3)[of "?s True"] by blast
  then show "test_bind_reusable_same_port_twice env env' local_addr"
    using assms(4)[of "?s True"] assms(5)[of "?s True"]
    by (simp add: test_bind_reusable_same_port_twice_def b) (simp add: bind_reusable_def calls_succeed_def Let_def)
qed

section \<open>\<^verbatim>\<open>turn.rs\<close>\<close>

definition test_hmac_key_derivation :: "turn_crypto \<Rightarrow> bool" where
  "test_hmac_key_derivation lib =
     (derive_key lib (lit ''user'') (lit ''example.org'') (lit ''password'') =
      md5 lib (lit ''user:example.org:password''))"

definition test_message_integrity_deterministic :: "turn_crypto \<Rightarrow> bool" where
  "test_message_integrity_deterministic lib =
     (let key = replicate 16 0;
          msg = lit ''test stun message bytes'';
          mi1 = message_integrity lib key msg;
          mi2 = message_integrity lib key msg
      in mi1 = mi2 \<and> length mi1 = 20)"

definition test_channel_data_encode :: "bool \<Rightarrow> bool" where
  "test_channel_data_encode bind_ok =
     (case turn_client_new bind_ok (loopback 3478) (lit ''user'') (lit ''pass'') of
        Inl _ \<Rightarrow> False
      | Inr client \<Rightarrow>
          let client = client\<lparr>channels := (channels client)(0x4000 \<mapsto> loopback 9)\<rparr>;
              data = lit ''hello relay'';
              frame = be_bytes (0x4000 :: u16) @ be_bytes (of_nat (length data) :: u16) @ data
          in slice 0 2 frame = [0x40, 0x00] \<and>
             slice 2 4 frame = [of_nat (drop_bit 8 (length data)), of_nat (length data)])"

lemma turn_tests_pass:
  "test_hmac_key_derivation lib"
  "turn_crypto_ok lib \<Longrightarrow> test_message_integrity_deterministic lib"
  "test_channel_data_encode True"
  by (simp_all add: test_hmac_key_derivation_def derive_key_def lit_def test_message_integrity_deterministic_def
      message_integrity_def turn_crypto_ok_def test_channel_data_encode_def turn_client_new_def be_bytes_u16 slice_def
      Let_def drop_bit_eq_div)

section \<open>\<^verbatim>\<open>lib.rs\<close>\<close>

definition test_traversal_engine_discover :: "punch_env \<Rightarrow> socket_addr \<Rightarrow> bool" where
  "test_traversal_engine_discover env stun_addr =
     (let engine = traversal_engine_new (hole_punch_config_default\<lparr>stun_servers := [stun_addr]\<rparr>)
      in case discover_endpoint env engine 0 of
           Inl _ \<Rightarrow> False
         | Inr endpoint \<Rightarrow> 0 < port (ep_public_addr endpoint))"

definition test_traversal_engine_connect_loopback :: "punch_env \<Rightarrow> socket_addr \<Rightarrow> socket_addr \<Rightarrow> bool" where
  "test_traversal_engine_connect_loopback env stun_addr peer_stun =
     (let engine = traversal_engine_new
            \<lparr>stun_servers = [stun_addr], turn_cfg = None, attempts = 3, attempt_interval_ms = 50\<rparr>
      in case connect env engine peer_stun 0 of
           Return (Inr result) \<Rightarrow> \<not> relay_used result \<and> peer_addr result = peer_stun
         | _ \<Rightarrow> False)"

text \<open>On loopback a datagram arrives from the port that the socket is bound to.\<close>

lemma loopback_tests_pass:
  assumes "all_answer env (loopback p)" "bound_addr env 0 = Some \<lparr>ip = V4 0, port = p\<rparr>" "p \<noteq> 0"
  shows "test_discover_via_loopback_stun env stun_addr"
    "test_traversal_engine_discover env stun_addr"
    "test_traversal_engine_connect_loopback env stun_addr (loopback q)"
proof -
  have v4: "is_ipv4 \<lparr>ip = V4 0, port = p\<rparr>" "is_ipv4 (loopback q)" by (simp_all add: is_ipv4_def loopback_def)
  have pos: "0 < port (loopback p)" using assms(3) by (simp add: loopback_def word_neq_0_conv)
  have q: "query_stun env 0 [stun_addr] = Some (loopback p)" by (simp add: all_answer_exchanges[OF assms(1)])
  then show "test_discover_via_loopback_stun env stun_addr" "test_traversal_engine_discover env stun_addr"
    using pos assms(2) by (simp_all add: test_discover_via_loopback_stun_def test_traversal_engine_discover_def
        discover_endpoint_def discover_def traversal_engine_new_def hole_punch_config_default_def loopback_def)
  show "test_traversal_engine_connect_loopback env stun_addr (loopback q)"
    using connect_without_relay[OF assms(1,2) v4, of "\<lparr>stun_servers = [stun_addr], turn_cfg = None, attempts = 3, attempt_interval_ms = 50\<rparr>"]
    by (simp add: test_traversal_engine_connect_loopback_def)
qed

end
