(* ===== verification/StorageTests.thy ===== *)
theory StorageTests
  imports NatMode Platforms Tests
begin

text \<open>
  The unit tests of \<^verbatim>\<open>crates/ioengine/src\<close>.  The files of the tests are too large to be evaluated, so
  the lemmas use what is proved of the packer, the reader and the writer in general.  A test on
  real files takes the file system as arguments: what a file holds, and how many bytes each
  system call moves.
\<close>

section \<open>\<^verbatim>\<open>packer.rs\<close>\<close>

text \<open>\<open>format!("{i:05}")\<close> for numbers of at most five digits.\<close>

definition decimal5 :: "nat \<Rightarrow> bytes" where
  "decimal5 i = map (\<lambda>k. of_nat (48 + i div 10 ^ k mod 10)) [4, 3, 2, 1, 0]"

definition make_files :: "nat \<Rightarrow> nat \<Rightarrow> (path \<times> bytes) list" where
  "make_files n sz =
     map (\<lambda>i. (lit ''dir/file_'' @ decimal5 i @ lit ''.bin'', replicate sz (of_nat (i mod 256)))) [0..<n]"

definition test_round_trip_small_files :: bool where
  "test_round_trip_small_files =
     (let files = make_files 500 512;
          blocks = pack_files files
      in length blocks = 1 \<and>
         (case unpack (blocks ! 0) of
            Return (Inr unpacked) \<Rightarrow> length unpacked = 500 \<and>
              list_all (\<lambda>((orig_path, orig_data), (unp_path, unp_data)). orig_path = unp_path \<and> orig_data = unp_data)
                (zip files unpacked)
          | _ \<Rightarrow> False))"

definition test_large_file_splits_into_blocks :: bool where
  "test_large_file_splits_into_blocks =
     (let big = replicate (40 * 1024 * 1024) 0xAB;
          blocks = pack_files [(lit ''bigfile.bin'', big)]
      in length blocks = 3 \<and>
         list_all (\<lambda>block. case unpack block of
             Return (Inr entries) \<Rightarrow> length entries = 1 \<and> fst (entries ! 0) = lit ''bigfile.bin'' \<and> blk_data block \<noteq> []
           | _ \<Rightarrow> False) blocks)"

definition test_manifest_magic_check :: bool where
  "test_manifest_magic_check =
     (let files = make_files 1 16;
          blocks = pack_files files;
          bad_data = (blk_data (blocks ! 0))[0 := 0xFF, 1 := 0xFF];
          blocks = blocks[0 := \<lparr>blk_id = blk_id (blocks ! 0), blk_data = bad_data\<rparr>]
      in case unpack (blocks ! 0) of Return (Inl _) \<Rightarrow> True | _ \<Rightarrow> False)"

definition test_many_files_create_multiple_blocks :: bool where
  "test_many_files_create_multiple_blocks =
     (let files = make_files 1000 (20 * 1024);
          blocks = pack_files files;
          recovered = fold (\<lambda>block recovered. case recovered of
              None \<Rightarrow> None
            | Some r \<Rightarrow> (case unpack block of Return (Inr es) \<Rightarrow> Some (r @ es) | _ \<Rightarrow> None)) blocks (Some [])
      in 2 \<le> length blocks \<and> (case recovered of None \<Rightarrow> False | Some r \<Rightarrow> length r = 1000))"

text \<open>The files of the tests can be packed.\<close>

lemma decimal5_ascii: "\<forall>b\<in>set (decimal5 i). b < 0x80"
proof -
  have "of_nat (48 + d mod 10) < (0x80 :: u8)" for d
  proof -
    have d: "48 + d mod 10 < 128" using mod_less_divisor[of 10 d] by linarith
    then have "unat (of_nat (48 + d mod 10) :: u8) = 48 + d mod 10" by (intro unat_of_nat_small) simp
    then show ?thesis unfolding word_less_nat_alt using d by (simp only: unat_numeral) simp
  qed
  then show ?thesis by (simp add: decimal5_def)
qed

lemma make_files_ok:
  assumes "f \<in> set (make_files n sz)" "sz \<le> BLOCK_SIZE"
  shows "file_ok f" "length (snd f) = sz"
proof -
  obtain i where f: "f = (lit ''dir/file_'' @ decimal5 i @ lit ''.bin'', replicate sz (of_nat (i mod 256)))"
    using assms(1) by (auto simp: make_files_def)
  have "\<forall>b\<in>set (lit ''dir/file_'' @ decimal5 i @ lit ''.bin''). b < 0x80"
    using decimal5_ascii[of i] by (simp add: lit_def)
  then show "file_ok f" using assms(2) unfolding f file_ok_def path_ok_def BLOCK_SIZE_def
    by (simp add: from_utf8_ascii decimal5_def)
  show "length (snd f) = sz" by (simp add: f)
qed

lemma length_make_files [simp]: "length (make_files n sz) = n"
  by (simp add: make_files_def)

lemma make_files_Nil [simp]: "make_files n sz = [] \<longleftrightarrow> n = 0"
  by (simp add: make_files_def)

lemma total_make_files: "length (concat (map snd (make_files n sz))) = n * sz"
  by (simp add: make_files_def length_concat comp_def sum_list_triv)

text \<open>Files that are not split come back as they are; a few small ones share one block.\<close>

lemma unpack_whole_files:
  assumes "\<forall>f\<in>set files. file_ok f \<and> length (snd f) \<le> BLOCK_SIZE" "length files < 2 ^ 32"
  obtains ys where "map unpack (pack_files files) = map (\<lambda>y. Return (Inr y)) ys" "concat ys = files"
    "\<forall>y\<in>set ys. length (concat (map snd y)) \<le> BLOCK_SIZE"
proof -
  have ok: "\<forall>f\<in>set files. file_ok f" using assms(1) by blast
  obtain xs where xs: "blocks_read (pack_files files) xs" "map piece_of (concat xs) = concat (map file_parts files)"
    using pack_files_entries[OF ok assms(2)] by blast
  define h where "h = (\<lambda>(e :: file_entry, d :: bytes). (f_path e, d))"
  define g where "g = (\<lambda>(p :: path, i :: nat, n :: nat, d :: bytes). (p, d))"
  have gh: "g \<circ> piece_of = h" by (auto simp: g_def h_def piece_of_def)
  have "map g (concat (map file_parts files)) = files"
    using assms(1) by (induction files) (auto simp: file_parts_def g_def)
  then have "map h (concat xs) = files" using xs(2) gh by (metis map_map)
  moreover have "map unpack (pack_files files) = map (\<lambda>y. Return (Inr y)) (map (map h) xs)"
  proof -
    define f where "f = (\<lambda>r :: (pack_error + (file_entry \<times> bytes) list) outcome. case r of Panic \<Rightarrow> Panic | Return (Inl e) \<Rightarrow> Return (Inl e) | Return (Inr xs) \<Rightarrow> Return (Inr (map h xs)))"
    have "map unpack (pack_files files) = map f (map unpack_entries (pack_files files))"
      by (simp add: unpack_def f_def h_def)
    moreover have "map unpack_entries (pack_files files) = map (\<lambda>x. Return (Inr x)) xs"
      using xs(1) unfolding blocks_read_def by blast
    ultimately show ?thesis by (simp only:) (simp add: f_def)
  qed
  moreover have "\<forall>y\<in>set (map (map h) xs). length (concat (map snd y)) \<le> BLOCK_SIZE"
  proof -
    have "snd \<circ> h = snd" by (auto simp: h_def)
    then show ?thesis using xs(1) by (simp add: blocks_read_def)
  qed
  ultimately show thesis by (intro that[of "map (map h) xs"]) (simp_all add: map_concat)
qed

lemma pack_file_fits:
  "length (acc_payload a) + length b \<le> BLOCK_SIZE \<Longrightarrow> \<exists>es. pack_file (p, b) a =
     a\<lparr>acc_payload := acc_payload a @ b, acc_entries := acc_entries a @ [es]\<rparr>"
  by (auto simp: pack_file_def Let_def)

lemma fold_small:
  assumes "acc_blocks a = []" "length (acc_payload a) + length (concat (map snd fs)) \<le> BLOCK_SIZE"
  shows "acc_blocks (fold pack_file fs a) = [] \<and> (fs \<noteq> [] \<or> acc_entries a \<noteq> [] \<longrightarrow> acc_entries (fold pack_file fs a) \<noteq> [])"
  using assms
proof (induction fs arbitrary: a)
  case (Cons f fs)
  obtain p b where f: "f = (p, b)" by fastforce
  obtain es where "pack_file f a = a\<lparr>acc_payload := acc_payload a @ b, acc_entries := acc_entries a @ [es]\<rparr>"
    using pack_file_fits[of a b p] Cons.prems(2) by (auto simp: f)
  then show ?case using Cons.prems Cons.IH[of "pack_file f a"] by (simp add: f)
qed simp

lemma pack_one_block:
  assumes "files \<noteq> []" "length (concat (map snd files)) \<le> BLOCK_SIZE"
  shows "length (pack_files files) = 1"
proof -
  let ?a = "\<lparr>next_block_id = 0, acc_entries = [], acc_payload = [], acc_blocks = []\<rparr>"
  show ?thesis using fold_small[of ?a files] assms unfolding pack_files_def flush_def by simp
qed

lemma unpack_one_block:
  assumes "\<forall>f\<in>set files. file_ok f" "length files < 2 ^ 32" "files \<noteq> []" "length (concat (map snd files)) \<le> BLOCK_SIZE"
  shows "\<exists>b. pack_files files = [b] \<and> unpack b = Return (Inr files)"
proof -
  have "length (snd f) \<le> BLOCK_SIZE" if "f \<in> set files" for f
    using assms(4) member_le_sum_list[of "length (snd f)" "map (length \<circ> snd) files"] that
    by (simp add: length_concat comp_def)
  then obtain ys where ys: "map unpack (pack_files files) = map (\<lambda>y. Return (Inr y)) ys" "concat ys = files"
    using unpack_whole_files[of files] assms(1,2) by blast
  obtain b where b: "pack_files files = [b]"
    using pack_one_block[OF assms(3,4)] by (metis One_nat_def length_0_conv length_Suc_conv)
  then obtain y where "ys = [y]" "unpack b = Return (Inr y)" using ys(1) by auto
  then show ?thesis using b ys(2) by simp
qed

lemma round_trip_small_files: "test_round_trip_small_files"
proof -
  have sz: "512 \<le> BLOCK_SIZE" by (simp add: BLOCK_SIZE_def)
  have "length (concat (map snd (make_files 500 512))) \<le> BLOCK_SIZE"
    unfolding total_make_files by (simp add: BLOCK_SIZE_def)
  moreover have "make_files 500 512 \<noteq> []" by simp
  ultimately obtain b where b: "pack_files (make_files 500 512) = [b]" "unpack b = Return (Inr (make_files 500 512))"
    using unpack_one_block[of "make_files 500 512"] make_files_ok(1)[OF _ sz] by auto
  have "list_all (\<lambda>((p, d), (p', d')). p = p' \<and> d = d') (zip fs fs)" for fs :: "(path \<times> bytes) list"
    by (auto simp: list_all_iff zip_same_conv_map)
  then show ?thesis unfolding test_round_trip_small_files_def Let_def b(1) using b(2) by simp
qed

lemma many_files_create_multiple_blocks: "test_many_files_create_multiple_blocks"
proof -
  let ?files = "make_files 1000 (20 * 1024)"
  have sz: "20 * 1024 \<le> BLOCK_SIZE" by (simp add: BLOCK_SIZE_def)
  have "\<forall>f\<in>set ?files. file_ok f \<and> length (snd f) \<le> BLOCK_SIZE"
    using make_files_ok[OF _ sz] sz by fastforce
  then obtain ys where ys: "map unpack (pack_files ?files) = map (\<lambda>y. Return (Inr y)) ys" "concat ys = ?files"
    "\<forall>y\<in>set ys. length (concat (map snd y)) \<le> BLOCK_SIZE"
    by (rule unpack_whole_files) (simp add: length_make_files)
  have len: "length (pack_files ?files) = length ys" using arg_cong[OF ys(1), of length] by simp
  have two: "2 \<le> length ys"
  proof (rule ccontr)
    assume "\<not> 2 \<le> length ys"
    then have "ys = [] \<or> (\<exists>y. ys = [y])" by (cases ys rule: list.exhaust; cases "tl ys") auto
    then have "length (concat (map snd ?files)) \<le> BLOCK_SIZE" using ys(2,3) by auto
    then show False unfolding total_make_files by (simp add: BLOCK_SIZE_def)
  qed
  have rec: "fold (\<lambda>block recovered. case recovered of None \<Rightarrow> None
      | Some r \<Rightarrow> (case unpack block of Return (Inr es) \<Rightarrow> Some (r @ es) | _ \<Rightarrow> None)) bs (Some r) = Some (r @ concat zs)"
    if "map unpack bs = map (\<lambda>y. Return (Inr y)) zs" for bs r zs
    using that
  proof (induction bs arbitrary: r zs)
    case (Cons b bs)
    then obtain z zs' where "zs = z # zs'" by (cases zs) auto
    then show ?case using Cons by simp
  qed simp
  show ?thesis unfolding test_many_files_create_multiple_blocks_def Let_def rec[OF ys(1)] ys(2)
    using two len by simp
qed

text \<open>A split file: one block per part, each with the one entry.\<close>

lemma pack_parts_blocks:
  assumes "\<forall>c\<in>set cs. length c \<le> BLOCK_SIZE" "path_ok (path, [])" "k + length cs < 2 ^ 32" "parts < 2 ^ 32"
  shows "\<exists>bs. acc_blocks (pack_parts path (of_nat parts) k cs a) = acc_blocks a @ bs \<and> length bs = length cs \<and>
    (\<forall>b\<in>set bs. \<exists>c. unpack b = Return (Inr [(path, c)])) \<and>
    acc_entries (pack_parts path (of_nat parts) k cs a) = acc_entries a"
  using assms(1,3)
proof (induction cs arbitrary: a k)
  case (Cons c cs)
  define e where "e = \<lparr>f_path = path, f_offset = 0, f_size = of_nat (length c), part_index = of_nat k, total_parts = of_nat parts\<rparr>"
  let ?b = "\<lparr>blk_id = next_block_id a, blk_data = serialise_block (next_block_id a) [e] c\<rparr>"
  let ?a1 = "a\<lparr>acc_blocks := acc_blocks a @ [?b], next_block_id := next_block_id a + 1\<rparr>"
  have "unpack_entries ?b = Return (Inr [(e, c)])"
    using unpack_part[of path c k parts "next_block_id a" "next_block_id a"] Cons.prems assms(2,4)
    by (simp add: e_def path_ok_def)
  then have "unpack ?b = Return (Inr [(path, c)])" by (simp add: unpack_def e_def)
  moreover obtain bs where "acc_blocks (pack_parts path (of_nat parts) (Suc k) cs ?a1) = acc_blocks ?a1 @ bs"
    "length bs = length cs" "\<forall>b\<in>set bs. \<exists>c. unpack b = Return (Inr [(path, c)])"
    "acc_entries (pack_parts path (of_nat parts) (Suc k) cs ?a1) = acc_entries ?a1"
    using Cons.IH[of "Suc k" ?a1] Cons.prems by auto
  moreover have "pack_parts path (of_nat parts) k (c # cs) a = pack_parts path (of_nat parts) (Suc k) cs ?a1"
    by (simp add: e_def Let_def)
  ultimately show ?case by (intro exI[of _ "?b # bs"]) simp
qed simp

lemma pack_split_file:
  assumes "file_ok (path, bytes)" "BLOCK_SIZE < length bytes"
  shows "length (pack_files [(path, bytes)]) = div_ceil (length bytes) BLOCK_SIZE"
    "b \<in> set (pack_files [(path, bytes)]) \<Longrightarrow> \<exists>c. unpack b = Return (Inr [(path, c)])"
proof -
  let ?cs = "chunks BLOCK_SIZE bytes" and ?a = "\<lparr>next_block_id = 0, acc_entries = [], acc_payload = [], acc_blocks = []\<rparr>"
  have pos: "0 < BLOCK_SIZE" by (simp add: BLOCK_SIZE_def)
  have n: "div_ceil (length bytes) BLOCK_SIZE = length ?cs" by (rule div_ceil_chunks[OF pos])
  have "length ?cs \<le> (2 ^ 55 + BLOCK_SIZE - 1) div BLOCK_SIZE" unfolding length_chunks[OF pos]
    using assms(1) by (intro div_le_mono diff_le_mono add_le_mono) (simp_all add: file_ok_def)
  also have "\<dots> < 2 ^ 32" by (simp add: BLOCK_SIZE_def)
  finally have small: "length ?cs < 2 ^ 32" .
  obtain bs where bs: "acc_blocks (pack_parts path (of_nat (length ?cs)) 0 ?cs ?a) = bs" "length bs = length ?cs"
    "\<forall>b\<in>set bs. \<exists>c. unpack b = Return (Inr [(path, c)])" "acc_entries (pack_parts path (of_nat (length ?cs)) 0 ?cs ?a) = []"
    using pack_parts_blocks[of ?cs path 0 "length ?cs" ?a] chunks_length[of _ BLOCK_SIZE bytes] assms(1) small
    by (auto simp: file_ok_def path_ok_def)
  have "pack_files [(path, bytes)] = bs"
    using assms(2) bs(1,4) by (simp add: pack_files_def pack_file_def n flush_def)
  then show "length (pack_files [(path, bytes)]) = div_ceil (length bytes) BLOCK_SIZE"
    "b \<in> set (pack_files [(path, bytes)]) \<Longrightarrow> \<exists>c. unpack b = Return (Inr [(path, c)])"
    using bs n by simp_all
qed

text \<open>A buffer that does not begin with the magic number does not unpack.\<close>

lemma read_manifest_magic:
  assumes "read_manifest buf = Inr r"
  shows "take 4 buf = le_bytes MAGIC"
proof -
  obtain m pos where m: "read_u32 buf 0 = Inr (m, pos)" "m = MAGIC"
    using assms by (auto simp: read_manifest_def and_then_def split: sum.splits prod.splits if_splits)
  then have "4 \<le> length buf" "of_le_bytes (take 4 buf) = MAGIC"
    by (auto simp: read_u32_def read_bytes_def slice_def split: if_splits)
  then show ?thesis using le_bytes_of_le_bytes[of "take 4 buf", where 'a = 32] by simp
qed

lemma unpack_bad_magic:
  assumes "take 1 (blk_data b) \<noteq> [0x58]"
  shows "\<exists>e. unpack b = Return (Inl e)"
proof -
  have "le_bytes MAGIC = [0x58, 0x50, 0x44, 0x55]" by (simp add: le_bytes_def MAGIC_def upt_rec)
  then have "take 4 (blk_data b) \<noteq> le_bytes MAGIC" using assms by (cases "blk_data b") auto
  then obtain e where "read_manifest (blk_data b) = Inl e"
    using read_manifest_magic[of "blk_data b"] by (cases "read_manifest (blk_data b)") auto
  then show ?thesis by (simp add: unpack_def unpack_entries_def)
qed

lemma large_file_splits_into_blocks: "test_large_file_splits_into_blocks"
proof -
  define big where "big = replicate (40 * 1024 * 1024) (0xAB :: u8)"
  have len: "length big = 40 * 1024 * 1024" unfolding big_def by (rule length_replicate)
  have ok: "file_ok (lit ''bigfile.bin'', big)"
    unfolding file_ok_def path_ok_def fst_conv snd_conv len by (simp add: from_utf8_ascii lit_def)
  have large: "BLOCK_SIZE < length big" unfolding len by (simp add: BLOCK_SIZE_def)
  have "blk_data b \<noteq> []" if "unpack b = Return (Inr es)" for b es
    using unpack_bad_magic[of b] that by fastforce
  then show ?thesis unfolding test_large_file_splits_into_blocks_def Let_def big_def[symmetric]
    using pack_split_file[OF ok large] unfolding len
    by (fastforce simp: list_all_iff div_ceil_def BLOCK_SIZE_def)
qed

lemma manifest_magic_check: "test_manifest_magic_check"
proof -
  let ?fs = "make_files 1 16"
  have "length (concat (map snd ?fs)) \<le> BLOCK_SIZE" unfolding total_make_files by (simp add: BLOCK_SIZE_def)
  moreover have "?fs \<noteq> []" by simp
  ultimately obtain b where b: "pack_files ?fs = [b]" using pack_one_block by (metis One_nat_def length_0_conv length_Suc_conv)
  have "take 1 ((blk_data b)[0 := 0xFF, 1 := 0xFF]) \<noteq> [0x58]" by (cases "blk_data b") simp_all
  then obtain e where "unpack \<lparr>blk_id = blk_id b, blk_data = (blk_data b)[0 := 0xFF, 1 := 0xFF]\<rparr> = Return (Inl e)"
    using unpack_bad_magic[of "\<lparr>blk_id = blk_id b, blk_data = (blk_data b)[0 := 0xFF, 1 := 0xFF]\<rparr>"] by auto
  then show ?thesis unfolding test_manifest_magic_check_def Let_def b by simp
qed

section \<open>\<^verbatim>\<open>reader.rs\<close>\<close>

definition test_reads_temp_file :: "(path \<Rightarrow> nat \<Rightarrow> nat \<Rightarrow> int) \<Rightarrow> (path \<rightharpoonup> nat \<times> bytes) \<Rightarrow> path \<Rightarrow> bool" where
  "test_reads_temp_file k fs dir =
     (let path = join dir (lit ''hello.txt'');
          content = lit ''io_uring reader test payload'';
          fs = fs(path \<mapsto> (length content, content))
      in case read_large_file k fs True path of
           Some (Inr (sent, SendChunk data # _)) \<Rightarrow>
             unat sent = length content \<and>
             (case unpack \<lparr>blk_id = 0, blk_data = data\<rparr> of
                Return (Inr entries) \<Rightarrow> length entries = 1 \<and> snd (entries ! 0) = content
              | _ \<Rightarrow> False)
         | _ \<Rightarrow> False)"

definition five_files :: "(path \<times> bytes) list" where
  "five_files = map (\<lambda>i. (lit ''f'' @ [48 + of_nat i] @ lit ''.bin'', replicate 128 (of_nat i))) [0..<5]"

text \<open>\<open>es\<close> is the directory with the five files, in the order in which the system lists them.\<close>

definition test_stream_directory_sends_all_files ::
  "(path \<Rightarrow> nat \<Rightarrow> nat \<Rightarrow> int) \<Rightarrow> (path \<rightharpoonup> nat \<times> bytes) \<Rightarrow> path \<Rightarrow> (path \<times> node) list \<Rightarrow> bool" where
  "test_stream_directory_sends_all_files k fs dir es =
     (case stream_directory k fs True dir (Directory es) of
        Some (Inr (sent, cmds)) \<Rightarrow> sent = 5 * 128 \<and> cmds \<noteq> []
      | _ \<Rightarrow> False)"

lemma read_file_whole: "progress k \<Longrightarrow> read_file_io_uring k (Some (length b, b)) = Some (Inr b)"
  using read_file_loop_ok[of k 0 b "replicate (length b) 0"] by (simp add: read_file_io_uring_def)

lemma file_name_join: "name_ok n \<Longrightarrow> n \<noteq> [46, 46] \<Longrightarrow> file_name (join dir n) = Some n"
proof -
  assume n: "name_ok n" "n \<noteq> [46, 46]"
  then obtain x where x: "join dir n = x @ n" "x = [] \<or> last x = 47"
    by (cases "dir = [] \<or> last dir = 47") (auto simp: join_def dest: name_okD)
  have "takeWhile (\<lambda>c. c \<noteq> 47) (rev n @ rev x) = rev n"
    using n(1) x(2) by (subst takeWhile_append2) (auto simp: name_ok_def, cases x rule: rev_cases, auto)
  moreover have "dropWhile (\<lambda>c. c = 47) (rev n @ rev x) = rev n @ rev x"
    using n(1) by (cases n rule: rev_cases) (auto simp: name_ok_def)
  ultimately show ?thesis using n x(1) by (simp add: file_name_def name_ok_def)
qed

lemma reads_temp_file:
  assumes "progress (k (join dir (lit ''hello.txt'')))"
  shows "test_reads_temp_file k fs dir"
proof -
  define content where "content = lit ''io_uring reader test payload''"
  let ?p = "join dir (lit ''hello.txt'')" and ?f = "(lit ''hello.txt'', content)"
  have len: "length content = 28" by (simp add: content_def)
  have name: "name_ok (lit ''hello.txt'')" "lit ''hello.txt'' \<noteq> [46, 46]" by (simp_all add: name_ok_def lit_def)
  have "file_ok ?f" unfolding file_ok_def path_ok_def fst_conv snd_conv len by (simp add: from_utf8_ascii lit_def)
  then obtain b where b: "pack_files [?f] = [b]" "unpack b = Return (Inr [?f])"
    using unpack_one_block[of "[?f]"] by (auto simp: len BLOCK_SIZE_def)
  have "read_large_file k (fs(?p \<mapsto> (length content, content))) True ?p = Some (Inr (28, [SendChunk (blk_data b)]))"
    using read_file_whole[OF assms, of content] b(1) len
    by (simp add: read_large_file_def file_name_join[OF name] ship_def)
  moreover have "unpack \<lparr>blk_id = 0, blk_data = blk_data b\<rparr> = Return (Inr [?f])"
    using b(2) by (simp add: unpack_def unpack_entries_id)
  ultimately show ?thesis
    unfolding test_reads_temp_file_def Let_def content_def[symmetric] by (simp add: len)
qed

text \<open>What the tests find on the disk depends only on which files there are, not on their order.\<close>

lemma pack_files_Nil: "pack_files fs = [] \<Longrightarrow> \<forall>f\<in>set fs. file_ok f \<and> length (snd f) \<le> BLOCK_SIZE \<Longrightarrow> length fs < 2 ^ 32 \<Longrightarrow> fs = []"
  by (elim unpack_whole_files) auto

lemma stream_directory_sends_all_files:
  assumes "tree_ok es" "\<forall>p. progress (k p)" "\<forall>(p, b)\<in>set (tree_files dir es). fs p = Some (length b, b)"
    "mset (tree_files [] es) = mset five_files"
  shows "test_stream_directory_sends_all_files k fs dir es"
proof -
  let ?files = "tree_files [] es"
  have set: "set ?files = set five_files" using assms(4) by (metis set_mset_mset)
  have size: "length ?files = 5" using arg_cong[OF assms(4), of size] by (simp add: five_files_def)
  have "mset (map (length \<circ> snd) ?files) = mset (map (length \<circ> snd) five_files)" using assms(4) by simp
  then have "(\<Sum>(p, b)\<leftarrow>?files. length b) = (\<Sum>(p, b)\<leftarrow>five_files. length b)"
    by (metis (no_types, lifting) comp_apply map_eq_conv split_beta' sum_mset_sum_list)
  also have "\<dots> = 640" by (simp add: five_files_def comp_def upt_rec)
  finally have total: "(\<Sum>(p, b)\<leftarrow>?files. length b) = 640" .
  have "\<forall>f\<in>set ?files. file_ok f \<and> length (snd f) \<le> BLOCK_SIZE" unfolding set
    by (simp add: five_files_def file_ok_def path_ok_def from_utf8_ascii lit_def BLOCK_SIZE_def upt_rec)
  then have "pack_files ?files \<noteq> []" using pack_files_Nil[of ?files] size by auto
  then show ?thesis using stream_directory_ok[OF assms(1-3)] size total
    by (simp add: test_stream_directory_sends_all_files_def)
qed

section \<open>\<^verbatim>\<open>writer.rs\<close>\<close>

text \<open>The writer's thread stores what the writer submitted; the test then looks at the disk.\<close>

definition disk_after :: "(path \<Rightarrow> nat \<Rightarrow> nat \<Rightarrow> int) \<Rightarrow> (path \<rightharpoonup> bytes) \<Rightarrow> (path \<times> bytes) list \<Rightarrow> (path \<rightharpoonup> bytes)" where
  "disk_after kw disk writes =
     (case io_uring_write_loop (\<lambda>_. Opened) kw (map Some writes @ [None]) disk of None \<Rightarrow> disk | Some (_, disk') \<Rightarrow> disk')"

definition test_writes_and_reads_back ::
  "writer_env \<Rightarrow> poll list \<Rightarrow> (path \<Rightarrow> nat \<Rightarrow> nat \<Rightarrow> int) \<Rightarrow> (path \<rightharpoonup> bytes) \<Rightarrow> bool" where
  "test_writes_and_reads_back env final kw disk =
     (let files = [(lit ''a/hello.txt'', lit ''hello world''), (lit ''b/data.bin'', replicate 256 0xCA)];
          blocks = pack_files files
      in length blocks = 1 \<and>
         (case receive_and_write env final [blk_data (blocks ! 0)] of
            Some (Return (Inr (written, writes))) \<Rightarrow>
              written = of_nat (length (lit ''hello world'') + 256) \<and>
              disk_after kw disk writes (join (output_dir env) (lit ''a/hello.txt'')) = Some (lit ''hello world'') \<and>
              disk_after kw disk writes (join (output_dir env) (lit ''b/data.bin'')) = Some (replicate 256 0xCA)
          | _ \<Rightarrow> False))"

definition test_creates_intermediate_directories ::
  "writer_env \<Rightarrow> poll list \<Rightarrow> (path \<Rightarrow> nat \<Rightarrow> nat \<Rightarrow> int) \<Rightarrow> (path \<rightharpoonup> bytes) \<Rightarrow> bool" where
  "test_creates_intermediate_directories env final kw disk =
     (let files = [(lit ''deep/nested/path/file.txt'', lit ''content'')];
          blocks = pack_files files
      in case receive_and_write env final [blk_data (blocks ! 0)] of
           Some (Return (Inr (written, writes))) \<Rightarrow>
             disk_after kw disk writes (join (output_dir env) (lit ''deep/nested/path/file.txt'')) \<noteq> None
         | _ \<Rightarrow> False)"

lemma disk_after_writes:
  assumes "\<forall>p. progress (kw p)" "distinct (map fst files)" "\<forall>(p, b)\<in>set files. p \<noteq> [] \<and> hd p \<noteq> 47" "(p, b) \<in> set files"
  shows "disk_after kw disk (map (\<lambda>(p, b). (join out p, b)) files) (join out p) = Some b"
  using written_disk(1)[OF order_refl assms(2,3,4), of out disk] write_thread_ok[of "\<lambda>_. Opened" kw "map (\<lambda>(p, b). (join out p, b)) files" disk] assms(1)
  by (simp add: disk_after_def)

lemma receive_one_block:
  assumes "env_ok env" "\<forall>f\<in>set files. file_ok f" "length files < 2 ^ 32" "files \<noteq> []"
    "length (concat (map snd files)) \<le> BLOCK_SIZE" "\<forall>p\<in>set final. poll_ok p" "length files \<le> length final"
  shows "length (pack_files files) = 1"
    "receive_and_write env final [blk_data (pack_files files ! 0)] =
       Some (Return (Inr (of_nat (\<Sum>(p, b)\<leftarrow>files. length b), map (\<lambda>(p, b). (join (output_dir env) p, b)) files)))"
proof -
  obtain b where b: "pack_files files = [b]" using unpack_one_block[OF assms(2-5)] by blast
  then show "length (pack_files files) = 1" by simp
  show "receive_and_write env final [blk_data (pack_files files ! 0)] =
      Some (Return (Inr (of_nat (\<Sum>(p, b)\<leftarrow>files. length b), map (\<lambda>(p, b). (join (output_dir env) p, b)) files)))"
    using receive_packed[OF assms(1-3,6,7)] unfolding b by simp
qed

lemma writer_tests_pass:
  assumes "env_ok env" "\<forall>p\<in>set final. poll_ok p" "2 \<le> length final" "\<forall>p. progress (kw p)"
  shows "test_writes_and_reads_back env final kw disk" "test_creates_intermediate_directories env final kw disk"
proof -
  define big where "big = replicate 256 (0xCA :: u8)"
  have len: "length big = 256" unfolding big_def by (rule length_replicate)
  let ?fs = "[(lit ''a/hello.txt'', lit ''hello world''), (lit ''b/data.bin'', big)]"
  have ok: "\<forall>f\<in>set ?fs. file_ok f" by (simp add: file_ok_def path_ok_def len) (simp add: from_utf8_ascii lit_def)
  have rel: "distinct (map fst ?fs)" "\<forall>(p, b)\<in>set ?fs. p \<noteq> [] \<and> hd p \<noteq> 47" by (simp_all add: lit_def)
  have "length (concat (map snd ?fs)) \<le> BLOCK_SIZE" by (simp add: len BLOCK_SIZE_def)
  note rcv = receive_one_block[OF assms(1) ok _ _ this assms(2)]
  have "disk_after kw disk (map (\<lambda>(p, b). (join (output_dir env) p, b)) ?fs) (join (output_dir env) p) = Some b"
    if "(p, b) \<in> set ?fs" for p b by (rule disk_after_writes[OF assms(4) rel that])
  then show "test_writes_and_reads_back env final kw disk"
    unfolding test_writes_and_reads_back_def Let_def big_def[symmetric]
    using rcv assms(3) by (simp add: len)
next
  let ?fs = "[(lit ''deep/nested/path/file.txt'', lit ''content'')]"
  have ok: "\<forall>f\<in>set ?fs. file_ok f" by (simp add: file_ok_def path_ok_def from_utf8_ascii lit_def)
  have rel: "distinct (map fst ?fs)" "\<forall>(p, b)\<in>set ?fs. p \<noteq> [] \<and> hd p \<noteq> 47" by (simp_all add: lit_def)
  have "length (concat (map snd ?fs)) \<le> BLOCK_SIZE" by (simp add: BLOCK_SIZE_def)
  note rcv = receive_one_block[OF assms(1) ok _ _ this assms(2)]
  show "test_creates_intermediate_directories env final kw disk"
    unfolding test_creates_intermediate_directories_def Let_def
    using rcv assms(3) disk_after_writes[OF assms(4) rel, of _ _ disk "output_dir env"] by simp
qed

section \<open>\<^verbatim>\<open>lib.rs\<close>\<close>

definition engine_files :: "(path \<times> bytes) list" where
  "engine_files = [(lit ''alpha.txt'', lit ''hello from alpha''), (lit ''sub/beta.bin'', replicate 64 0xBE),
     (lit ''sub/gamma.bin'', replicate 128 0xCA)]"

text \<open>The bridge task forwards the payloads up to the shutdown.\<close>

fun bridge :: "sender_command list \<Rightarrow> bytes list" where
  "bridge [] = []"
| "bridge (SendChunk data # cmds) = data # bridge cmds"
| "bridge (Shutdown # cmds) = []"

definition test_engine_send_receive_loopback ::
  "(path \<Rightarrow> nat \<Rightarrow> nat \<Rightarrow> int) \<Rightarrow> (path \<rightharpoonup> nat \<times> bytes) \<Rightarrow> path \<Rightarrow> (path \<times> node) list \<Rightarrow>
   writer_env \<Rightarrow> poll list \<Rightarrow> (path \<Rightarrow> nat \<Rightarrow> nat \<Rightarrow> int) \<Rightarrow> (path \<rightharpoonup> bytes) \<Rightarrow> bool" where
  "test_engine_send_receive_loopback k fs src_root es env final kw disk =
     (case send_directory k fs True src_root (Directory es) of
        Some (Inr cmds) \<Rightarrow>
          (case receive_files env final (bridge cmds) of
             Some (Return (Inr writes)) \<Rightarrow>
               list_all (\<lambda>(name, expected). disk_after kw disk writes (join (output_dir env) name) = Some expected) engine_files
           | _ \<Rightarrow> False)
      | _ \<Rightarrow> False)"

lemma bridge_chunks: "bridge (map SendChunk ds @ [Shutdown]) = ds"
  by (induction ds) simp_all

lemma engine_send_receive_loopback:
  assumes "tree_ok es" "\<forall>p. progress (k p)" "\<forall>(p, b)\<in>set (tree_files src_root es). fs p = Some (length b, b)"
    "mset (tree_files [] es) = mset engine_files" "env_ok env" "\<forall>p\<in>set final. poll_ok p" "3 \<le> length final"
    "\<forall>p. progress (kw p)"
  shows "test_engine_send_receive_loopback k fs src_root es env final kw disk"
proof -
  let ?files = "tree_files [] es"
  have set: "set ?files = set engine_files" using assms(4) by (metis set_mset_mset)
  have size: "length ?files = 3" using arg_cong[OF assms(4), of size] by (simp add: engine_files_def)
  have ok: "\<forall>f\<in>set ?files. file_ok f" unfolding set
    by (simp add: engine_files_def file_ok_def path_ok_def from_utf8_ascii lit_def)
  have "mset (map fst ?files) = mset (map fst engine_files)" using assms(4) by simp
  moreover have "distinct (map fst engine_files)" by (simp add: engine_files_def lit_def)
  ultimately have dist: "distinct (map fst ?files)" by (metis mset_eq_imp_distinct_iff)
  have rel: "\<forall>(p, b)\<in>set ?files. p \<noteq> [] \<and> hd p \<noteq> 47" unfolding set by (simp add: engine_files_def lit_def)
  have "receive_files env final (map blk_data (pack_files ?files)) =
      Some (Return (Inr (map (\<lambda>(p, b). (join (output_dir env) p, b)) ?files)))"
    using receive_packed[OF assms(5) ok _ assms(6)] size assms(7) by (simp add: receive_files_def)
  moreover have "send_directory k fs True src_root (Directory es) =
      Some (Inr (map SendChunk (map blk_data (pack_files ?files)) @ [Shutdown]))"
    using send_directory_ok[OF assms(1-3)] size by simp
  moreover have "\<forall>(p, b)\<in>set engine_files.
      disk_after kw disk (map (\<lambda>(p, b). (join (output_dir env) p, b)) ?files) (join (output_dir env) p) = Some b"
    unfolding set[symmetric] using disk_after_writes[OF assms(8) dist rel] by blast
  ultimately show ?thesis
    unfolding test_engine_send_receive_loopback_def
    by (simp only: bridge_chunks option.case sum.case outcome.case list_all_iff)
qed

section \<open>\<^verbatim>\<open>zerocopy.rs\<close>\<close>

text \<open>The calls move bytes in order, so the destination holds as many first bytes of the source as were moved.\<close>

definition test_splice_copies_data :: "(nat \<Rightarrow> nat \<Rightarrow> int) \<Rightarrow> (nat \<Rightarrow> nat \<Rightarrow> int) \<Rightarrow> bool" where
  "test_splice_copies_data pull push =
     (let data = lit ''splice test payload 1234567890'' in
      case splice_copy_platform Linux True pull push (length data) of
        Some (Inr n) \<Rightarrow> n = length data \<and> take n data = data
      | _ \<Rightarrow> False)"

definition test_splice_unsupported_on_non_linux :: "platform \<Rightarrow> bool \<Rightarrow> (nat \<Rightarrow> nat \<Rightarrow> int) \<Rightarrow> (nat \<Rightarrow> nat \<Rightarrow> int) \<Rightarrow> bool" where
  "test_splice_unsupported_on_non_linux os pipe_ok pull push =
     (case os of
        OtherSystem \<Rightarrow> (case splice_copy_platform os pipe_ok pull push 16 of Some (Inl _) \<Rightarrow> True | _ \<Rightarrow> False)
      | Linux \<Rightarrow> True)"

lemma splice_tests_pass:
  assumes "progress push"
    "\<forall>d n. 0 < n \<longrightarrow> (if d < 30 then 0 < pull d n \<and> pull d n \<le> int (min n (30 - d)) else pull d n = 0)"
  shows "test_splice_copies_data pull push" "test_splice_unsupported_on_non_linux os pipe_ok pull' push'"
proof -
  define data where "data = lit ''splice test payload 1234567890''"
  have "length data = 30" by (simp add: data_def)
  then show "test_splice_copies_data pull push"
    unfolding test_splice_copies_data_def Let_def data_def[symmetric]
    using splice_copy_moves_available[OF assms, of 30] by (simp add: splice_copy_platform_def)
  show "test_splice_unsupported_on_non_linux os pipe_ok pull' push'"
    by (simp add: test_splice_unsupported_on_non_linux_def splice_copy_platform_def split: platform.splits)
qed

end
