(* ===== verification/Spec2Isabelle.thy ===== *)
theory Spec2Isabelle
  imports Packet Sack Session Congestion Sender Receiver Utf8 Packer IoEngine Reader Direct
    Channels SessionMgr Control Stun Turn Ice HolePunch Cli Truncation Rudp Commands Network Completion
    Lifecycle Platforms Server Common Concurrent NatMode ProtocolTests ControlTests TraversalTests StorageTests
begin

text \<open>
  UDPIX (\<^verbatim>\<open>src/crates\<close>) sends files over UDP.  The \<^verbatim>\<open>send\<close> command walks a directory, packs
  its files into blocks of at most 16 MB and sends the blocks as datagrams of a reliable UDP
  protocol; the \<^verbatim>\<open>receive\<close> command acknowledges the datagrams, puts the blocks together, unpacks them
  and writes the files.  Between two networks the commands first find a path through the NATs
  (STUN, ICE, TURN).  A separate \<^verbatim>\<open>server\<close> command runs a control plane with users, tokens and
  sessions.  This development models the Rust code of these parts and proves what makes each of
  them, and the chain from disk to disk, correct.

  \<^bold>\<open>Theories and code.\<close>  A theory per component, definitions in the order and with the names of the
  source; each theory begins with the correspondence in detail.

  \<^item> \<open>Prelude\<close>: machine integers, panics (\<open>outcome\<close>), little- and big-endian bytes, slices, \<open>chunks\<close>, and
    the interfaces of wire formats.  \<open>F64\<close>: IEEE binary64 arithmetic on finite values, as rounded
    rationals.
  \<^item> \<open>Packet\<close> (\<^verbatim>\<open>protocol/src/packet.rs\<close>): the 29-byte header.  \<open>Sack\<close> (\<^verbatim>\<open>sack.rs\<close>): the bitmap and its
    manager.  \<open>Session\<close> (\<^verbatim>\<open>session.rs\<close>): round-trip estimators and counters.  \<open>Congestion\<close>
    (\<^verbatim>\<open>congestion.rs\<close>): token bucket and bandwidth prober.  \<open>Sender\<close>, \<open>Receiver\<close> (\<^verbatim>\<open>sender.rs\<close>,
    \<^verbatim>\<open>receiver.rs\<close>): the two tasks, every handler, one iteration of their loops, and their runs as
    inductive relations.  \<open>Network\<close>: both tasks, the network and the SACK channel between them as one
    system of interleaved steps, for both wirings of that channel.  \<open>Completion\<close>: when a transfer can
    be completed.
  \<^item> \<open>Utf8\<close>, \<open>Packer\<close>, \<open>Truncation\<close> (\<^verbatim>\<open>ioengine/src/packer.rs\<close>): blocks and their manifest.  \<open>IoEngine\<close>
    (\<^verbatim>\<open>writer.rs\<close>, \<^verbatim>\<open>zerocopy.rs\<close>): unpacking, reassembly of split files, the io_uring loops, splice.
    \<open>Reader\<close> (\<^verbatim>\<open>reader.rs\<close>, \<^verbatim>\<open>lib.rs\<close>): the directory walk and the sending side.  \<open>Channels\<close>: the
    bounded channels between the tasks and the background threads, as step relations.  \<open>Lifecycle\<close>:
    start and drop of the reader, the writer and the engine.  \<open>Platforms\<close>: the code for systems other
    than Linux (files, sockets, \<open>readable\<close>, stubs) beside the Linux code.
  \<^item> \<open>SessionMgr\<close>, \<open>Control\<close> (\<^verbatim>\<open>controlplane/src\<close>): the session table; users, tokens, policies and the
    three handlers of the service.  \<open>Concurrent\<close>: the handlers in stages, interleaved.  \<open>Server\<close> (\<^verbatim>\<open>controlplane/src/server.rs\<close>, \<^verbatim>\<open>cli/src/server.rs\<close>,
    \<^verbatim>\<open>cli/src/main.rs\<close>): the builder, the \<^verbatim>\<open>server\<close> command and the dispatch.  \<open>Common\<close> (\<^verbatim>\<open>common/src\<close>): the
    newtypes and the error type.
  \<^item> \<open>Stun\<close>, \<open>Turn\<close>, \<open>Ice\<close>, \<open>HolePunch\<close> (\<^verbatim>\<open>traversal/src\<close>): messages and parsers, the TURN client, the
    check list, and the hole-punching pipeline.
  \<^item> \<open>Direct\<close>, \<open>Cli\<close>, \<open>Rudp\<close>, \<open>Commands\<close> (\<^verbatim>\<open>cli/src\<close>): direct mode, the socket and the ready handshake,
    NAT-traversal mode, and the commands \<^verbatim>\<open>send\<close> and \<^verbatim>\<open>receive\<close> as a whole.  \<open>NatMode\<close>: NAT-traversal mode
    over the network of \<open>Network\<close>.
  \<^item> \<open>Tests\<close>, \<open>ProtocolTests\<close>, \<open>StorageTests\<close>, \<open>ControlTests\<close>, \<open>TraversalTests\<close>: the unit tests of the
    repository, run on the model, and the STUN responder of the tests.
  \<^item> This theory: the property that spans the two commands, from disk to disk.

  \<^bold>\<open>Interfaces.\<close>  \<open>prefix_codec\<close> (a value is read back from the front of a buffer) is interpreted on the
  header (\<open>hdr\<close>), SACKs (\<open>sackc\<close>), frames (\<open>fr\<close>) and STUN messages (\<open>stun\<close>); \<open>cursor_codec\<close> on the
  manifest entries (\<open>entry\<close>); \<open>prefix_stable\<close> (a longer buffer does not change what was read) on
  every reader of the manifest.  \<open>ack_window\<close> (\<open>win\<close>) is what the SACK manager needs of the bitmap,
  \<open>pacer\<close> (\<open>tb\<close>) what the sender needs of the token bucket, \<open>session_store\<close> (\<open>mgr\<close>) what the control
  service needs of the session table, and \<open>completing\<close> the argument that a protocol over channels
  ends (\<open>rd\<close>, \<open>rd_stuck\<close>, \<open>wr\<close>, \<open>wr_stuck\<close>, \<open>dr\<close>, \<open>dr_stuck\<close>).

  \<^bold>\<open>What is shown.\<close>  Protocol: in every reachable state of the system only chunks of the sender are
  delivered and nothing leaves the sender's store before it was delivered, whether or not the SACKs of
  the receiver reach the sender.  \<open>Receiver::new\<close> documents that they do; the commands leave both ends
  of the channel unconnected (\<^verbatim>\<open>send.rs\<close> line 188, \<^verbatim>\<open>receive.rs\<close> lines 143 and 204), and no other code connects them.
  With that channel the transfer can be completed by the protocol's own steps from every reachable
  state; in the wiring of the commands every chunk stays in flight and the sender's loop never ends.  A
  SACK acknowledges exactly what arrived, a SACK removes exactly
  what it acknowledges, an iteration stays within the token bucket, every datagram is handled
  without a panic, and the batched receive equals the one datagram by one.  Storage: packing
  and unpacking are inverse, truncated blocks are rejected, the writer restores the files, the
  io_uring loops are exact under short counts, and which numbers of files make the reader's
  channels block for good, while dropping the engine never does as long as file operations return; where the portable code agrees
  with the Linux code.  Control plane: the \<^verbatim>\<open>server\<close> command serves the administrator only, with TLS
  exactly when certificate and key are given; sessions come from credentials, the life of a session
  refines a small automaton, tokens work until they expire; calls that run at the same time take
  effect one at a time, in an order that respects when they came and when they were answered.  Traversal: parsers of the two modules
  agree and invert the builders, the agent selects the best working pair, priorities are those of
  RFC 8445, discovery returns the address the response prefers, the TURN client obtains the relay of a
  server that challenges and then grants, in whatever order its attributes come, and against the responder of
  the tests discovery and \<open>connect\<close> succeed for every address.  Commands: a direct transfer
  restores the directory tree; which transfers in NAT-traversal mode succeed, and that with
  blocks of one datagram no loss, repetition or reordering leaves a wrong file behind; what is
  reported when the end of a transfer is lost; when the wait for the receiver ends, and which peers
  hang it.  Tests: every unit test of the repository passes on
  the model, for all values that a test gets from its surroundings; this compares the model with
  what the authors of the code expect of it.

  \<^bold>\<open>Conventions.\<close>  The answers of the operating system, the network, the clocks, random generators and
  of the libraries (PBKDF2, JWT, MD5, HMAC-SHA1) are arguments of the definitions that use them;
  what is assumed of them is a named predicate (\<open>recv_ok\<close>, \<open>kernel_ok\<close>, \<open>enumerates\<close>, \<open>progress\<close>, \<open>env_ok\<close>,
  \<open>lib_ok\<close>).  Integers have their width and wrap as in a release build; a panic is \<open>Panic\<close>, an error
  the left of a sum, and \<open>None\<close> a call that never returns (\<open>partial_function\<close>); where the code
  returns, that is a theorem.  No fuel is used.

  \<^bold>\<open>Bounds.\<close>  Sequence numbers: runs of fewer than \<open>2 ^ 64\<close> chunks, less the 1024 of the window, since
  a longer run wraps the \<open>u64\<close> counters.  Blocks: at most \<open>2 ^ 32\<close> entries and paths below
  \<open>2 ^ 16\<close> bytes, the widths of the manifest's fields; files up to \<open>2 ^ 55\<close> bytes, so that the number
  of parts fits its field.  A directory: at most 1025 files, twice the 512 places of a channel and
  one in the thread's hand, beyond which the reader blocks.

  \<^bold>\<open>Not modelled.\<close>  The parsing of argument strings by clap, logging and timing output; the gRPC
  library and the generated code (\<^verbatim>\<open>controlplane/build.rs\<close>), whose calls to the handlers are the
  steps of the service; the scheduler: the tasks are step relations or functions of what the other
  tasks did, so the completion of a transfer is stated as always possible and not under a
  fairness assumption, and a critical section of the service is one step; the end of the process while a
  detached thread still works; module declarations, the empty \<^verbatim>\<open>common/src/crypto.rs\<close>, the benchmarks, and
  of the tests the creation and removal of temporary directories.
\<close>

section \<open>A directory from disk to disk\<close>

lemma length_le_concat: "\<forall>c\<in>set cs. c \<noteq> [] \<Longrightarrow> length cs \<le> length (concat cs)"
proof (induction cs)
  case (Cons c cs)
  then show ?case by (cases c) auto
qed simp

lemma direct_chunks_bound:
  assumes "length (concat (map frame blocks)) + 1024 < 2 ^ 64"
  shows "\<forall>b\<in>set blocks. frame_ok b" and "length (direct_chunks blocks) + 1024 < 2 ^ 64"
proof -
  have "length (frame b) \<le> length (concat (map frame blocks))" if "b \<in> set blocks" for b
    using that by (induction blocks) auto
  then show "\<forall>b\<in>set blocks. frame_ok b" using assms by (fastforce simp: frame_ok_def)
  have "\<forall>c\<in>set (direct_chunks blocks). c \<noteq> []" using chunks_length[of _ MAX_PAYLOAD] by fastforce
  then have "length (direct_chunks blocks) \<le> length (concat (map frame blocks))"
    using length_le_concat direct_chunks_facts(1) by metis
  then show "length (direct_chunks blocks) + 1024 < 2 ^ 64" using assms by simp
qed

text \<open>
  C3: a directory from disk to disk.  Both commands run in direct mode, their sockets open and
  their handshake succeeds, and the path between them is lossless and ordered.  Then the send
  command walks, reads, packs, frames and cuts a readable directory tree into datagrams, the
  receiver handles them and stops at the FIN, and the receive command reassembles and unpacks
  the blocks and writes exactly the regular files of the tree, at their relative paths below the
  output directory, with their bytes, whatever short counts the reads and writes report, and
  nothing else.  The bounds are those of the reader's channels and of the formats: at most 1025
  files, paths below 64 KB, and fewer than \<open>2 ^ 64\<close> bytes in all.
\<close>

theorem direct_transfer_end_to_end:
  assumes "send_ready env args" "receive_ready renv rargs"
    "se_node env = Directory es" "tree_ok es" "\<forall>p. progress (se_read env p)"
    "\<forall>(p, b)\<in>set (tree_files (sa_path args) es). se_disk env p = Some (length b, b)"
    "\<forall>f\<in>set (tree_files [] es). file_ok f" "all_submitted (length (tree_files [] es))"
    "env_ok (re_writer renv)" "\<forall>p\<in>set (re_final renv). poll_ok p" "length (tree_files [] es) \<le> length (re_final renv)"
    "length (concat (map frame (map blk_data (pack_files (tree_files [] es))))) + 1024 < 2 ^ 64"
    "\<forall>p. progress (kw p)"
  shows "\<exists>pkts r' acts writes results. run_send env args = Some (Return (Inr (DirectSent pkts))) \<and>
    process_stream clock 0 pkts (receiver_new 1 0 st) [] = Some (Return (True, r', acts)) \<and>
    run_receive (renv\<lparr>re_acts := acts, re_panicked := False\<rparr>) rargs = Some (Return (Inr writes)) \<and>
    writes = map (\<lambda>(p, b). (join (output_dir (re_writer renv)) p, b)) (tree_files [] es) \<and>
    io_uring_write_loop (\<lambda>_. Opened) kw (map Some writes @ [None]) disk =
      Some (results, fold (\<lambda>(p, b) d. d(p \<mapsto> b)) writes disk)"
proof -
  let ?blocks = "map blk_data (pack_files (tree_files [] es))"
  let ?cmds = "map SendChunk ?blocks @ [Shutdown]"
  let ?pkts = "fst (run_direct_send (se_now_us env) (se_fin_us env) ?cmds)"
  define writes where "writes = map (\<lambda>(p, b). (join (output_dir (re_writer renv)) p, b)) (tree_files [] es)"
  have "send_directory (se_read env) (se_disk env) True (sa_path args) (Directory es) = Some (Inr ?cmds)"
    using send_directory_ok[OF assms(4-6,8)] by simp
  then have "run_send env args = Some (Return (Inr (DirectSent ?pkts)))"
    using assms(1,3) by (simp add: run_send_ready run_direct_mode_def send_ready_def)
  moreover obtain r' acts where stream: "process_stream clock 0 ?pkts (receiver_new 1 0 st) [] = Some (Return (True, r', acts))"
    "reassemble (\<lambda>_. True) (deliveries acts) [] [] = (Drained, ?blocks)"
    using direct_stream_ok[OF direct_chunks_bound[OF assms(12)]] by blast
  moreover have "receive_files (re_writer renv) (re_final renv) ?blocks = Some (Return (Inr writes))"
    using receive_packed[OF assms(9,7) all_submitted_small[OF assms(8)] assms(10,11)]
    by (simp add: receive_files_def writes_def)
  then have "run_direct_receive (re_writer renv) (re_final renv) acts False = Some (Return (Inr writes))"
    using stream(2) by (simp add: run_direct_receive_def join_receiver_def)
  then have "run_receive (renv\<lparr>re_acts := acts, re_panicked := False\<rparr>) rargs = Some (Return (Inr writes))"
    using assms(2) by (subst run_receive_ready) (simp_all add: receive_ready_def receive_mode_def)
  moreover note write_thread_ok[of "\<lambda>_. Opened" kw writes disk]
  ultimately show ?thesis using assms(13) unfolding writes_def by blast
qed

theorem direct_transfer_end_to_end_witness:
  "\<exists>pkts r' acts results. run_send example_send example_send_args = Some (Return (Inr (DirectSent pkts))) \<and>
    process_stream (\<lambda>_. 0) 0 pkts (receiver_new 1 0 stats_new) [] = Some (Return (True, r', acts)) \<and>
    run_receive (example_receive\<lparr>re_acts := acts, re_panicked := False\<rparr>) example_receive_args =
      Some (Return (Inr [([111, 47, 97], [1, 2])])) \<and>
    io_uring_write_loop (\<lambda>_. Opened) (\<lambda>_ _ n. int n) [Some ([111, 47, 97], [1, 2]), None] Map.empty =
      Some (results, [[111, 47, 97] \<mapsto> [1, 2]])"
proof -
  let ?es = "[([97], RegFile [1, 2])]"
  have files: "tree_files [] ?es = [([97], [1, 2])]" "tree_files [115] ?es = [([115, 47, 97], [1, 2])]"
    by (simp_all add: join_def)
  have u: "to_string_lossy [97] = [97]" by (simp add: to_string_lossy_valid from_utf8_ascii)
  have sz: "length (concat (map frame (map blk_data (pack_files (tree_files [] ?es))))) + 1024 < 2 ^ 64" unfolding files
    by (simp add: pack_files_def pack_file_def flush_def serialise_block_def entry_bytes_def u BLOCK_SIZE_def Let_def)
  have send: "send_ready example_send example_send_args"
    by (simp add: send_ready_def example_send_def example_send_args_def example_cli_def READY_def)
  have recv: "receive_ready example_receive example_receive_args"
    by (simp add: receive_ready_def example_receive_def example_receive_args_def example_cli_def)
  have node: "se_node example_send = Directory ?es" "sa_path example_send_args = [115]"
    by (simp_all add: example_send_def example_send_args_def)
  have "tree_ok ?es" "\<forall>p. progress (se_read example_send p)"
    "\<forall>(p, b)\<in>set (tree_files (sa_path example_send_args) ?es). se_disk example_send p = Some (length b, b)"
    "\<forall>f\<in>set (tree_files [] ?es). file_ok f" "all_submitted (length (tree_files [] ?es))"
    unfolding node(2) files
    by (simp_all add: name_ok_def progress_def example_send_def file_ok_def path_ok_def from_utf8_ascii
        all_submitted_def reader_capacity_def)
  moreover have "env_ok (re_writer example_receive)" "\<forall>p\<in>set (re_final example_receive). poll_ok p"
    "length (tree_files [] ?es) \<le> length (re_final example_receive)" "output_dir (re_writer example_receive) = [111]"
    unfolding files by (simp_all add: env_ok_def poll_ok_def example_receive_def)
  moreover have "\<forall>p :: path. progress (\<lambda>_ n. int n)" by (simp add: progress_def)
  ultimately show ?thesis
    using direct_transfer_end_to_end[OF send recv node(1), of "\<lambda>_ _ n. int n" "\<lambda>_. 0" stats_new Map.empty] sz
    unfolding files by (simp add: join_def)
qed

end
